(* ===== verification/Prelude.thy ===== *)
theory Prelude
  imports Main "HOL-Library.Word" "HOL-Library.Multiset"
begin

text \<open>
  The shared vocabulary of the development.

  C functions that change state, may terminate the process or may suspend the calling coroutine are
  modelled as operations: functions from a state to either a fault or a result and the new
  state. This theory holds the combinators those operations are written with, the total-correctness
  triple \<open>valid\<close>, the invariance predicate \<open>preserves\<close> and its refinement \<open>safe\<close> with their rules, and the list lemmas
  that the event queues, the worker ring and the timer list share.
\<close>

named_theorems op_defs \<open>definitions of the operation combinators\<close>
named_theorems op_valid \<open>rules for the total-correctness triple\<close>

section \<open>Operations\<close>

type_synonym ('s, 'f, 'a) op = "'s \<Rightarrow> 'f + ('a \<times> 's)"

definition ret :: "'a \<Rightarrow> ('s, 'f, 'a) op" where
  "ret x = (\<lambda>s. Inr (x, s))"

definition throw :: "'f \<Rightarrow> ('s, 'f, 'a) op" where
  "throw f = (\<lambda>s. Inl f)"

definition bnd :: "('s, 'f, 'a) op \<Rightarrow> ('a \<Rightarrow> ('s, 'f, 'b) op) \<Rightarrow> ('s, 'f, 'b) op" where
  "bnd m k = (\<lambda>s. case m s of Inl f \<Rightarrow> Inl f | Inr (x, s') \<Rightarrow> k x s')"

definition thn :: "('s, 'f, 'a) op \<Rightarrow> ('s, 'f, 'b) op \<Rightarrow> ('s, 'f, 'b) op" where
  "thn m k = bnd m (\<lambda>_. k)"

definition gets :: "('s \<Rightarrow> 'a) \<Rightarrow> ('s, 'f, 'a) op" where
  "gets g = (\<lambda>s. Inr (g s, s))"

definition mdf :: "('s \<Rightarrow> 's) \<Rightarrow> ('s, 'f, unit) op" where
  "mdf g = (\<lambda>s. Inr ((), g s))"

definition ifm :: "('s \<Rightarrow> bool) \<Rightarrow> ('s, 'f, 'a) op \<Rightarrow> ('s, 'f, 'a) op \<Rightarrow> ('s, 'f, 'a) op" where
  "ifm c m n = (\<lambda>s. if c s then m s else n s)"

definition whn :: "('s \<Rightarrow> bool) \<Rightarrow> ('s, 'f, unit) op \<Rightarrow> ('s, 'f, unit) op" where
  "whn c m = (\<lambda>s. if c s then m s else Inr ((), s))"

text \<open>A statement whose operands are read from the current state.\<close>

definition rdm :: "('s \<Rightarrow> ('s, 'f, 'a) op) \<Rightarrow> ('s, 'f, 'a) op" where
  "rdm k = (\<lambda>s. k s s)"

text \<open>A C compound statement: the operations of the list, one after the other.\<close>

primrec block :: "('s, 'f, unit) op list \<Rightarrow> ('s, 'f, unit) op" where
  "block [] = (\<lambda>s. Inr ((), s))"
| "block (m # ms) = (\<lambda>s. case m s of Inl f \<Rightarrow> Inl f | Inr (_, s') \<Rightarrow> block ms s')"

text \<open>A loop over the elements of a list, in order.\<close>

primrec formap :: "('x \<Rightarrow> ('s, 'f, unit) op) \<Rightarrow> 'x list \<Rightarrow> ('s, 'f, unit) op" where
  "formap b [] = (\<lambda>s. Inr ((), s))"
| "formap b (x # xs) = (\<lambda>s. case b x s of Inl f \<Rightarrow> Inl f | Inr (_, s') \<Rightarrow> formap b xs s')"

lemmas op_basic_defs [op_defs] =
  ret_def throw_def bnd_def thn_def gets_def mdf_def ifm_def whn_def rdm_def

lemma block_append:
  "block (ms @ ns) s = (case block ms s of Inl f \<Rightarrow> Inl f | Inr (_, s') \<Rightarrow> block ns s')"
  by (induction ms arbitrary: s) (auto split: sum.splits)

lemma thn_block: "thn (block ms) (block ns) = block (ms @ ns)"
  by (rule ext) (auto simp: block_append thn_def bnd_def split: sum.splits)

section \<open>Total correctness and invariance\<close>

text \<open>From every state in \<open>P\<close> the operation returns, and its result and state satisfy \<open>Q\<close>.\<close>

definition valid :: "('s \<Rightarrow> bool) \<Rightarrow> ('s, 'f, 'a) op \<Rightarrow> ('a \<Rightarrow> 's \<Rightarrow> bool) \<Rightarrow> bool" where
  "valid P m Q \<longleftrightarrow> (\<forall>s. P s \<longrightarrow> (\<exists>x s'. m s = Inr (x, s') \<and> Q x s'))"

text \<open>Where the operation returns from a state in \<open>P\<close>, its final state is in \<open>P\<close> again.\<close>

definition preserves :: "('s \<Rightarrow> bool) \<Rightarrow> ('s, 'f, 'a) op \<Rightarrow> bool" where
  "preserves P m \<longleftrightarrow> (\<forall>s x s'. P s \<longrightarrow> m s = Inr (x, s') \<longrightarrow> P s')"

lemma validI: "(\<And>s. P s \<Longrightarrow> \<exists>x s'. m s = Inr (x, s') \<and> Q x s') \<Longrightarrow> valid P m Q"
  by (simp add: valid_def)

lemma validE:
  assumes "valid P m Q" and "P s"
  obtains x s' where "m s = Inr (x, s')" and "Q x s'"
  using assms by (auto simp: valid_def)

lemma valid_bnd [op_valid]:
  "valid P m R \<Longrightarrow> (\<And>x. valid (R x) (k x) Q) \<Longrightarrow> valid P (bnd m k) Q"
  by (fastforce simp: valid_def bnd_def)

lemma valid_weaken:
  "valid P m Q \<Longrightarrow> (\<And>s. P' s \<Longrightarrow> P s) \<Longrightarrow> (\<And>x s. Q x s \<Longrightarrow> Q' x s) \<Longrightarrow> valid P' m Q'"
  unfolding valid_def by blast

lemma valid_block_Nil [op_valid]: "valid P (block []) (\<lambda>_. P)"
  by (simp add: valid_def)

lemma valid_block_Cons [op_valid]:
  "valid P m (\<lambda>_. R) \<Longrightarrow> valid R (block ms) Q \<Longrightarrow> valid P (block (m # ms)) Q"
  by (fastforce simp: valid_def)

lemma preservesI:
  "(\<And>s x s'. P s \<Longrightarrow> m s = Inr (x, s') \<Longrightarrow> P s') \<Longrightarrow> preserves P m"
  by (auto simp: preserves_def)

lemma preservesD: "preserves P m \<Longrightarrow> P s \<Longrightarrow> m s = Inr (x, s') \<Longrightarrow> P s'"
  by (auto simp: preserves_def)

lemma preserves_block: "(\<And>m. m \<in> set ms \<Longrightarrow> preserves P m) \<Longrightarrow> preserves P (block ms)"
proof (induction ms)
  case Nil
  then show ?case by (auto simp: preserves_def)
next
  case (Cons m ms)
  then have m: "preserves P m" and ms: "preserves P (block ms)" by auto
  show ?case
  proof (rule preservesI)
    fix s x s'
    assume "P s" and r: "block (m # ms) s = Inr (x, s')"
    from r obtain u t where t: "m s = Inr (u, t)" "block ms t = Inr (x, s')"
      by (auto split: sum.splits)
    from preservesD [OF m \<open>P s\<close> t(1)] show "P s'" by (rule preservesD [OF ms _ t(2)])
  qed
qed

lemma preserves_bnd:
  assumes m: "preserves P m" and k: "\<And>x. preserves P (k x)"
  shows "preserves P (bnd m k)"
proof (rule preservesI)
  fix s x s'
  assume "P s" and r: "bnd m k s = Inr (x, s')"
  from r obtain u t where t: "m s = Inr (u, t)" "k u t = Inr (x, s')"
    by (auto simp: bnd_def split: sum.splits)
  from preservesD [OF m \<open>P s\<close> t(1)] show "P s'" by (rule preservesD [OF k _ t(2)])
qed

lemma preserves_ifm: "preserves P m \<Longrightarrow> preserves P n \<Longrightarrow> preserves P (ifm c m n)"
  by (rule preservesI) (auto simp: ifm_def dest: preservesD split: if_splits)

lemma preserves_whn: "preserves P m \<Longrightarrow> preserves P (whn c m)"
  by (rule preservesI) (auto simp: whn_def dest: preservesD split: if_splits)

lemma preserves_formap: "(\<And>x. x \<in> set xs \<Longrightarrow> preserves P (b x)) \<Longrightarrow> preserves P (formap b xs)"
proof (induction xs)
  case Nil
  then show ?case by (auto simp: preserves_def)
next
  case (Cons x xs)
  then have b: "preserves P (b x)" and bs: "preserves P (formap b xs)" by auto
  show ?case
  proof (rule preservesI)
    fix s u s'
    assume "P s" and r: "formap b (x # xs) s = Inr (u, s')"
    from r obtain v t where t: "b x s = Inr (v, t)" "formap b xs t = Inr (u, s')"
      by (auto split: sum.splits)
    from preservesD [OF b \<open>P s\<close> t(1)] show "P s'" by (rule preservesD [OF bs _ t(2)])
  qed
qed

lemma preserves_mdf: "(\<And>s. P s \<Longrightarrow> P (g s)) \<Longrightarrow> preserves P (mdf g)"
  by (auto simp: preserves_def mdf_def)

lemma preserves_rdm: "(\<And>s. P s \<Longrightarrow> preserves P (k s)) \<Longrightarrow> preserves P (rdm k)"
  unfolding preserves_def rdm_def by blast

lemma preserves_thn: "preserves P m \<Longrightarrow> preserves P k \<Longrightarrow> preserves P (thn m k)"
  by (simp add: thn_def preserves_bnd)

lemma preserves_ret: "preserves P (ret x)" "preserves P (throw f)" "preserves P (gets g)"
  by (auto simp: preserves_def ret_def throw_def gets_def)

lemmas preserves_intros =
  preserves_block preserves_bnd preserves_ifm preserves_whn preserves_formap preserves_mdf preserves_rdm preserves_thn preserves_ret

section \<open>Keeping a property and avoiding faults\<close>

text \<open>From every state in \<open>P\<close> the operation stays in \<open>P\<close>, and when it fails, then not with a fault in \<open>F\<close>.\<close>

definition safe :: "('s \<Rightarrow> bool) \<Rightarrow> 'f set \<Rightarrow> ('s, 'f, 'a) op \<Rightarrow> bool" where
  "safe P F m \<longleftrightarrow> (\<forall>s. P s \<longrightarrow> (case m s of Inl f \<Rightarrow> f \<notin> F | Inr (x, s') \<Rightarrow> P s'))"

named_theorems safe_rules \<open>operations that are safe, by their structure\<close>

lemma safeI: "(\<And>s. P s \<Longrightarrow> case m s of Inl f \<Rightarrow> f \<notin> F | Inr (x, s') \<Rightarrow> P s') \<Longrightarrow> safe P F m"
  by (simp add: safe_def)

lemma safeD: "safe P F m \<Longrightarrow> P s \<Longrightarrow> case m s of Inl f \<Rightarrow> f \<notin> F | Inr (x, s') \<Rightarrow> P s'"
  by (simp add: safe_def)

lemma safe_Inr: "safe P F m \<Longrightarrow> P s \<Longrightarrow> m s = Inr (x, s') \<Longrightarrow> P s'"
  by (drule (1) safeD) simp

lemma safe_Inl: "safe P F m \<Longrightarrow> P s \<Longrightarrow> m s = Inl f \<Longrightarrow> f \<notin> F"
  by (drule (1) safeD) simp

lemma safe_basic [safe_rules]:
  "safe P F (ret x)" "safe P F (gets h)" "f \<notin> F \<Longrightarrow> safe P F (throw f)" "(\<And>s. P s \<Longrightarrow> P (g s)) \<Longrightarrow> safe P F (mdf g)"
  by (simp_all add: safe_def op_defs)

lemma safe_bnd [safe_rules]: "safe P F m \<Longrightarrow> (\<And>x. safe P F (k x)) \<Longrightarrow> safe P F (bnd m k)"
  by (rule safeI) (auto simp: bnd_def dest: safe_Inl safe_Inr safeD split: sum.splits)

lemma safe_thn [safe_rules]: "safe P F m \<Longrightarrow> safe P F k \<Longrightarrow> safe P F (thn m k)"
  by (simp add: thn_def safe_bnd)

lemma safe_ifm [safe_rules]: "safe P F m \<Longrightarrow> safe P F n \<Longrightarrow> safe P F (ifm c m n)"
  by (simp add: safe_def ifm_def)

lemma safe_whn [safe_rules]: "safe P F m \<Longrightarrow> safe P F (whn c m)"
  by (simp add: safe_def whn_def)

lemma safe_rdm [safe_rules]: "(\<And>s. safe P F (k s)) \<Longrightarrow> safe P F (rdm k)"
  by (simp add: safe_def rdm_def)

lemma block_thn: "block (m # ms) = thn m (block ms)" "formap b (x # xs) = thn (b x) (formap b xs)"
  by (auto simp: fun_eq_iff op_defs split: sum.splits)

lemma safe_skip: "safe P F (\<lambda>s. Inr ((), s))"
  by (simp add: safe_def)

lemma safe_block [safe_rules]:
  "safe P F (block [])" "safe P F m \<Longrightarrow> safe P F (block ms) \<Longrightarrow> safe P F (block (m # ms))"
  by (simp_all only: block_thn block.simps safe_thn safe_skip)

lemma safe_formap [safe_rules]: "(\<And>x. safe P F (b x)) \<Longrightarrow> safe P F (formap b xs)"
  by (induction xs) (simp_all only: block_thn formap.simps(1) safe_thn safe_skip)

lemma safe_cases [safe_rules]:
  "(c \<Longrightarrow> safe P F m) \<Longrightarrow> (\<not> c \<Longrightarrow> safe P F n) \<Longrightarrow> safe P F (if c then m else n)"
  "(x = None \<Longrightarrow> safe P F m) \<Longrightarrow> (\<And>y. x = Some y \<Longrightarrow> safe P F (k y)) \<Longrightarrow> safe P F (case x of None \<Rightarrow> m | Some y \<Rightarrow> k y)"
  "(xs = [] \<Longrightarrow> safe P F m) \<Longrightarrow> (\<And>y ys. xs = y # ys \<Longrightarrow> safe P F (l y ys)) \<Longrightarrow> safe P F (case xs of [] \<Rightarrow> m | y # ys \<Rightarrow> l y ys)"
  "(\<And>a b. q = (a, b) \<Longrightarrow> safe P F (r a b)) \<Longrightarrow> safe P F (case q of (a, b) \<Rightarrow> r a b)"
  "safe P F (h z) \<Longrightarrow> safe P F (let v = z in h v)"
  by (auto split: option.splits list.splits prod.splits)

section \<open>Transition systems\<close>

text \<open>A component seen as a transition system, with a property that holds initially and that every step keeps.\<close>

inductive reach :: "('s \<Rightarrow> bool) \<Rightarrow> ('s \<Rightarrow> 's \<Rightarrow> bool) \<Rightarrow> 's \<Rightarrow> bool" for init step where
  reach_init: "init s \<Longrightarrow> reach init step s"
| reach_step: "reach init step s \<Longrightarrow> step s t \<Longrightarrow> reach init step t"

locale inv_system =
  fixes init :: "'s \<Rightarrow> bool"
    and step :: "'s \<Rightarrow> 's \<Rightarrow> bool"
    and inv :: "'s \<Rightarrow> bool"
  assumes init_inv: "init s \<Longrightarrow> inv s"
    and step_inv: "inv s \<Longrightarrow> step s t \<Longrightarrow> inv t"
begin

lemma reach_inv: "reach init step s \<Longrightarrow> inv s"
  by (induction rule: reach.induct) (auto intro: init_inv step_inv)

lemma steps_inv: "step\<^sup>*\<^sup>* s t \<Longrightarrow> inv s \<Longrightarrow> inv t"
  by (induction rule: rtranclp_induct) (auto intro: step_inv)

text \<open>A property that steps of one kind keep holds along every run of such steps.\<close>

lemma steps_keep:
  assumes "\<And>s t. inv s \<Longrightarrow> step s t \<Longrightarrow> allowed s t \<Longrightarrow> P s \<Longrightarrow> P t"
  shows "(\<lambda>s t. step s t \<and> allowed s t)\<^sup>*\<^sup>* s t \<Longrightarrow> inv s \<Longrightarrow> P s \<Longrightarrow> inv t \<and> P t"
  by (induction rule: rtranclp_induct) (auto intro: step_inv assms)

end

text \<open>A system whose steps, seen through \<open>abs\<close>, are steps of a specification: every reachable state then is a reachable state of the specification.\<close>

locale simulation = inv_system +
  fixes abs :: "'s \<Rightarrow> 'a"
    and ainit :: "'a \<Rightarrow> bool"
    and astep :: "'a \<Rightarrow> 'a \<Rightarrow> bool"
  assumes abs_init: "init s \<Longrightarrow> ainit (abs s)"
    and abs_step: "inv s \<Longrightarrow> step s t \<Longrightarrow> astep (abs s) (abs t)"
begin

lemma reach_abs: "reach init step s \<Longrightarrow> reach ainit astep (abs s)"
proof (induction rule: reach.induct)
  case (reach_init s)
  then show ?case by (intro reach.reach_init abs_init)
next
  case (reach_step s t)
  from abs_step [OF reach_inv [OF reach_step(1)] reach_step(2)] reach_step(3) show ?case by (rule reach.reach_step [rotated])
qed

lemma steps_abs: "reach init step s \<Longrightarrow> step s t \<Longrightarrow> astep (abs s) (abs t)"
  by (intro abs_step reach_inv)

end

section \<open>Lists\<close>

lemma remove1_hd [simp]: "xs \<noteq> [] \<Longrightarrow> remove1 (hd xs) xs = tl xs"
  by (cases xs) auto

lemma set_remove1_distinct: "distinct xs \<Longrightarrow> set (remove1 x xs) = set xs - {x}"
  by simp

lemma remove1_snoc_notin [simp]: "x \<notin> set xs \<Longrightarrow> remove1 x (xs @ [x]) = xs"
  by (induction xs) auto

lemma length_remove1_in: "x \<in> set xs \<Longrightarrow> int (length (remove1 x xs)) = int (length xs) - 1"
  by (induction xs) auto

fun opt_list :: "'a option \<Rightarrow> 'a list" where
  "opt_list None = []"
| "opt_list (Some x) = [x]"

lemma set_opt_list [simp]: "set (opt_list x) = set_option x"
  by (cases x) auto

lemma filter_distinct_split:
  "distinct (xs @ ys) \<Longrightarrow> mset zs = mset (xs @ ys) \<Longrightarrow> mset (filter (\<lambda>z. z \<notin> set ys) zs) = mset xs"
proof -
  assume d: "distinct (xs @ ys)" and m: "mset zs = mset (xs @ ys)"
  have "mset (filter (\<lambda>z. z \<notin> set ys) zs) = mset (filter (\<lambda>z. z \<notin> set ys) (xs @ ys))"
    using m by (metis mset_filter)
  also have "filter (\<lambda>z. z \<notin> set ys) (xs @ ys) = xs"
    using d by (simp add: filter_id_conv disjoint_iff)
  finally show ?thesis .
qed

end
