(* ===== verification/Tcr_State.thy ===== *)
theory Tcr_State
  imports Prelude
begin

text \<open>
  The data of the library: the structures of \<^verbatim>\<open>threaded_cr.h\<close> and \<^verbatim>\<open>threaded_cr.c\<close> as records
  and datatypes, the process state they live in, and the primitive statements the functions of the
  library are made of (spin locks, queue macros, system calls, diagnostics).

  A pointer to a structure is a number, its address; a structure that is embedded in another one
  (a wait queue in a mutex, the event list of a descriptor) is named by a constructor over the
  address of the outer structure, so that distinct structures have distinct names. A pointer that may be
  \<^verbatim>\<open>NULL\<close> is an \<open>option\<close>.

  The build modelled is the one with \<^verbatim>\<open>SPINLOCK_DEBUG\<close>, so that \<^verbatim>\<open>__must_hold\<close> is an assertion,
  and without \<^verbatim>\<open>WAIT_DEBUG\<close> and \<^verbatim>\<open>HAVE__RHEL5\<close>. The \<^verbatim>\<open>int64_t\<close> reference and event counters are integers:
  each counts live structures of one address space.
\<close>

section \<open>Addresses\<close>

type_synonym eid = nat   \<comment> \<open>\<^verbatim>\<open>struct event *\<close>\<close>
type_synonym tid = nat   \<comment> \<open>\<^verbatim>\<open>struct tc_thread *\<close>, and the coroutine of that thread\<close>
type_synonym fdid = nat  \<comment> \<open>\<^verbatim>\<open>struct tc_fd *\<close>\<close>
type_synonym did = nat   \<comment> \<open>\<^verbatim>\<open>struct tc_domain *\<close>\<close>
type_synonym wid = nat   \<comment> \<open>\<^verbatim>\<open>struct worker_struct *\<close>\<close>
type_synonym sid = nat   \<comment> \<open>\<^verbatim>\<open>struct tc_signal *\<close>\<close>
type_synonym twid = nat  \<comment> \<open>\<^verbatim>\<open>struct timer_waiter *\<close>\<close>
type_synonym rwid = nat  \<comment> \<open>\<^verbatim>\<open>struct tc_rw_lock *\<close>\<close>
type_synonym u32 = "32 word"

datatype mid = Mutex nat | Rw_mutex rwid | Timer_mutex did
  \<comment> \<open>\<^verbatim>\<open>struct tc_mutex *\<close>: a mutex of its own, the one in a read/write lock, the one in a domain\<close>

datatype wqid = Wq nat | Mutex_wq mid | Rw_wq rwid | Sig_wq sid | Exit_wq tid | Aio_wq tid | Timer_wq twid
  \<comment> \<open>\<^verbatim>\<open>struct tc_waitq *\<close>\<close>

datatype elist = Immediate | Pending tid | Waiters wqid | Fd_events fdid
  \<comment> \<open>\<^verbatim>\<open>struct event_list *\<close>\<close>

datatype lock = L_list elist | L_running tid | L_domain did | L_sync did | L_timer did | L_workers did
  \<comment> \<open>\<^verbatim>\<open>spinlock_t *\<close>\<close>

datatype adid = Aio tid nat | Aio_ext nat
  \<comment> \<open>\<^verbatim>\<open>struct tc_aio_data *\<close>: slot of a thread, or the caller's own\<close>

section \<open>Events and threads\<close>

datatype tc_event_flag = EF_READY | EF_EXITING | EF_SIGNAL | EF_PRIORITY

datatype tc_rv = RV_OK | RV_INTR | RV_THREAD_NA | RV_FAILED

text \<open>The union of \<^verbatim>\<open>struct event\<close>; the constructor says which member was written last.\<close>

datatype event_union = Ep_events u32 | Tcfd "fdid option" | Signal sid

record event =
  ev_tc :: tid
  ev_u :: event_union
  ev_flags :: tc_event_flag
  ev_acked :: bool
  next_in_stack :: "eid option"
  ev_el :: "elist option"
  ev_domain :: did

datatype thread_flag = TF_THREADS | TF_RUNNING | TF_FREE_NAME | TF_AFFINE

record tc_thread =
  tc_name :: string
  per_thread_data :: nat
  tc_cr :: bool           \<comment> \<open>\<^verbatim>\<open>cr\<close> is not \<^verbatim>\<open>NULL\<close>\<close>
  refcnt :: int
  tc_flags :: "thread_flag set"
  event_stack :: "eid option"
  tc_e :: eid             \<comment> \<open>address of the embedded start and stop event\<close>
  worker_nr :: int
  tc_id :: u32
  signals_since_last_query :: int
  tc_dom :: did
  last_worker :: wid

record tc_fd =
  fd_fd :: int
  err_hup :: bool
  fd_ep_events :: u32
  was_allocated :: bool

record worker_struct =
  w_nr :: int
  main_thread :: tid
  sched_p2 :: tid
  woken_by_event :: "eid option"
  woken_by_tcfd :: event_union  \<comment> \<open>raw contents of the union copied from an event\<close>
  is_on_sleeping_list :: bool
  must_sync :: bool
  w_is_init :: bool
  w_tid :: int

record timespec =
  tv_sec :: int
  tv_nsec :: int

record timer_waiter =
  abs_end :: timespec
  tw_tc :: tid
  on_timerlist :: bool  \<comment> \<open>\<^verbatim>\<open>LIST_NEXT(tw, tl) != NOT_ON_TIMERLIST\<close>\<close>

record tc_domain =
  aio_eventfd :: int
  aio_ctx :: "int option"   \<comment> \<open>set up for that many requests\<close>
  d_threads :: "tid list"
  d_threads_domain :: did
  nr_of_workers :: int
  sleeping_workers :: "wid list"
  d_efd :: int
  immediate_fd :: int
  sync_barrier :: int
  free_list :: "fdid list"
  d_stack_size :: int
  last_thread_id :: u32
  nice_level :: int
  timer_sleepers :: int
  timer_tcfd :: fdid
  timer_list :: "twid list"
  available_cpus :: "bool list"
  worker_list :: "wid list"
  d_pthreads :: int         \<comment> \<open>elements of the array \<^verbatim>\<open>pthreads\<close>\<close>
  domain_chain :: did

datatype aio_state = Aio_pending | Aio_done | Aio_free
  \<comment> \<open>values 0, 1 and \<^verbatim>\<open>TC_AIO_FLAG_AD_FREE\<close> of the field \<^verbatim>\<open>TC_AIO_DONE_FIELD\<close>\<close>

text \<open>What \<^verbatim>\<open>io_prep_*\<close> of libaio stores in a \<^verbatim>\<open>struct iocb\<close>: the operation, the descriptor, the buffer, the size and the offset.\<close>

datatype iocb = Io_none | Io_pread int nat int int | Io_pwrite int nat int int | Io_fsync int | Io_fdsync int

record tc_aio_data =
  aio_cb :: iocb
  aio_res :: int
  aio_res2 :: int
  aio_done :: aio_state
  aio_notify :: "wqid option"

record tc_thread_ref =
  r_thr :: "tid option"
  r_domain :: did
  r_id :: u32

datatype var = Warned | Pt_done | Local nat
  \<comment> \<open>C variables of type \<^verbatim>\<open>int\<close> that outlive an operation of the model: a static one, one of the pthread that executes, and locals that the condition of a wait changes\<close>

section \<open>The process state\<close>

datatype epoll_op = EPOLL_CTL_ADD | EPOLL_CTL_MOD | EPOLL_CTL_DEL

text \<open>The system calls whose effect other parts of the system observe.\<close>

datatype syscall =
    Epoll_ctl int epoll_op int u32
  | Epoll_wait int bool
  | Eventfd_write int
  | Eventfd_read int
  | Timerfd_settime int bool timespec
  | Timerfd_read int
  | Clock_gettime
  | Fcntl_getfl int
  | Fcntl_setfl int int
  | Tgkill int
  | Setpriority int int
  | Sync_fd int bool
  | Io_submit adid iocb
  | Io_setup int
  | Gettimeofday
  | Epoll_create
  | Timerfd_create
  | Eventfd
  | Getpriority
  | Sched_getaffinity
  | Setaffinity nat
  | Gettid
  | Sig_handler int
  | Pthread_create did int
  | Pthread_join did int

datatype obj = O_fd fdid | O_thread tid | O_name tid | O_cr tid | O_sub eid
  \<comment> \<open>heap blocks handed back with \<^verbatim>\<open>free()\<close>\<close>

text \<open>
  \<open>sysres\<close> and \<open>sysclk\<close> are the kernel: the result of the \<open>n\<close>-th system call, and the time it stores
  when it is \<^verbatim>\<open>clock_gettime\<close>. \<open>this_worker\<close>, \<open>this_domain\<close> and \<open>cr_current\<close> are the thread-local
  variables \<^verbatim>\<open>worker\<close>, \<^verbatim>\<open>tc_this_pthread_domain\<close> and \<^verbatim>\<open>__cr_current\<close> of the pthread that executes;
  \<open>has_worker\<close>, \<open>has_domain\<close> and \<open>has_tc\<close> tell whether they are set, as they are from the start of a worker on.
\<close>

record tcr =
  evs :: "eid \<Rightarrow> event"
  evl :: "elist \<Rightarrow> eid list"
  immediate_count :: int
  thr :: "tid \<Rightarrow> tc_thread"
  fds :: "fdid \<Rightarrow> tc_fd"
  doms :: "did \<Rightarrow> tc_domain"
  wrk :: "wid \<Rightarrow> worker_struct"
  m_owner :: "mid \<Rightarrow> tid option"
  readers :: "rwid \<Rightarrow> int"
  sss :: "sid \<Rightarrow> eid list"
  timers :: "twid \<Rightarrow> timer_waiter"
  aios :: "adid \<Rightarrow> tc_aio_data"
  pools :: "nat \<Rightarrow> tid list"
  pool_domain :: "nat \<Rightarrow> did"
  vars :: "var \<Rightarrow> int"
  common_cpus :: "bool list"
  pthread_counter :: int
  tc_main :: tc_thread_ref
  has_worker :: bool
  has_tc :: bool
  has_domain :: bool
  cr_caller_of :: "tid \<Rightarrow> tid"
  locks :: "lock \<Rightarrow> wid option"
  freed :: "obj set"
  msgs :: "string list"
  syslog :: "syscall list"
  sysres :: "nat \<Rightarrow> int"
  sysclk :: "nat \<Rightarrow> timespec"
  this_worker :: wid
  this_domain :: did
  cr_current :: tid

text \<open>
  How an operation may fail to return: the process exits with a diagnostic, an assertion fails, a
  \<^verbatim>\<open>NULL\<close> pointer is dereferenced, the worker spins on a lock that another worker holds or on an event
  that is on no list, a block is given to \<^verbatim>\<open>free()\<close> twice or read after it was freed, an integer is divided by 0, or the coroutine was switched out and nothing
  switched back to it. \<open>Out_of_fuel\<close> is the model's own: a bounded loop was not given enough
  iterations.
\<close>

datatype fault = Msg_exit string | Assertion string | Null_deref string | Spins lock
  | Spins_off_list eid | Double_free obj | Use_after_free obj | Division_by_zero | Suspended | Out_of_fuel

type_synonym 'a tcop = "(tcr, fault, 'a) op"

section \<open>Reading and writing the structures\<close>

abbreviation cur_worker :: "tcr \<Rightarrow> worker_struct" where
  "cur_worker s \<equiv> wrk s (this_worker s)"

abbreviation cur_domain :: "tcr \<Rightarrow> tc_domain" where
  "cur_domain s \<equiv> doms s (this_domain s)"

definition tc_current :: "tcr \<Rightarrow> tid" where
  "tc_current s = cr_current s"

definition upd_ev :: "eid \<Rightarrow> (event \<Rightarrow> event) \<Rightarrow> tcr \<Rightarrow> tcr" where
  "upd_ev e f s = s\<lparr>evs := (evs s)(e := f (evs s e))\<rparr>"

definition upd_thr :: "tid \<Rightarrow> (tc_thread \<Rightarrow> tc_thread) \<Rightarrow> tcr \<Rightarrow> tcr" where
  "upd_thr t f s = s\<lparr>thr := (thr s)(t := f (thr s t))\<rparr>"

definition upd_fd :: "fdid \<Rightarrow> (tc_fd \<Rightarrow> tc_fd) \<Rightarrow> tcr \<Rightarrow> tcr" where
  "upd_fd t f s = s\<lparr>fds := (fds s)(t := f (fds s t))\<rparr>"

definition upd_dom :: "did \<Rightarrow> (tc_domain \<Rightarrow> tc_domain) \<Rightarrow> tcr \<Rightarrow> tcr" where
  "upd_dom d f s = s\<lparr>doms := (doms s)(d := f (doms s d))\<rparr>"

definition upd_wrk :: "wid \<Rightarrow> (worker_struct \<Rightarrow> worker_struct) \<Rightarrow> tcr \<Rightarrow> tcr" where
  "upd_wrk w f s = s\<lparr>wrk := (wrk s)(w := f (wrk s w))\<rparr>"

definition upd_cur_worker :: "(worker_struct \<Rightarrow> worker_struct) \<Rightarrow> tcr \<Rightarrow> tcr" where
  "upd_cur_worker f s = upd_wrk (this_worker s) f s"

definition upd_aio :: "adid \<Rightarrow> (tc_aio_data \<Rightarrow> tc_aio_data) \<Rightarrow> tcr \<Rightarrow> tcr" where
  "upd_aio a f s = s\<lparr>aios := (aios s)(a := f (aios s a))\<rparr>"

definition upd_tw :: "twid \<Rightarrow> (timer_waiter \<Rightarrow> timer_waiter) \<Rightarrow> tcr \<Rightarrow> tcr" where
  "upd_tw w f s = s\<lparr>timers := (timers s)(w := f (timers s w))\<rparr>"

named_theorems upd_defs \<open>structure updates\<close>

lemmas upd_basic_defs [upd_defs] =
  upd_ev_def upd_thr_def upd_fd_def upd_dom_def upd_wrk_def upd_cur_worker_def upd_aio_def upd_tw_def

section \<open>Queue macros of sys/queue.h on event lists\<close>

definition circleq_insert_tail :: "elist \<Rightarrow> eid \<Rightarrow> tcr \<Rightarrow> tcr" where
  "circleq_insert_tail l e s = s\<lparr>evl := (evl s)(l := evl s l @ [e])\<rparr>"

definition circleq_insert_head :: "elist \<Rightarrow> eid \<Rightarrow> tcr \<Rightarrow> tcr" where
  "circleq_insert_head l e s = s\<lparr>evl := (evl s)(l := e # evl s l)\<rparr>"

definition circleq_remove :: "elist \<Rightarrow> eid \<Rightarrow> tcr \<Rightarrow> tcr" where
  "circleq_remove l e s = s\<lparr>evl := (evl s)(l := remove1 e (evl s l))\<rparr>"

lemmas circleq_defs [upd_defs] =
  circleq_insert_tail_def circleq_insert_head_def circleq_remove_def

section \<open>Spin locks, assertions, diagnostics and system calls\<close>

text \<open>
  \<open>locks l\<close> is the worker whose marker is in the lock word. Taking a lock that the own worker holds
  is what \<^verbatim>\<open>__spin_lock\<close> detects as a deadlock.
\<close>

definition spin_lock :: "lock \<Rightarrow> unit tcop" where
  "spin_lock l = (\<lambda>s. case locks s l of
      None \<Rightarrow> Inr ((), s\<lparr>locks := (locks s)(l := Some (this_worker s))\<rparr>)
    | Some w \<Rightarrow> if w = this_worker s then Inl (Msg_exit ''Spinlock deadlock detected'')
                else Inl (Spins l))"

definition spin_unlock :: "lock \<Rightarrow> unit tcop" where
  "spin_unlock l = mdf (\<lambda>s. s\<lparr>locks := (locks s)(l := None)\<rparr>)"

definition must_hold :: "lock \<Rightarrow> unit tcop" where
  "must_hold l = (\<lambda>s. if locks s l = Some (this_worker s) then Inr ((), s)
                       else Inl (Assertion ''l->lock.m == this_spinlock_owner.m''))"

definition assertm :: "string \<Rightarrow> (tcr \<Rightarrow> bool) \<Rightarrow> unit tcop" where
  "assertm t c = (\<lambda>s. if c s then Inr ((), s) else Inl (Assertion t))"

definition msg_exit :: "string \<Rightarrow> 'a tcop" where
  "msg_exit t = throw (Msg_exit t)"

definition msg :: "string \<Rightarrow> unit tcop" where
  "msg t = mdf (\<lambda>s. s\<lparr>msgs := msgs s @ [t]\<rparr>)"

definition sys_call :: "syscall \<Rightarrow> int tcop" where
  "sys_call c = (\<lambda>s. Inr (sysres s (length (syslog s)), s\<lparr>syslog := syslog s @ [c]\<rparr>))"

definition clock_gettime :: "timespec tcop" where
  "clock_gettime = (\<lambda>s. Inr (sysclk s (length (syslog s)), s\<lparr>syslog := syslog s @ [Clock_gettime]\<rparr>))"

definition sys_ignore :: "syscall \<Rightarrow> unit tcop" where
  "sys_ignore c = bnd (sys_call c) (\<lambda>_. ret ())"

definition free_obj :: "obj \<Rightarrow> unit tcop" where
  "free_obj p = (\<lambda>s. if p \<in> freed s then Inl (Double_free p) else Inr ((), s\<lparr>freed := insert p (freed s)\<rparr>))"

lemmas prim_defs [op_defs] = free_obj_def
  spin_lock_def spin_unlock_def must_hold_def assertm_def msg_exit_def msg_def sys_call_def
  clock_gettime_def sys_ignore_def

definition free_lock :: "tcr \<Rightarrow> lock \<Rightarrow> bool" where
  "free_lock s l \<longleftrightarrow> locks s l = None"

definition holds :: "tcr \<Rightarrow> lock \<Rightarrow> bool" where
  "holds s l \<longleftrightarrow> locks s l = Some (this_worker s)"

text \<open>No worker is inside a critical section that a list lock protects.\<close>

definition lists_unlocked :: "tcr \<Rightarrow> bool" where
  "lists_unlocked s \<longleftrightarrow> (\<forall>l. locks s (L_list l) = None)"

section \<open>Accessors of the public header\<close>

definition tc_thread_name :: "tid \<Rightarrow> tcr \<Rightarrow> string" where
  "tc_thread_name t s = tc_name (thr s t)"

definition tc_thread_var_get :: "tcr \<Rightarrow> nat" where
  "tc_thread_var_get s = per_thread_data (thr s (tc_current s))"

definition tc_thread_var_set :: "nat \<Rightarrow> nat tcop" where
  "tc_thread_var_set d =
     thn (rdm (\<lambda>s. mdf (upd_thr (tc_current s) (per_thread_data_update (\<lambda>_. d))))) (ret d)"

definition tc_thread_worker_nr :: "tid option \<Rightarrow> tcr \<Rightarrow> int" where
  "tc_thread_worker_nr t s =
     worker_nr (thr s (case t of None \<Rightarrow> tc_current s | Some t \<Rightarrow> t))"

definition tc_thread_count :: "tcr \<Rightarrow> int" where
  "tc_thread_count s = nr_of_workers (cur_domain s)"

definition tc_event_init :: "eid \<Rightarrow> tcr \<Rightarrow> tcr" where
  "tc_event_init e s = upd_ev e
     (\<lambda>v. v\<lparr>ev_el := None, ev_acked := False, next_in_stack := None, ev_domain := this_domain s\<rparr>) s"

section \<open>The zero-initialised process image\<close>

definition zero_event :: event where
  "zero_event = \<lparr>ev_tc = 0, ev_u = Ep_events 0, ev_flags = EF_READY, ev_acked = False,
     next_in_stack = None, ev_el = None, ev_domain = 0\<rparr>"

definition zero_thread :: tc_thread where
  "zero_thread = \<lparr>tc_name = [], per_thread_data = 0, tc_cr = False, refcnt = 0, tc_flags = {},
     event_stack = None, tc_e = 0, worker_nr = 0, tc_id = 0, signals_since_last_query = 0,
     tc_dom = 0, last_worker = 0\<rparr>"

definition zero_fd :: tc_fd where
  "zero_fd = \<lparr>fd_fd = 0, err_hup = False, fd_ep_events = 0, was_allocated = False\<rparr>"

definition zero_worker :: worker_struct where
  "zero_worker = \<lparr>w_nr = 0, main_thread = 0, sched_p2 = 0, woken_by_event = None,
     woken_by_tcfd = Tcfd None, is_on_sleeping_list = False, must_sync = False, w_is_init = False,
     w_tid = 0\<rparr>"

definition zero_domain :: tc_domain where
  "zero_domain = \<lparr>aio_eventfd = 0, aio_ctx = None, d_threads = [], d_threads_domain = 0, nr_of_workers = 0, sleeping_workers = [], d_efd = 0,
     immediate_fd = 0, sync_barrier = 0, free_list = [], d_stack_size = 0, last_thread_id = 0,
     nice_level = 0, timer_sleepers = 0, timer_tcfd = 0, timer_list = [], available_cpus = [],
     worker_list = [], d_pthreads = 0, domain_chain = 0\<rparr>"

definition process_image :: tcr where
  "process_image = \<lparr>evs = (\<lambda>_. zero_event), evl = (\<lambda>_. []), immediate_count = 0, thr = (\<lambda>_. zero_thread),
     fds = (\<lambda>_. zero_fd), doms = (\<lambda>_. zero_domain), wrk = (\<lambda>_. zero_worker), m_owner = (\<lambda>_. None),
     readers = (\<lambda>_. 0), sss = (\<lambda>_. []),
     timers = (\<lambda>_. \<lparr>abs_end = \<lparr>tv_sec = 0, tv_nsec = 0\<rparr>, tw_tc = 0, on_timerlist = False\<rparr>),
     aios = (\<lambda>_. \<lparr>aio_cb = Io_none, aio_res = 0, aio_res2 = 0, aio_done = Aio_pending, aio_notify = None\<rparr>),
     pools = (\<lambda>_. []), pool_domain = (\<lambda>_. 0), vars = (\<lambda>_. 0), common_cpus = [], pthread_counter = 0,
     tc_main = \<lparr>r_thr = None, r_domain = 0, r_id = 0\<rparr>, has_worker = False, has_tc = False, has_domain = False,
     cr_caller_of = (\<lambda>_. 0), locks = (\<lambda>_. None), freed = {}, msgs = [], syslog = [],
     sysres = (\<lambda>_. 0), sysclk = (\<lambda>_. \<lparr>tv_sec = 0, tv_nsec = 0\<rparr>), this_worker = 0, this_domain = 0,
     cr_current = 0\<rparr>"

lemma image_simps [simp]:
  "evs process_image = (\<lambda>_. zero_event)" "evl process_image = (\<lambda>_. [])"
  "immediate_count process_image = 0" "thr process_image = (\<lambda>_. zero_thread)"
  "fds process_image = (\<lambda>_. zero_fd)" "doms process_image = (\<lambda>_. zero_domain)"
  "wrk process_image = (\<lambda>_. zero_worker)" "m_owner process_image = (\<lambda>_. None)"
  "readers process_image = (\<lambda>_. 0)" "sss process_image = (\<lambda>_. [])"
  "locks process_image = (\<lambda>_. None)" "freed process_image = {}" "msgs process_image = []"
  "syslog process_image = []" "sysres process_image = (\<lambda>_. 0)" "this_worker process_image = 0"
  "this_domain process_image = 0" "cr_current process_image = 0"
  "cr_caller_of process_image = (\<lambda>_. 0)" "pools process_image = (\<lambda>_. [])"
  "has_worker process_image = False" "has_tc process_image = False" "has_domain process_image = False"
  "common_cpus process_image = []" "pthread_counter process_image = 0" "vars process_image = (\<lambda>_. 0)"
  "aios process_image = (\<lambda>_. \<lparr>aio_cb = Io_none, aio_res = 0, aio_res2 = 0, aio_done = Aio_pending, aio_notify = None\<rparr>)"
  by (simp_all add: process_image_def)

lemma zero_event_simps [simp]:
  "ev_tc zero_event = 0" "ev_u zero_event = Ep_events 0" "ev_flags zero_event = EF_READY"
  "ev_acked zero_event = False" "next_in_stack zero_event = None" "ev_el zero_event = None"
  "ev_domain zero_event = 0"
  by (simp_all add: zero_event_def)

lemma zero_thread_simps [simp]:
  "per_thread_data zero_thread = 0" "tc_cr zero_thread = False" "refcnt zero_thread = 0"
  "tc_flags zero_thread = {}" "event_stack zero_thread = None" "tc_e zero_thread = 0"
  "worker_nr zero_thread = 0" "tc_id zero_thread = 0" "signals_since_last_query zero_thread = 0"
  "tc_dom zero_thread = 0" "last_worker zero_thread = 0"
  by (simp_all add: zero_thread_def)

lemma zero_fd_simps [simp]:
  "fd_fd zero_fd = 0" "err_hup zero_fd = False" "fd_ep_events zero_fd = 0" "was_allocated zero_fd = False"
  by (simp_all add: zero_fd_def)

lemma zero_worker_simps [simp]:
  "w_nr zero_worker = 0" "main_thread zero_worker = 0" "sched_p2 zero_worker = 0"
  "woken_by_event zero_worker = None" "is_on_sleeping_list zero_worker = False"
  "must_sync zero_worker = False" "w_tid zero_worker = 0"
  by (simp_all add: zero_worker_def)

lemma zero_domain_simps [simp]:
  "aio_eventfd zero_domain = 0" "d_threads zero_domain = []" "nr_of_workers zero_domain = 0"
  "sleeping_workers zero_domain = []" "d_efd zero_domain = 0" "immediate_fd zero_domain = 0"
  "sync_barrier zero_domain = 0" "free_list zero_domain = []" "d_stack_size zero_domain = 0"
  "last_thread_id zero_domain = 0" "nice_level zero_domain = 0" "timer_sleepers zero_domain = 0"
  "timer_tcfd zero_domain = 0" "timer_list zero_domain = []" "available_cpus zero_domain = []"
  "worker_list zero_domain = []" "domain_chain zero_domain = 0"
  by (simp_all add: zero_domain_def)

end
