(* ===== verification/Events.thy ===== *)
theory Events
  imports Tcr_State
begin

text \<open>
  Event lists (\<^verbatim>\<open>struct event_list\<close>) and the functions of \<^verbatim>\<open>threaded_cr.c\<close> that put events on them, take
  them off and move them. An event is on at most one list; its \<^verbatim>\<open>el\<close> field says which, and each queued
  event holds one reference on its thread. \<open>wf_ev\<close> is that invariant.
\<close>

section \<open>Operations\<close>

definition with_el :: "eid \<Rightarrow> (elist \<Rightarrow> 'a tcop) \<Rightarrow> 'a tcop" where
  "with_el e k = (\<lambda>s. case ev_el (evs s e) of
      None \<Rightarrow> Inl (Null_deref ''e->el'') | Some l \<Rightarrow> k l s)"

definition event_list_init :: "elist \<Rightarrow> tcr \<Rightarrow> tcr" where
  "event_list_init l s = s\<lparr>evl := (evl s)(l := []), locks := (locks s)(L_list l := None)\<rparr>"

definition atomic_inc_immediate :: "unit tcop" where
  "atomic_inc_immediate = mdf (\<lambda>s. s\<lparr>immediate_count := immediate_count s + 1\<rparr>)"

definition set_el :: "eid \<Rightarrow> elist option \<Rightarrow> unit tcop" where
  "set_el e l = mdf (upd_ev e (ev_el_update (\<lambda>_. l)))"

definition move_to_immediate :: "eid \<Rightarrow> unit tcop" where
  "move_to_immediate e = with_el e (\<lambda>l. block [
     must_hold (L_list l),
     spin_lock (L_list Immediate),
     mdf (circleq_remove l e),
     set_el e (Some Immediate),
     mdf (circleq_insert_tail Immediate e),
     atomic_inc_immediate,
     spin_unlock (L_list Immediate)])"

definition uu_remove_event :: "eid \<Rightarrow> unit tcop" where
  "uu_remove_event e = with_el e (\<lambda>l. block [
     must_hold (L_list l),
     mdf (circleq_remove l e),
     whn (\<lambda>_. l = Immediate) (block [
       mdf (immediate_count_update (\<lambda>n. n - 1)),
       whn (\<lambda>s. immediate_count s < 0) (block [
         msg ''IMM < 0'',
         mdf (immediate_count_update (\<lambda>_. 0))])])])"

definition u_remove_event :: "eid \<Rightarrow> elist \<Rightarrow> unit tcop" where
  "u_remove_event e el = block [
     must_hold (L_list el),
     assertm ''el == e->el'' (\<lambda>s. ev_el (evs s e) = Some el),
     uu_remove_event e,
     rdm (\<lambda>s. mdf (upd_thr (ev_tc (evs s e)) (refcnt_update (\<lambda>n. n - 1)))),
     set_el e None]"

text \<open>
  \<^verbatim>\<open>remove_event\<close> re-reads \<^verbatim>\<open>e->el\<close> after it got the lock because another worker may have moved the event;
  within one worker's critical section the second read gives the same list. It spins while the event is
  on no list.
\<close>

definition remove_event :: "eid \<Rightarrow> elist tcop" where
  "remove_event e = (\<lambda>s. case ev_el (evs s e) of
      None \<Rightarrow> Inl (Spins_off_list e)
    | Some el \<Rightarrow> thn (block [spin_lock (L_list el), u_remove_event e el, spin_unlock (L_list el)])
                     (ret el) s)"

definition u_add_event :: "eid \<Rightarrow> elist \<Rightarrow> tid \<Rightarrow> unit tcop" where
  "u_add_event e el tc = block [
     must_hold (L_list el),
     mdf (upd_thr tc (refcnt_update (\<lambda>n. n + 1))),
     mdf (upd_ev e (ev_tc_update (\<lambda>_. tc))),
     whn (\<lambda>s. ev_el (evs s e) \<noteq> None) (msg_exit ''Event is still on a list''),
     set_el e (Some el),
     mdf (circleq_insert_tail el e)]"

definition move_event :: "eid \<Rightarrow> elist \<Rightarrow> unit tcop" where
  "move_event e target = with_el e (\<lambda>l. block [
     must_hold (L_list l),
     must_hold (L_list target),
     assertm ''e->el != target'' (\<lambda>s. ev_el (evs s e) \<noteq> Some target),
     uu_remove_event e,
     set_el e (Some target),
     mdf (circleq_insert_tail target e)])"

text \<open>The assertion compares the stack pointer with the poison that \<^verbatim>\<open>tc_thread_free\<close> leaves in the structure.\<close>

definition uu_tc_event_on_tc_stack :: "eid \<Rightarrow> tid \<Rightarrow> unit tcop" where
  "uu_tc_event_on_tc_stack e tc = block [
     assertm ''tc->event_stack != 0xafafafaf'' (\<lambda>s. O_thread tc \<notin> freed s),
     rdm (\<lambda>s. mdf (upd_ev e (next_in_stack_update (\<lambda>_. event_stack (thr s tc))))),
     mdf (upd_thr tc (event_stack_update (\<lambda>_. Some e)))]"

definition u_tc_event_on_tc_stack :: "eid \<Rightarrow> tid \<Rightarrow> unit tcop" where
  "u_tc_event_on_tc_stack e tc = block [
     spin_lock (L_list (Pending tc)),
     uu_tc_event_on_tc_stack e tc,
     spin_unlock (L_list (Pending tc))]"

definition add_event_cr :: "eid \<Rightarrow> u32 \<Rightarrow> tc_event_flag \<Rightarrow> tid \<Rightarrow> unit tcop" where
  "add_event_cr e ep_events flags tc = block [
     mdf (upd_ev e (\<lambda>v. v\<lparr>ev_u := Ep_events ep_events, ev_flags := flags\<rparr>)),
     spin_lock (L_list Immediate),
     u_add_event e Immediate tc,
     atomic_inc_immediate,
     spin_unlock (L_list Immediate)]"

definition remove_event_fd :: "eid \<Rightarrow> fdid \<Rightarrow> unit tcop" where
  "remove_event_fd e tcfd = thn (remove_event e) (ret ())"

definition remove_event_holding_locks :: "eid \<Rightarrow> elist list \<Rightarrow> unit tcop" where
  "remove_event_holding_locks e els = (\<lambda>s. case ev_el (evs s e) of
      None \<Rightarrow> Inr ((), s)
    | Some el \<Rightarrow> if el \<in> set els then u_remove_event e el s
                 else thn (remove_event e) (ret ()) s)"

section \<open>The invariant\<close>

definition refs :: "tcr \<Rightarrow> tid \<Rightarrow> eid set" where
  "refs s t = {e. ev_el (evs s e) \<noteq> None \<and> ev_tc (evs s e) = t}"

definition wf_ev :: "tcr \<Rightarrow> bool" where
  "wf_ev s \<longleftrightarrow>
     (\<forall>l. distinct (evl s l)) \<and>
     (\<forall>l e. e \<in> set (evl s l) \<longleftrightarrow> ev_el (evs s e) = Some l) \<and>
     immediate_count s = int (length (evl s Immediate)) \<and>
     finite {e. ev_el (evs s e) \<noteq> None} \<and>
     (\<forall>t. refcnt (thr s t) = int (card (refs s t)))"

section \<open>What the operations do\<close>

text \<open>The three net effects: an event leaves its list, joins a list, or changes lists.\<close>

definition imm_delta :: "elist \<Rightarrow> int" where
  "imm_delta l = (if l = Immediate then 1 else 0)"

definition unlink :: "eid \<Rightarrow> elist \<Rightarrow> tcr \<Rightarrow> tcr" where
  "unlink e l s = s\<lparr>
     evl := (evl s)(l := remove1 e (evl s l)),
     immediate_count := immediate_count s - imm_delta l,
     thr := (thr s)(ev_tc (evs s e) := refcnt_update (\<lambda>n. n - 1) (thr s (ev_tc (evs s e)))),
     evs := (evs s)(e := (evs s e)\<lparr>ev_el := None\<rparr>)\<rparr>"

definition link :: "eid \<Rightarrow> elist \<Rightarrow> tid \<Rightarrow> tcr \<Rightarrow> tcr" where
  "link e l t s = s\<lparr>
     thr := (thr s)(t := refcnt_update (\<lambda>n. n + 1) (thr s t)),
     evs := (evs s)(e := (evs s e)\<lparr>ev_tc := t, ev_el := Some l\<rparr>),
     evl := (evl s)(l := evl s l @ [e])\<rparr>"

definition relink_to :: "eid \<Rightarrow> elist \<Rightarrow> elist \<Rightarrow> eid list \<Rightarrow> tcr \<Rightarrow> tcr" where
  "relink_to e l l' xs s = s\<lparr>
     evl := (evl s)(l := remove1 e (evl s l), l' := xs),
     immediate_count := immediate_count s + imm_delta l' - imm_delta l,
     evs := (evs s)(e := (evs s e)\<lparr>ev_el := Some l'\<rparr>)\<rparr>"

definition relink :: "eid \<Rightarrow> elist \<Rightarrow> elist \<Rightarrow> tcr \<Rightarrow> tcr" where
  "relink e l l' s = relink_to e l l' (evl s l' @ [e]) s"

definition relink_hd :: "eid \<Rightarrow> elist \<Rightarrow> elist \<Rightarrow> tcr \<Rightarrow> tcr" where
  "relink_hd e l l' s = relink_to e l l' (e # evl s l') s"

lemma wf_evD:
  assumes "wf_ev s"
  shows "distinct (evl s l)" and "e \<in> set (evl s l) \<longleftrightarrow> ev_el (evs s e) = Some l"
    and "immediate_count s = int (length (evl s Immediate))"
    and "finite {e. ev_el (evs s e) \<noteq> None}"
    and "refcnt (thr s t) = int (card (refs s t))"
  using assms by (auto simp: wf_ev_def)

lemma finite_refs: "wf_ev s \<Longrightarrow> finite (refs s t)"
  by (rule finite_subset [OF _ wf_evD(4)]) (auto simp: refs_def)

lemma wf_ev_immediate_pos:
  "wf_ev s \<Longrightarrow> ev_el (evs s e) = Some Immediate \<Longrightarrow> 0 < immediate_count s"
  using wf_evD(2) [of s e Immediate] wf_evD(3) [of s] length_pos_if_in_set by fastforce

lemma wf_ev_refcnt_pos:
  assumes "wf_ev s" and "ev_el (evs s e) \<noteq> None"
  shows "0 < refcnt (thr s (ev_tc (evs s e)))"
proof -
  have "e \<in> refs s (ev_tc (evs s e))" using assms(2) by (simp add: refs_def)
  then have "card (refs s (ev_tc (evs s e))) > 0"
    using finite_refs [OF assms(1)] card_gt_0_iff by blast
  then show ?thesis by (simp add: wf_evD(5) [OF assms(1)])
qed

lemma refs_unlink: "refs (unlink e l s) t = refs s t - {e}"
  by (auto simp: refs_def unlink_def)

lemma refs_link:
  "ev_el (evs s e) = None \<Longrightarrow> refs (link e l t s) u = (if u = t then insert e (refs s u) else refs s u)"
  by (auto simp: refs_def link_def)

lemma refs_relink_to: "ev_el (evs s e) = Some l \<Longrightarrow> refs (relink_to e l l' xs s) t = refs s t"
  by (auto simp: refs_def relink_to_def)

text \<open>The invariant survives each of the three effects.\<close>

lemma wf_ev_unlink:
  assumes wf: "wf_ev s" and el: "ev_el (evs s e) = Some l"
  shows "wf_ev (unlink e l s)"
  unfolding wf_ev_def
proof (intro conjI allI)
  fix k
  show "distinct (evl (unlink e l s) k)"
    using wf_evD(1) [OF wf] by (simp add: unlink_def)
next
  fix k x
  show "x \<in> set (evl (unlink e l s) k) \<longleftrightarrow> ev_el (evs (unlink e l s) x) = Some k"
    using wf_evD(1,2) [OF wf] el by (auto simp: unlink_def)
next
  have "int (length (remove1 e (evl s Immediate))) = int (length (evl s Immediate)) - imm_delta l"
    using wf_evD(2) [OF wf] el
    by (cases "l = Immediate") (simp_all add: imm_delta_def length_remove1_in remove1_idem)
  then show "immediate_count (unlink e l s) = int (length (evl (unlink e l s) Immediate))"
    using wf_evD(3) [OF wf] by (auto simp: unlink_def imm_delta_def)
next
  show "finite {x. ev_el (evs (unlink e l s) x) \<noteq> None}"
    by (rule finite_subset [OF _ wf_evD(4) [OF wf]]) (auto simp: unlink_def)
next
  fix t
  have "e \<in> refs s t \<longleftrightarrow> ev_tc (evs s e) = t" using el by (simp add: refs_def)
  moreover have "0 < refcnt (thr s (ev_tc (evs s e)))"
    using wf_ev_refcnt_pos [OF wf] el by simp
  ultimately show "refcnt (thr (unlink e l s) t) = int (card (refs (unlink e l s) t))"
    using wf_evD(5) [OF wf] finite_refs [OF wf]
    by (simp add: refs_unlink card_Diff_singleton_if) (auto simp: unlink_def)
qed

lemma wf_ev_link:
  assumes wf: "wf_ev s" and el: "ev_el (evs s e) = None" and l: "l \<noteq> Immediate"
  shows "wf_ev (link e l t s)"
  unfolding wf_ev_def
proof (intro conjI allI)
  have e: "e \<notin> set (evl s k)" for k using wf_evD(2) [OF wf] el by simp
  fix k
  show "distinct (evl (link e l t s) k)"
    using wf_evD(1) [OF wf] e by (simp add: link_def)
  fix x
  show "x \<in> set (evl (link e l t s) k) \<longleftrightarrow> ev_el (evs (link e l t s) x) = Some k"
    using wf_evD(2) [OF wf] el by (auto simp: link_def)
next
  show "immediate_count (link e l t s) = int (length (evl (link e l t s) Immediate))"
    using wf_evD(3) [OF wf] l by (simp add: link_def)
next
  have "finite (insert e {x. ev_el (evs s x) \<noteq> None})" using wf_evD(4) [OF wf] by blast
  then show "finite {x. ev_el (evs (link e l t s) x) \<noteq> None}"
    by (rule finite_subset [rotated]) (auto simp: link_def)
next
  fix u
  have "e \<notin> refs s u" using el by (simp add: refs_def)
  then show "refcnt (thr (link e l t s) u) = int (card (refs (link e l t s) u))"
    using wf_evD(5) [OF wf] finite_refs [OF wf] el
    by (simp add: refs_link) (auto simp: link_def)
qed

lemma wf_ev_link_immediate:
  assumes wf: "wf_ev s" and el: "ev_el (evs s e) = None"
  shows "wf_ev ((link e Immediate t s)\<lparr>immediate_count := immediate_count s + 1\<rparr>)"
proof -
  let ?s = "(link e Immediate t s)\<lparr>immediate_count := immediate_count s + 1\<rparr>"
  have e: "e \<notin> set (evl s k)" for k using wf_evD(2) [OF wf] el by simp
  have "refs ?s u = refs (link e Immediate t s) u" for u by (simp add: refs_def)
  moreover have "e \<notin> refs s u" for u using el by (simp add: refs_def)
  ultimately have "refcnt (thr ?s u) = int (card (refs ?s u))" for u
    using wf_evD(5) [OF wf] finite_refs [OF wf] el
    by (simp add: refs_link) (auto simp: link_def)
  moreover have "finite {x. ev_el (evs ?s x) \<noteq> None}"
    by (rule finite_subset [of _ "insert e {x. ev_el (evs s x) \<noteq> None}"])
       (use wf_evD(4) [OF wf] in \<open>auto simp: link_def\<close>)
  moreover have "distinct (evl ?s k)" for k using wf_evD(1) [OF wf] e by (simp add: link_def)
  moreover have "x \<in> set (evl ?s k) \<longleftrightarrow> ev_el (evs ?s x) = Some k" for x k
    using wf_evD(2) [OF wf] el by (auto simp: link_def)
  moreover have "immediate_count ?s = int (length (evl ?s Immediate))"
    using wf_evD(3) [OF wf] by (simp add: link_def)
  ultimately show ?thesis unfolding wf_ev_def by blast
qed

lemma wf_ev_relink_to:
  assumes wf: "wf_ev s" and el: "ev_el (evs s e) = Some l" and l: "l \<noteq> l'"
    and xs: "distinct xs" "set xs = insert e (set (evl s l'))" "length xs = Suc (length (evl s l'))"
  shows "wf_ev (relink_to e l l' xs s)"
  unfolding wf_ev_def
proof (intro conjI allI)
  fix k
  show "distinct (evl (relink_to e l l' xs s) k)"
    using wf_evD(1) [OF wf] xs by (simp add: relink_to_def)
  fix x
  show "x \<in> set (evl (relink_to e l l' xs s) k) \<longleftrightarrow> ev_el (evs (relink_to e l l' xs s) x) = Some k"
    using wf_evD(1,2) [OF wf] el l xs by (auto simp: relink_to_def)
next
  have "int (length (remove1 e (evl s Immediate))) = int (length (evl s Immediate)) - imm_delta l"
    using wf_evD(2) [OF wf] el
    by (cases "l = Immediate") (simp_all add: imm_delta_def length_remove1_in remove1_idem)
  then show "immediate_count (relink_to e l l' xs s) = int (length (evl (relink_to e l l' xs s) Immediate))"
    using wf_evD(3) [OF wf] l xs(3) by (auto simp: relink_to_def imm_delta_def)
next
  show "finite {x. ev_el (evs (relink_to e l l' xs s) x) \<noteq> None}"
    by (rule finite_subset [OF _ wf_evD(4) [OF wf]]) (use el in \<open>auto simp: relink_to_def\<close>)
next
  fix t
  show "refcnt (thr (relink_to e l l' xs s) t) = int (card (refs (relink_to e l l' xs s) t))"
    using wf_evD(5) [OF wf] el by (simp add: refs_relink_to) (simp add: relink_to_def)
qed

lemma wf_ev_notin: "wf_ev s \<Longrightarrow> ev_el (evs s e) = Some l \<Longrightarrow> l \<noteq> l' \<Longrightarrow> e \<notin> set (evl s l')"
  using wf_evD(2) by auto

lemma wf_ev_relink:
  "wf_ev s \<Longrightarrow> ev_el (evs s e) = Some l \<Longrightarrow> l \<noteq> l' \<Longrightarrow> wf_ev (relink e l l' s)"
  unfolding relink_def by (rule wf_ev_relink_to) (auto simp: wf_evD(1) dest: wf_ev_notin)

lemma wf_ev_relink_hd:
  "wf_ev s \<Longrightarrow> ev_el (evs s e) = Some l \<Longrightarrow> l \<noteq> l' \<Longrightarrow> wf_ev (relink_hd e l l' s)"
  unfolding relink_hd_def by (rule wf_ev_relink_to) (auto simp: wf_evD(1) dest: wf_ev_notin)

text \<open>Each operation, where its locks are held, performs exactly one of the effects and returns.\<close>

lemma unlink_lock_frame [simp]:
  "locks (unlink e l s) = locks s" "this_worker (unlink e l s) = this_worker s"
  by (simp_all add: unlink_def)

lemma relink_to_lock_frame [simp]:
  "locks (relink_to e l l' xs s) = locks s" "this_worker (relink_to e l l' xs s) = this_worker s"
  by (simp_all add: relink_to_def)

lemma link_lock_frame [simp]:
  "locks (link e l t s) = locks s" "this_worker (link e l t s) = this_worker s" "freed (link e l t s) = freed s"
  "wrk (link e l t s) = wrk s" "doms (link e l t s) = doms s" "syslog (link e l t s) = syslog s"
  "m_owner (link e l t s) = m_owner s" "cr_current (link e l t s) = cr_current s"
  "event_stack (thr (link e l t s) u) = event_stack (thr s u)"
  "next_in_stack (evs (link e l t s) x) = next_in_stack (evs s x)"
  by (simp_all add: link_def)

lemma uu_remove_event_eq:
  assumes "wf_ev s" and "ev_el (evs s e) = Some l" and "holds s (L_list l)"
  shows "uu_remove_event e s = Inr ((), s\<lparr>evl := (evl s)(l := remove1 e (evl s l)),
     immediate_count := immediate_count s - imm_delta l\<rparr>)"
  using assms wf_ev_immediate_pos [OF assms(1), of e]
  by (auto simp: uu_remove_event_def with_el_def op_defs upd_defs holds_def imm_delta_def)

lemma u_remove_event_eq:
  assumes "wf_ev s" and "ev_el (evs s e) = Some l" and "holds s (L_list l)"
  shows "u_remove_event e l s = Inr ((), unlink e l s)"
  using assms
  by (simp add: u_remove_event_def uu_remove_event_eq op_defs upd_defs set_el_def)
     (simp add: holds_def unlink_def)

lemma remove_event_eq:
  assumes "wf_ev s" and "ev_el (evs s e) = Some l" and "free_lock s (L_list l)"
  shows "remove_event e s = Inr (l, unlink e l s)"
proof -
  let ?t = "s\<lparr>locks := (locks s)(L_list l := Some (this_worker s))\<rparr>"
  have "wf_ev ?t" using assms(1) by (simp add: wf_ev_def refs_def)
  then have "u_remove_event e l ?t = Inr ((), unlink e l ?t)"
    by (rule u_remove_event_eq) (use assms in \<open>auto simp: holds_def\<close>)
  moreover have "(unlink e l ?t)\<lparr>locks := (locks s)(L_list l := None)\<rparr> = unlink e l s"
    using assms(3) by (simp add: unlink_def free_lock_def fun_upd_idem)
  ultimately show ?thesis
    using assms(2,3) by (simp add: remove_event_def op_defs free_lock_def)
qed

lemma u_add_event_eq:
  assumes "ev_el (evs s e) = None" and "holds s (L_list l)"
  shows "u_add_event e l t s = Inr ((), link e l t s)"
  using assms by (simp add: u_add_event_def op_defs upd_defs set_el_def holds_def link_def)

lemma move_event_eq:
  assumes "wf_ev s" and "ev_el (evs s e) = Some l" and "holds s (L_list l)"
    and "holds s (L_list l')" and "l \<noteq> l'" and "l' \<noteq> Immediate"
  shows "move_event e l' s = Inr ((), relink e l l' s)"
  using assms
  by (simp add: move_event_def with_el_def uu_remove_event_eq op_defs upd_defs set_el_def)
     (simp add: holds_def relink_def relink_to_def imm_delta_def)

lemma move_to_immediate_eq:
  assumes "ev_el (evs s e) = Some l" and "holds s (L_list l)" and "free_lock s (L_list Immediate)"
  shows "move_to_immediate e s = Inr ((), relink e l Immediate s)"
proof -
  have "l \<noteq> Immediate" using assms(2,3) by (auto simp: holds_def free_lock_def)
  with assms show ?thesis
    by (simp add: move_to_immediate_def with_el_def op_defs upd_defs set_el_def atomic_inc_immediate_def
        holds_def free_lock_def relink_def relink_to_def imm_delta_def fun_upd_idem fun_upd_twist)
qed

lemma relink_frame [simp]:
  "locks (relink e l l' s) = locks s" "this_worker (relink e l l' s) = this_worker s"
  "wrk (relink e l l' s) = wrk s" "thr (relink e l l' s) = thr s"
  "ev_tc (evs (relink e l l' s) x) = ev_tc (evs s x)"
  "ev_flags (evs (relink e l l' s) x) = ev_flags (evs s x)"
  "ev_u (evs (relink e l l' s) x) = ev_u (evs s x)"
  by (simp_all add: relink_def relink_to_def)

lemma ev_el_relink: "ev_el (evs (relink e l l' s) x) = (if x = e then Some l' else ev_el (evs s x))"
  by (simp add: relink_def relink_to_def)

lemma evl_relink:
  "l \<noteq> l' \<Longrightarrow> evl (relink e l l' s) k =
     (if k = l' then evl s l' @ [e] else if k = l then remove1 e (evl s l) else evl s k)"
  by (simp add: relink_def relink_to_def)

lemma wf_ev_cong:
  "evs s' = evs s \<Longrightarrow> evl s' = evl s \<Longrightarrow> immediate_count s' = immediate_count s \<Longrightarrow>
    (\<And>t. refcnt (thr s' t) = refcnt (thr s t)) \<Longrightarrow> wf_ev s' = wf_ev s"
  by (simp add: wf_ev_def refs_def)

lemma wf_ev_cong_events:
  assumes "\<And>e. ev_el (evs s' e) = ev_el (evs s e)"
    and "\<And>e. ev_el (evs s e) \<noteq> None \<Longrightarrow> ev_tc (evs s' e) = ev_tc (evs s e)"
    and "evl s' = evl s" and "immediate_count s' = immediate_count s"
    and "\<And>t. refcnt (thr s' t) = refcnt (thr s t)"
  shows "wf_ev s' = wf_ev s"
proof -
  have "refs s' = refs s" using assms(1,2) by (fastforce simp: refs_def)
  then show ?thesis using assms by (simp add: wf_ev_def)
qed

text \<open>Fields that the invariant does not mention may change.\<close>

lemma wf_ev_frame [simp]:
  "wf_ev (s\<lparr>locks := a\<rparr>) = wf_ev s" "wf_ev (s\<lparr>wrk := b\<rparr>) = wf_ev s" "wf_ev (s\<lparr>syslog := c\<rparr>) = wf_ev s"
  "wf_ev (s\<lparr>m_owner := d\<rparr>) = wf_ev s" "wf_ev (s\<lparr>msgs := m\<rparr>) = wf_ev s" "wf_ev (s\<lparr>doms := f\<rparr>) = wf_ev s"
  "wf_ev (s\<lparr>fds := g\<rparr>) = wf_ev s" "wf_ev (s\<lparr>sss := h\<rparr>) = wf_ev s" "wf_ev (s\<lparr>readers := i\<rparr>) = wf_ev s"
  "wf_ev (s\<lparr>freed := j\<rparr>) = wf_ev s" "wf_ev (s\<lparr>timers := k\<rparr>) = wf_ev s" "wf_ev (s\<lparr>this_worker := l\<rparr>) = wf_ev s"
  "wf_ev (s\<lparr>cr_current := n\<rparr>) = wf_ev s" "wf_ev (s\<lparr>cr_caller_of := p\<rparr>) = wf_ev s"
  "wf_ev (s\<lparr>this_domain := q\<rparr>) = wf_ev s" "wf_ev (s\<lparr>aios := r\<rparr>) = wf_ev s" "wf_ev (s\<lparr>sysres := o'\<rparr>) = wf_ev s"
  "wf_ev (s\<lparr>pools := v\<rparr>) = wf_ev s" "wf_ev (s\<lparr>pool_domain := w\<rparr>) = wf_ev s"
  "wf_ev (s\<lparr>vars := x\<rparr>) = wf_ev s" "wf_ev (s\<lparr>has_tc := y\<rparr>) = wf_ev s" "wf_ev (s\<lparr>has_domain := z\<rparr>) = wf_ev s"
  by (simp_all add: wf_ev_def refs_def)

lemma relink_hd_frame [simp]:
  "locks (relink_hd e l l' s) = locks s" "this_worker (relink_hd e l l' s) = this_worker s"
  "wrk (relink_hd e l l' s) = wrk s" "thr (relink_hd e l l' s) = thr s" "doms (relink_hd e l l' s) = doms s"
  "syslog (relink_hd e l l' s) = syslog s" "sysres (relink_hd e l l' s) = sysres s"
  "ev_tc (evs (relink_hd e l l' s) x) = ev_tc (evs s x)"
  "ev_flags (evs (relink_hd e l l' s) x) = ev_flags (evs s x)"
  "ev_domain (evs (relink_hd e l l' s) x) = ev_domain (evs s x)" "m_owner (relink_hd e l l' s) = m_owner s"
  "freed (relink_hd e l l' s) = freed s" "cr_current (relink_hd e l l' s) = cr_current s"
  "next_in_stack (evs (relink_hd e l l' s) x) = next_in_stack (evs s x)"
  by (simp_all add: relink_hd_def relink_to_def)

lemma ev_el_relink_hd: "ev_el (evs (relink_hd e l l' s) x) = (if x = e then Some l' else ev_el (evs s x))"
  by (simp add: relink_hd_def relink_to_def)

lemma evl_relink_hd:
  "l \<noteq> l' \<Longrightarrow> evl (relink_hd e l l' s) = (evl s)(l := remove1 e (evl s l), l' := e # evl s l')"
  by (simp add: relink_hd_def relink_to_def)

lemma wf_ev_process_image [simp]: "wf_ev process_image"
  by (simp add: wf_ev_def refs_def)

section \<open>Properties\<close>

text \<open>Taking a queued event off its list with \<^verbatim>\<open>remove_event\<close> always succeeds when the list is not locked: the
  event ends up on no list, its thread loses exactly one reference, no other thread does, the list lock is
  released again, and the queue invariant (each event on the one list its \<^verbatim>\<open>el\<close> names, exact reference
  and immediate counters) still holds.\<close>

lemma remove_event_correct:
  assumes "wf_ev s" and "ev_el (evs s e) = Some l" and "free_lock s (L_list l)"
  shows "\<exists>s'. remove_event e s = Inr (l, s') \<and> wf_ev s' \<and> (\<forall>k. e \<notin> set (evl s' k)) \<and>
    (\<forall>t. refcnt (thr s' t) = refcnt (thr s t) - (if t = ev_tc (evs s e) then 1 else 0)) \<and>
    locks s' = locks s"
proof -
  have wf: "wf_ev (unlink e l s)" using assms by (simp add: wf_ev_unlink)
  have "ev_el (evs (unlink e l s) e) = None" by (simp add: unlink_def)
  then have "e \<notin> set (evl (unlink e l s) k)" for k using wf_evD(2) [OF wf] by simp
  moreover have "refcnt (thr (unlink e l s) t) = refcnt (thr s t) - (if t = ev_tc (evs s e) then 1 else 0)" for t
    by (simp add: unlink_def)
  ultimately show ?thesis
    using wf remove_event_eq [OF assms] unlink_lock_frame(1) [of e l s] by blast
qed

text \<open>A state with one event, 7, of thread 1 on the wait queue \<open>Wq 0\<close>.\<close>

definition one_waiter :: tcr where
  "one_waiter = link 7 (Waiters (Wq 0)) 1 process_image"

lemma wf_one_waiter: "wf_ev one_waiter"
  unfolding one_waiter_def by (rule wf_ev_link) simp_all

lemma remove_event_correct_witness:
  "\<exists>s'. remove_event 7 one_waiter = Inr (Waiters (Wq 0), s') \<and> wf_ev s' \<and> refcnt (thr s' 1) = 0"
proof -
  have "ev_el (evs one_waiter 7) = Some (Waiters (Wq 0))" "free_lock one_waiter (L_list (Waiters (Wq 0)))"
    "refcnt (thr one_waiter 1) = 1" "ev_tc (evs one_waiter 7) = 1"
    by (simp_all add: one_waiter_def link_def free_lock_def)
  with remove_event_correct [OF wf_one_waiter, of 7 "Waiters (Wq 0)"] show ?thesis by fastforce
qed

text \<open>Putting an event on a list with \<^verbatim>\<open>_add_event\<close> and taking it off again with \<^verbatim>\<open>_remove_event\<close> is a round
  trip: every list and every reference counter is as before, and the invariant holds in between.
  Adding an event that is already on a list ends the process.\<close>

lemma add_remove_roundtrip:
  assumes "wf_ev s" and "holds s (L_list l)" and "l \<noteq> Immediate"
  shows "(case ev_el (evs s e) of
      None \<Rightarrow> \<exists>s1 s2. u_add_event e l t s = Inr ((), s1) \<and> wf_ev s1 \<and> evl s1 l = evl s l @ [e] \<and>
        refcnt (thr s1 t) = refcnt (thr s t) + 1 \<and>
        u_remove_event e l s1 = Inr ((), s2) \<and> wf_ev s2 \<and> evl s2 = evl s \<and>
        (\<forall>u. refcnt (thr s2 u) = refcnt (thr s u))
    | Some _ \<Rightarrow> u_add_event e l t s = Inl (Msg_exit ''Event is still on a list''))"
proof (cases "ev_el (evs s e)")
  case None
  let ?s1 = "link e l t s" and ?s2 = "unlink e l (link e l t s)"
  have wf1: "wf_ev ?s1" using assms None by (simp add: wf_ev_link)
  have el1: "ev_el (evs ?s1 e) = Some l" and h1: "holds ?s1 (L_list l)"
    using assms(2) by (simp_all add: link_def holds_def)
  have "e \<notin> set (evl s l)" using wf_evD(2) [OF assms(1)] None by simp
  then have "evl ?s2 = evl s" and "refcnt (thr ?s2 u) = refcnt (thr s u)" for u
    by (simp_all add: unlink_def link_def)
  then show ?thesis
    using None assms(2) wf1 u_add_event_eq [OF None assms(2)] u_remove_event_eq [OF wf1 el1 h1]
      wf_ev_unlink [OF wf1 el1] by (simp add: link_def)
next
  case (Some k)
  with assms(2) show ?thesis
    by (simp add: u_add_event_def op_defs upd_defs holds_def)
qed

lemma add_remove_roundtrip_witness:
  "\<exists>s1. u_add_event 9 (Pending 3) 1 (one_waiter\<lparr>locks := (\<lambda>_. None)(L_list (Pending 3) := Some 0)\<rparr>) = Inr ((), s1)
     \<and> refcnt (thr s1 1) = 2"
proof -
  let ?s = "one_waiter\<lparr>locks := (\<lambda>_. None)(L_list (Pending 3) := Some 0)\<rparr>"
  have "wf_ev ?s" using wf_one_waiter by (simp add: wf_ev_def refs_def)
  moreover have "holds ?s (L_list (Pending 3))" "ev_el (evs ?s 9) = None" "refcnt (thr ?s 1) = 1"
    by (simp_all add: holds_def one_waiter_def link_def)
  ultimately show ?thesis using add_remove_roundtrip [of ?s "Pending 3" 9 1] by auto
qed

end
