(* ===== verification/Epoll_Match.thy ===== *)
theory Epoll_Match
  imports Events
begin

text \<open>
  The descriptor side of the scheduler: the interest mask of a descriptor and how it is programmed into
  the kernel (\<^verbatim>\<open>calc_epoll_event_mask\<close>, \<^verbatim>\<open>arm\<close>, \<^verbatim>\<open>add_event_fd\<close>, \<^verbatim>\<open>tc_rearm\<close>), and how the waiters to wake are
  chosen when the kernel reports the descriptor (\<^verbatim>\<open>matching_event\<close>, \<^verbatim>\<open>wakeup_all_events\<close>).
\<close>

unbundle bit_operations_syntax

section \<open>Operations\<close>

definition EPOLLIN :: u32 where "EPOLLIN = 1"
definition EPOLLOUT :: u32 where "EPOLLOUT = 4"
definition EPOLLERR :: u32 where "EPOLLERR = 8"
definition EPOLLHUP :: u32 where "EPOLLHUP = 16"
definition EPOLLONESHOT :: u32 where "EPOLLONESHOT = push_bit 30 1"

text \<open>The member \<^verbatim>\<open>ep_events\<close> of the union; the events on a descriptor's list have that member set.\<close>

definition ep_events_of :: "event \<Rightarrow> u32" where
  "ep_events_of v = (case ev_u v of Ep_events m \<Rightarrow> m | _ \<Rightarrow> 0)"

fun calc_epoll_event_mask :: "tcr \<Rightarrow> eid list \<Rightarrow> u32" where
  "calc_epoll_event_mask s [] = 0"
| "calc_epoll_event_mask s (e # es) = ep_events_of (evs s e) OR calc_epoll_event_mask s es"

definition on_this_worker :: "tcr \<Rightarrow> eid \<Rightarrow> bool" where
  "on_this_worker s e \<longleftrightarrow> worker_nr (thr s (ev_tc (evs s e))) = w_nr (cur_worker s)"

text \<open>
  One of the two \<^verbatim>\<open>if\<close> blocks of the loop of \<^verbatim>\<open>matching_event\<close>, for the direction \<open>m\<close>: the mask, the candidate for
  that direction and the candidate on this worker.
\<close>

definition match_dir :: "tcr \<Rightarrow> u32 \<Rightarrow> eid \<Rightarrow> u32 \<times> eid option \<times> eid option \<Rightarrow> u32 \<times> eid option \<times> eid option" where
  "match_dir s m e c = (case c of (em, cand, ew) \<Rightarrow>
     if em AND ep_events_of (evs s e) AND m \<noteq> 0 then
       let cand1 = (if cand = None then Some e else cand);
           (cand2, ew2) = (if on_this_worker s e then (Some e, Some e) else (cand1, ew))
       in if ev_flags (evs s e) = EF_PRIORITY then (em AND NOT m, Some e, ew2)
          else (em, cand2, ew2)
     else (em, cand, ew))"

fun match_loop :: "tcr \<Rightarrow> u32 \<Rightarrow> eid list \<Rightarrow> eid option \<Rightarrow> eid option \<Rightarrow> eid option
    \<Rightarrow> eid option \<times> eid option \<times> eid option" where
  "match_loop s em [] i out ew = (i, out, ew)"
| "match_loop s em (e # es) i out ew =
     (case match_dir s EPOLLIN e (em, i, ew) of (em1, i1, ew1) \<Rightarrow>
      case match_dir s EPOLLOUT e (em1, out, ew1) of (em2, out2, ew2) \<Rightarrow>
        if em2 = 0 then (i1, out2, ew2) else match_loop s em2 es i1 out2 ew2)"

definition matching_event :: "u32 \<Rightarrow> elist \<Rightarrow> eid option tcop" where
  "matching_event em l = rdm (\<lambda>s.
     case match_loop s em (evl s l) None None None of
       (i, out, Some ew) \<Rightarrow>
         (case (if Some ew = i then out else i) of
            None \<Rightarrow> ret (Some ew)
          | Some e \<Rightarrow> thn (move_to_immediate e) (ret (Some ew)))
     | (Some a, Some b, None) \<Rightarrow> thn (move_to_immediate a) (ret (Some b))
     | (i, out, None) \<Rightarrow> ret (if i \<noteq> None then i else out))"

fun wake_loop :: "eid list \<Rightarrow> eid option \<Rightarrow> eid option \<Rightarrow> (eid option \<times> eid option) tcop" where
  "wake_loop [] ex ew = ret (ex, ew)"
| "wake_loop (e # es) ex ew = (\<lambda>s.
     if ew = None \<and> on_this_worker s e then wake_loop es ex (Some e) s
     else if ex = None then wake_loop es (Some e) ew s
     else thn (move_to_immediate e) (wake_loop es ex ew) s)"

definition wakeup_all_events :: "elist \<Rightarrow> eid option tcop" where
  "wakeup_all_events l = rdm (\<lambda>s.
     bnd (wake_loop (evl s l) None None) (\<lambda>(ex, ew).
       case (ew, ex) of
         (Some w, Some x) \<Rightarrow> thn (move_to_immediate x) (ret (Some w))
       | _ \<Rightarrow> ret (if ew \<noteq> None then ew else ex)))"

definition tcfd_epoll_ctl :: "epoll_op \<Rightarrow> fdid \<Rightarrow> u32 \<Rightarrow> int tcop" where
  "tcfd_epoll_ctl op tcfd m = rdm (\<lambda>s.
     sys_call (Epoll_ctl (d_efd (cur_domain s)) op (fd_fd (fds s tcfd)) m))"

definition arm :: "fdid \<Rightarrow> int tcop" where
  "arm tcfd = rdm (\<lambda>s.
     let m = calc_epoll_event_mask s (evl s (Fd_events tcfd))
     in if m = fd_ep_events (fds s tcfd) then ret 0
        else thn (mdf (upd_fd tcfd (fd_ep_events_update (\<lambda>_. m)))) (tcfd_epoll_ctl EPOLL_CTL_MOD tcfd m))"

definition RV_FAILED_int :: int where "RV_FAILED_int = 3"

definition add_event_fd :: "eid \<Rightarrow> u32 \<Rightarrow> tc_event_flag \<Rightarrow> fdid \<Rightarrow> int tcop" where
  "add_event_fd e ep_events flags tcfd =
     thn (block [
       mdf (upd_ev e (\<lambda>v. v\<lparr>ev_u := Ep_events ep_events, ev_flags := flags\<rparr>)),
       mdf (tc_event_init e),
       spin_lock (L_list (Fd_events tcfd))])
     (bnd (ifm (\<lambda>s. err_hup (fds s tcfd))
        (ret RV_FAILED_int)
        (thn (rdm (\<lambda>s. u_add_event e (Fd_events tcfd) (tc_current s)))
          (bnd (arm tcfd) (\<lambda>rv.
             thn (whn (\<lambda>_. rv \<noteq> 0) (u_remove_event e (Fd_events tcfd))) (ret rv)))))
      (\<lambda>rv. thn (spin_unlock (L_list (Fd_events tcfd))) (ret rv)))"

definition tc_rearm :: "fdid \<Rightarrow> tc_rv tcop" where
  "tc_rearm tcfd =
     thn (spin_lock (L_list (Fd_events tcfd)))
       (bnd (arm tcfd) (\<lambda>rv.
          thn (spin_unlock (L_list (Fd_events tcfd))) (ret (if rv \<noteq> 0 then RV_FAILED else RV_OK))))"

section \<open>The mask\<close>

lemma calc_mask_bit:
  "bit (calc_epoll_event_mask s es) n \<longleftrightarrow> (\<exists>e \<in> set es. bit (ep_events_of (evs s e)) n)"
  by (induction es) (auto simp: bit_or_iff)

section \<open>Choosing the events to wake\<close>

definition hits :: "tcr \<Rightarrow> u32 \<Rightarrow> u32 \<Rightarrow> eid \<Rightarrow> bool" where
  "hits s em m e \<longleftrightarrow> em AND ep_events_of (evs s e) AND m \<noteq> 0"

lemma bit_EPOLLIN: "bit EPOLLIN n \<longleftrightarrow> n = 0"
  by (auto simp: EPOLLIN_def bit_1_iff)

lemma bit_EPOLLOUT: "bit EPOLLOUT n \<longleftrightarrow> n = 2"
proof -
  have e: "EPOLLOUT = push_bit 2 1" by (simp add: EPOLLOUT_def)
  show ?thesis
    by (simp only: e bit_push_bit_iff) (auto simp: bit_1_iff possible_bit_def)
qed

lemma and_EPOLLIN: "x AND EPOLLIN \<noteq> 0 \<longleftrightarrow> bit x 0"
  by (auto simp: bit_eq_iff [of "x AND EPOLLIN" 0] bit_and_iff bit_EPOLLIN possible_bit_def dest: bit_imp_possible_bit)

lemma and_EPOLLOUT: "x AND EPOLLOUT \<noteq> 0 \<longleftrightarrow> bit x 2"
  by (auto simp: bit_eq_iff [of "x AND EPOLLOUT" 0] bit_and_iff bit_EPOLLOUT possible_bit_def dest: bit_imp_possible_bit)

lemma hits_iff:
  "hits s em EPOLLIN e \<longleftrightarrow> bit em 0 \<and> bit (ep_events_of (evs s e)) 0"
  "hits s em EPOLLOUT e \<longleftrightarrow> bit em 2 \<and> bit (ep_events_of (evs s e)) 2"
  by (simp_all add: hits_def and_EPOLLIN and_EPOLLOUT bit_and_iff flip: and.assoc)

lemma clear_bits:
  "bit (em AND NOT EPOLLIN) 0 = False" "bit (em AND NOT EPOLLIN) 2 = bit em 2"
  "bit (em AND NOT EPOLLOUT) 2 = False" "bit (em AND NOT EPOLLOUT) 0 = bit em 0"
  by (auto simp: bit_and_iff bit_not_iff_eq bit_EPOLLIN bit_EPOLLOUT possible_bit_def)

lemma match_dir_hits:
  "match_dir s m e (em, c, w) =
     (if hits s em m e then
        (if ev_flags (evs s e) = EF_PRIORITY then em AND NOT m else em,
         if ev_flags (evs s e) = EF_PRIORITY \<or> on_this_worker s e \<or> c = None then Some e else c,
         if on_this_worker s e then Some e else w)
      else (em, c, w))"
  by (auto simp: match_dir_def hits_def Let_def)

text \<open>Every candidate is on the list and waits for a direction that was reported.\<close>

lemma match_loop_sound:
  assumes "match_loop s em es i out ew = (i', out', ew')"
  shows "(i' = i \<or> (\<exists>e \<in> set es. i' = Some e \<and> hits s em EPOLLIN e)) \<and>
    (out' = out \<or> (\<exists>e \<in> set es. out' = Some e \<and> hits s em EPOLLOUT e)) \<and>
    (ew' = ew \<or> (\<exists>e \<in> set es. ew' = Some e \<and> on_this_worker s e \<and>
        (hits s em EPOLLIN e \<or> hits s em EPOLLOUT e)))"
  using assms
proof (induction es arbitrary: em i out ew)
  case Nil
  then show ?case by simp
next
  case (Cons e es)
  obtain em1 i1 ew1 where d1: "match_dir s EPOLLIN e (em, i, ew) = (em1, i1, ew1)"
    by (metis prod_cases3)
  obtain em2 out2 ew2 where d2: "match_dir s EPOLLOUT e (em1, out, ew1) = (em2, out2, ew2)"
    by (metis prod_cases3)
  have mono: "bit em2 n \<Longrightarrow> bit em1 n" "bit em1 n \<Longrightarrow> bit em n" for n
    using d1 d2 by (auto simp: match_dir_hits bit_and_iff split: if_splits)
  have i1: "i1 = i \<or> i1 = Some e \<and> hits s em EPOLLIN e"
    and o2: "out2 = out \<or> out2 = Some e \<and> hits s em EPOLLOUT e"
    and w2: "ew2 = ew \<or> ew2 = Some e \<and> on_this_worker s e \<and>
      (hits s em EPOLLIN e \<or> hits s em EPOLLOUT e)"
    using d1 d2 mono by (auto simp: match_dir_hits hits_iff split: if_splits)
  show ?case
  proof (cases "em2 = 0")
    case True
    then show ?thesis using Cons.prems d1 d2 i1 o2 w2 by auto
  next
    case False
    then have "match_loop s em2 es i1 out2 ew2 = (i', out', ew')"
      using Cons.prems d1 d2 by simp
    note IH = Cons.IH [OF this]
    have hm: "hits s em2 EPOLLIN x \<Longrightarrow> hits s em EPOLLIN x"
      "hits s em2 EPOLLOUT x \<Longrightarrow> hits s em EPOLLOUT x" for x
      using mono by (auto simp: hits_iff)
    have "i' = i \<or> (\<exists>x \<in> set (e # es). i' = Some x \<and> hits s em EPOLLIN x)"
      using IH i1 hm(1) by auto
    moreover have "out' = out \<or> (\<exists>x \<in> set (e # es). out' = Some x \<and> hits s em EPOLLOUT x)"
      using IH o2 hm(2) by auto
    moreover have "ew' = ew \<or> (\<exists>x \<in> set (e # es). ew' = Some x \<and> on_this_worker s x \<and>
        (hits s em EPOLLIN x \<or> hits s em EPOLLOUT x))"
      using IH w2 hm by auto
    ultimately show ?thesis by blast
  qed
qed

text \<open>A direction stays without a candidate only when nobody on the list waits for it.\<close>

lemma match_loop_complete:
  assumes "match_loop s em es i out ew = (i', out', ew')"
  shows "(i' = None \<longleftrightarrow> i = None \<and> (\<forall>e \<in> set es. \<not> hits s em EPOLLIN e)) \<and>
    (out' = None \<longleftrightarrow> out = None \<and> (\<forall>e \<in> set es. \<not> hits s em EPOLLOUT e))"
  using assms
proof (induction es arbitrary: em i out ew)
  case Nil
  then show ?case by simp
next
  case (Cons e es)
  obtain em1 i1 ew1 where d1: "match_dir s EPOLLIN e (em, i, ew) = (em1, i1, ew1)"
    by (metis prod_cases3)
  obtain em2 out2 ew2 where d2: "match_dir s EPOLLOUT e (em1, out, ew1) = (em2, out2, ew2)"
    by (metis prod_cases3)
  have i1: "i1 = None \<longleftrightarrow> i = None \<and> \<not> hits s em EPOLLIN e"
    and b0: "i1 = None \<Longrightarrow> bit em2 0 = bit em 0"
    using d1 d2 by (auto simp: match_dir_hits clear_bits split: if_splits)
  have o2: "out2 = None \<longleftrightarrow> out = None \<and> \<not> hits s em EPOLLOUT e"
    and b2: "out2 = None \<Longrightarrow> bit em2 2 = bit em 2"
    using d1 d2 by (auto simp: match_dir_hits hits_iff clear_bits split: if_splits)
  show ?case
  proof (cases "em2 = 0")
    case True
    then show ?thesis using Cons.prems d1 d2 i1 o2 b0 b2 by (auto simp: hits_iff)
  next
    case False
    then have "match_loop s em2 es i1 out2 ew2 = (i', out', ew')"
      using Cons.prems d1 d2 by simp
    from Cons.IH [OF this] show ?thesis
      using i1 o2 b0 b2 by (auto simp: hits_iff)
  qed
qed

text \<open>Without a waiter on this worker there is no local candidate, and the first priority waiter wins.\<close>

lemma match_loop_no_local:
  assumes "\<forall>e \<in> set es. \<not> on_this_worker s e"
  shows "snd (snd (match_loop s em es i out ew)) = ew"
  using match_loop_sound [of s em es i out ew] assms by (cases "match_loop s em es i out ew") auto

lemma match_loop_in_kept:
  "\<not> bit em 0 \<Longrightarrow> fst (match_loop s em es i out ew) = i"
  using match_loop_sound [of s em es i out ew]
  by (cases "match_loop s em es i out ew") (auto simp: hits_iff)

lemma match_loop_priority_in:
  assumes "\<forall>e \<in> set es. \<not> on_this_worker s e"
    and "\<exists>e \<in> set es. hits s em EPOLLIN e \<and> ev_flags (evs s e) = EF_PRIORITY"
  shows "\<exists>p \<in> set es. fst (match_loop s em es i out ew) = Some p \<and> ev_flags (evs s p) = EF_PRIORITY"
  using assms
proof (induction es arbitrary: em i out ew)
  case Nil
  then show ?case by simp
next
  case (Cons e es)
  obtain em1 i1 ew1 where d1: "match_dir s EPOLLIN e (em, i, ew) = (em1, i1, ew1)"
    by (metis prod_cases3)
  obtain em2 out2 ew2 where d2: "match_dir s EPOLLOUT e (em1, out, ew1) = (em2, out2, ew2)"
    by (metis prod_cases3)
  show ?case
  proof (cases "hits s em EPOLLIN e \<and> ev_flags (evs s e) = EF_PRIORITY")
    case True
    then have "i1 = Some e" and "\<not> bit em2 0"
      using d1 d2 by (auto simp: match_dir_hits clear_bits split: if_splits)
    then show ?thesis
      using True d1 d2 match_loop_in_kept [of em2 s es i1 out2 ew2] by simp
  next
    case False
    then have b: "bit em2 0 = bit em 0"
      using d1 d2 by (auto simp: match_dir_hits clear_bits split: if_splits)
    from False Cons.prems(2) obtain p where p: "p \<in> set es" "hits s em EPOLLIN p"
      "ev_flags (evs s p) = EF_PRIORITY" by auto
    then have "hits s em2 EPOLLIN p" using b by (simp add: hits_iff)
    then have "em2 \<noteq> 0" by (auto simp: hits_iff)
    then show ?thesis
      using Cons.IH [of em2 i1 out2 ew2] Cons.prems(1) p \<open>hits s em2 EPOLLIN p\<close> d1 d2 by auto
  qed
qed

section \<open>What the wake-up functions do to the lists\<close>

definition wants :: "tcr \<Rightarrow> u32 \<Rightarrow> eid \<Rightarrow> bool" where
  "wants s em e \<longleftrightarrow> hits s em EPOLLIN e \<or> hits s em EPOLLOUT e"

lemma matching_event_cases:
  assumes "match_loop s em (evl s l) None None None = (i, out, ew)"
  shows "matching_event em l s =
    (case ew of
       Some w \<Rightarrow> (case (if Some w = i then out else i) of None \<Rightarrow> Inr (Some w, s)
         | Some e \<Rightarrow> thn (move_to_immediate e) (ret (Some w)) s)
     | None \<Rightarrow> (case (i, out) of
           (Some a, Some b) \<Rightarrow> thn (move_to_immediate a) (ret (Some b)) s
         | _ \<Rightarrow> Inr (if i \<noteq> None then i else out, s)))"
  using assms by (auto simp: matching_event_def op_defs split: option.splits)

lemma matching_event_result:
  assumes wf: "wf_ev s" and h: "holds s (L_list l)" and f: "free_lock s (L_list Immediate)"
  obtains r s' where "matching_event em l s = Inr (r, s')"
    and "r = None \<longleftrightarrow> (\<forall>e \<in> set (evl s l). \<not> wants s em e)"
    and "\<And>e. r = Some e \<Longrightarrow> e \<in> set (evl s l) \<and> wants s em e"
    and "s' = s \<or> (\<exists>x \<in> set (evl s l). wants s em x \<and> s' = relink x l Immediate s)"
proof -
  obtain i out ew where m: "match_loop s em (evl s l) None None None = (i, out, ew)"
    by (metis prod_cases3)
  note snd = match_loop_sound [OF m] and cmp = match_loop_complete [OF m]
  have mv: "move_to_immediate x s = Inr ((), relink x l Immediate s)" if "x \<in> set (evl s l)" for x
    using move_to_immediate_eq [OF _ h f] wf_evD(2) [OF wf] that by blast
  define r where "r = (if ew \<noteq> None then ew else if out \<noteq> None then out else i)"
  define x where "x = (case ew of Some w \<Rightarrow> if ew = i then out else i
    | None \<Rightarrow> if i \<noteq> None \<and> out \<noteq> None then i else None)"
  define s' where "s' = (case x of None \<Rightarrow> s | Some y \<Rightarrow> relink y l Immediate s)"
  have x: "\<And>y. x = Some y \<Longrightarrow> y \<in> set (evl s l) \<and> wants s em y"
    using snd by (auto simp: x_def wants_def split: option.splits if_splits)
  have "matching_event em l s = Inr (r, s')"
  proof (cases x)
    case None
    then show ?thesis
      unfolding matching_event_cases [OF m] r_def s'_def
      by (auto simp: x_def split: option.splits if_splits)
  next
    case (Some y)
    then have "move_to_immediate y s = Inr ((), relink y l Immediate s)" using mv x by blast
    with Some show ?thesis
      unfolding matching_event_cases [OF m] r_def s'_def
      by (cases ew; cases i; cases out) (auto simp: x_def thn_def bnd_def ret_def split: if_splits)
  qed
  moreover have "r = None \<longleftrightarrow> (\<forall>e \<in> set (evl s l). \<not> wants s em e)"
    using snd cmp by (auto simp: r_def wants_def)
  moreover have "e \<in> set (evl s l) \<and> wants s em e" if "r = Some e" for e
    using snd that by (auto simp: r_def wants_def split: if_splits)
  moreover have "s' = s \<or> (\<exists>x \<in> set (evl s l). wants s em x \<and> s' = relink x l Immediate s)"
    using x by (auto simp: s'_def split: option.splits)
  ultimately show thesis using that by blast
qed

text \<open>Moving several events of one list to the immediate list, in order.\<close>

fun relinks :: "eid list \<Rightarrow> elist \<Rightarrow> tcr \<Rightarrow> tcr" where
  "relinks [] l s = s"
| "relinks (e # es) l s = relinks es l (relink e l Immediate s)"

lemma on_this_worker_relink [simp]: "on_this_worker (relink e l l' s) x = on_this_worker s x"
  by (simp add: on_this_worker_def)

lemma relinks_result:
  assumes "wf_ev s" and "distinct es" and "\<And>e. e \<in> set es \<Longrightarrow> ev_el (evs s e) = Some l" and "l \<noteq> Immediate"
  shows "wf_ev (relinks es l s) \<and> evl (relinks es l s) Immediate = evl s Immediate @ es \<and>
    evl (relinks es l s) l = filter (\<lambda>e. e \<notin> set es) (evl s l) \<and>
    locks (relinks es l s) = locks s \<and> this_worker (relinks es l s) = this_worker s \<and>
    (\<forall>x. x \<notin> set es \<longrightarrow> ev_el (evs (relinks es l s) x) = ev_el (evs s x))"
  using assms
proof (induction es arbitrary: s)
  case Nil
  then show ?case by simp
next
  case (Cons e es)
  let ?s = "relink e l Immediate s"
  have "wf_ev ?s" using wf_ev_relink Cons.prems by simp
  moreover have "ev_el (evs ?s x) = Some l" if "x \<in> set es" for x
    using Cons.prems(2,3) that by (auto simp: ev_el_relink)
  ultimately have IH: "wf_ev (relinks es l ?s) \<and> evl (relinks es l ?s) Immediate = evl ?s Immediate @ es \<and>
    evl (relinks es l ?s) l = filter (\<lambda>e. e \<notin> set es) (evl ?s l) \<and>
    locks (relinks es l ?s) = locks ?s \<and> this_worker (relinks es l ?s) = this_worker ?s \<and>
    (\<forall>x. x \<notin> set es \<longrightarrow> ev_el (evs (relinks es l ?s) x) = ev_el (evs ?s x))"
    using Cons.IH [of ?s] Cons.prems by simp
  have "remove1 e (evl s l) = filter (\<lambda>x. x \<noteq> e) (evl s l)"
    using wf_evD(1) [OF Cons.prems(1)] by (simp add: distinct_remove1_removeAll removeAll_filter_not_eq)
       (metis (mono_tags, lifting) filter_cong)
  then show ?case using IH Cons.prems(4)
    by (auto simp: evl_relink ev_el_relink intro!: filter_cong)
qed

text \<open>The choice \<^verbatim>\<open>wakeup_all_events\<close> makes, without the moves: the two events kept back and the others.\<close>

fun wake_pick :: "tcr \<Rightarrow> eid list \<Rightarrow> eid option \<Rightarrow> eid option \<Rightarrow> eid option \<times> eid option \<times> eid list" where
  "wake_pick s [] ex ew = (ex, ew, [])"
| "wake_pick s (e # es) ex ew =
     (if ew = None \<and> on_this_worker s e then wake_pick s es ex (Some e)
      else if ex = None then wake_pick s es (Some e) ew
      else case wake_pick s es ex ew of (ex', ew', ms) \<Rightarrow> (ex', ew', e # ms))"

lemma wake_pick_relink [simp]: "wake_pick (relink e l l' s) es ex ew = wake_pick s es ex ew"
  by (induction es arbitrary: ex ew) simp_all

lemma wake_loop_eq:
  assumes "wf_ev s" and "distinct es" and "\<And>e. e \<in> set es \<Longrightarrow> ev_el (evs s e) = Some l"
    and "holds s (L_list l)" and "free_lock s (L_list Immediate)"
    and "wake_pick s es ex ew = (ex', ew', ms)"
  shows "wake_loop es ex ew s = Inr ((ex', ew'), relinks ms l s)"
  using assms
proof (induction es arbitrary: s ex ew ms)
  case Nil
  then show ?case by (simp add: ret_def)
next
  case (Cons e es)
  have l: "l \<noteq> Immediate" using Cons.prems by (auto simp: holds_def free_lock_def)
  show ?case
  proof (cases "ew = None \<and> on_this_worker s e \<or> ex = None")
    case True
    then show ?thesis using Cons by auto
  next
    case False
    let ?s = "relink e l Immediate s"
    obtain ms' where ms: "wake_pick s es ex ew = (ex', ew', ms')" "ms = e # ms'"
      using Cons.prems(6) False by (auto split: prod.splits if_splits)
    have "wake_loop es ex ew ?s = Inr ((ex', ew'), relinks ms' l ?s)"
    proof (rule Cons.IH)
      show "wf_ev ?s" using wf_ev_relink Cons.prems l by simp
      show "ev_el (evs ?s x) = Some l" if "x \<in> set es" for x
        using Cons.prems(2,3) that by (auto simp: ev_el_relink)
    qed (use Cons.prems ms in \<open>auto simp: holds_def free_lock_def\<close>)
    moreover have "move_to_immediate e s = Inr ((), ?s)"
      using move_to_immediate_eq [of s e l] Cons.prems by simp
    ultimately show ?thesis using False ms by (auto simp: thn_def bnd_def)
  qed
qed

text \<open>The events kept back and the events moved are the events of the list, each once.\<close>

lemma wake_pick_mset:
  assumes "wake_pick s es ex ew = (ex', ew', ms)"
  shows "mset (opt_list ex' @ opt_list ew' @ ms) = mset (opt_list ex @ opt_list ew @ es)"
  using assms by (induction es arbitrary: ex ew ms) (auto split: if_splits prod.splits)

lemma wake_pick_local:
  assumes "wake_pick s es ex ew = (ex', ew', ms)"
  shows "ew' = None \<longleftrightarrow> ew = None \<and> (\<forall>e \<in> set es. \<not> on_this_worker s e)"
  using assms by (induction es arbitrary: ex ew ms) (auto split: if_splits prod.splits)

lemma wake_pick_local_event:
  assumes "wake_pick s es ex ew = (ex', Some e, ms)"
  shows "ew = Some e \<or> on_this_worker s e"
  using assms by (induction es arbitrary: ex ew ms) (fastforce split: if_splits prod.splits)+

lemma wakeup_all_events_result:
  assumes wf: "wf_ev s" and h: "holds s (L_list l)" and f: "free_lock s (L_list Immediate)"
  obtains r ms where "wakeup_all_events l s = Inr (r, relinks ms l s)"
    and "mset (opt_list r @ ms) = mset (evl s l)"
    and "\<And>e. e \<in> set (evl s l) \<Longrightarrow> on_this_worker s e \<Longrightarrow> \<exists>w. r = Some w \<and> on_this_worker s w"
proof -
  have l: "l \<noteq> Immediate" using h f by (auto simp: holds_def free_lock_def)
  obtain ex ew ms where p: "wake_pick s (evl s l) None None = (ex, ew, ms)" by (metis prod_cases3)
  have m: "mset (opt_list ex @ opt_list ew @ ms) = mset (evl s l)" using wake_pick_mset [OF p] by simp
  then have d: "distinct (opt_list ex @ opt_list ew @ ms)"
    using wf_evD(1) [OF wf] mset_eq_imp_distinct_iff by blast
  have in_l: "set (opt_list ex @ opt_list ew @ ms) = set (evl s l)" using m mset_eq_setD by blast
  have el: "ev_el (evs s e) = Some l" if "e \<in> set (opt_list ex @ opt_list ew @ ms)" for e
    using that in_l wf_evD(2) [OF wf] by blast
  have loop: "wake_loop (evl s l) None None s = Inr ((ex, ew), relinks ms l s)"
    by (rule wake_loop_eq [OF wf wf_evD(1) [OF wf] _ h f p]) (use wf_evD(2) [OF wf] in blast)
  have R: "wf_ev (relinks ms l s) \<and> locks (relinks ms l s) = locks s \<and>
      this_worker (relinks ms l s) = this_worker s \<and>
      (\<forall>x. x \<notin> set ms \<longrightarrow> ev_el (evs (relinks ms l s) x) = ev_el (evs s x))"
    using relinks_result [OF wf _ _ l, of ms] d el by auto
  have app: "relink x l Immediate (relinks ms l s) = relinks (ms @ [x]) l s" for x
    by (induction ms arbitrary: s) auto
  show thesis
  proof (cases "ew \<noteq> None \<and> ex \<noteq> None")
    case True
    then obtain w x where wx: "ew = Some w" "ex = Some x" by auto
    have "move_to_immediate x (relinks ms l s) = Inr ((), relinks (ms @ [x]) l s)"
      using move_to_immediate_eq [of "relinks ms l s" x l] R wx d el h f app
      by (auto simp: holds_def free_lock_def)
    then have "wakeup_all_events l s = Inr (Some w, relinks (ms @ [x]) l s)"
      using loop wx by (simp add: wakeup_all_events_def op_defs)
    moreover have "on_this_worker s w" using wake_pick_local_event [of s _ None None] p wx by auto
    ultimately show thesis using that [of "Some w" "ms @ [x]"] m wx by (simp add: add_mset_commute)
  next
    case False
    then have "wakeup_all_events l s = Inr (if ew \<noteq> None then ew else ex, relinks ms l s)"
      using loop by (auto simp: wakeup_all_events_def op_defs split: option.splits)
    then show thesis
      using that m False wake_pick_local [OF p] wake_pick_local_event [of s _ None None] p
      by (cases ew; cases ex) auto
  qed
qed

section \<open>Programming the descriptor\<close>

lemma arm_result:
  obtains rv s' where "arm d s = Inr (rv, s')" and "evs s' = evs s" and "evl s' = evl s"
    and "thr s' = thr s" and "immediate_count s' = immediate_count s" and "locks s' = locks s"
    and "this_worker s' = this_worker s" and "freed s' = freed s"
    and "fd_ep_events (fds s' d) = calc_epoll_event_mask s (evl s (Fd_events d))"
    and "\<And>x. err_hup (fds s' x) = err_hup (fds s x)" and "cr_current s' = cr_current s"
proof (cases "calc_epoll_event_mask s (evl s (Fd_events d)) = fd_ep_events (fds s d)")
  case True
  then have "arm d s = Inr (0, s)" by (simp add: arm_def op_defs)
  then show thesis using that True by simp
next
  case False
  let ?m = "calc_epoll_event_mask s (evl s (Fd_events d))"
  let ?t = "upd_fd d (fd_ep_events_update (\<lambda>_. ?m)) s"
  have "arm d s = Inr (sysres s (length (syslog s)),
      ?t\<lparr>syslog := syslog s @ [Epoll_ctl (d_efd (cur_domain s)) EPOLL_CTL_MOD (fd_fd (fds s d)) ?m]\<rparr>)"
    using False by (simp add: arm_def tcfd_epoll_ctl_def op_defs upd_defs Let_def)
  then show thesis by (rule that) (simp_all add: upd_defs)
qed

lemma add_event_fd_err:
  assumes "err_hup (fds s d)" and "free_lock s (L_list (Fd_events d))"
  shows "\<exists>s'. add_event_fd e ep fl d s = Inr (3, s') \<and> evl s' = evl s \<and> thr s' = thr s \<and>
    locks s' = locks s \<and> syslog s' = syslog s \<and> immediate_count s' = immediate_count s \<and>
    (\<forall>x. x \<noteq> e \<longrightarrow> evs s' x = evs s x) \<and> ev_el (evs s' e) = None"
  using assms
  by (simp add: add_event_fd_def op_defs upd_defs RV_FAILED_int_def free_lock_def tc_event_init_def fun_upd_idem)

lemma add_event_fd_run:
  assumes wf: "wf_ev s" and e: "ev_el (evs s e) = None" and n: "\<not> err_hup (fds s d)"
    and f: "free_lock s (L_list (Fd_events d))"
  shows "\<exists>rv s'. add_event_fd e ep fl d s = Inr (rv, s') \<and> wf_ev s' \<and> locks s' = locks s \<and>
    (rv = 0 \<longrightarrow> evl s' = (evl s)(Fd_events d := evl s (Fd_events d) @ [e]) \<and>
      fd_ep_events (fds s' d) = ep OR calc_epoll_event_mask s (evl s (Fd_events d))) \<and>
    (rv \<noteq> 0 \<longrightarrow> evl s' = evl s \<and> (\<forall>t. refcnt (thr s' t) = refcnt (thr s t)))"
proof -
  let ?L = "L_list (Fd_events d)" and ?t = "cr_current s"
  define a where "a = (tc_event_init e (upd_ev e (\<lambda>v. v\<lparr>ev_u := Ep_events ep, ev_flags := fl\<rparr>) s))
    \<lparr>locks := (locks s)(?L := Some (this_worker s))\<rparr>"
  have a: "ev_el (evs a x) = ev_el (evs s x)" "evl a = evl s" "thr a = thr s" "holds a ?L"
    "immediate_count a = immediate_count s" "ev_tc (evs a x) = ev_tc (evs s x)"
    "cr_current a = cr_current s" "err_hup (fds a d) = err_hup (fds s d)"
    "ep_events_of (evs a e) = ep" "x \<noteq> e \<Longrightarrow> ep_events_of (evs a x) = ep_events_of (evs s x)" for x
    using e by (simp_all add: a_def tc_event_init_def upd_defs holds_def ep_events_of_def)
  have wfa: "wf_ev a" using wf_ev_cong_events [of a s] a wf by simp
  let ?b = "link e (Fd_events d) ?t a"
  have add: "u_add_event e (Fd_events d) ?t a = Inr ((), ?b)" using u_add_event_eq a e by simp
  have wfb: "wf_ev ?b" using wf_ev_link [OF wfa] a e by simp
  obtain rv c where c: "arm d ?b = Inr (rv, c)" "evs c = evs ?b" "evl c = evl ?b" "thr c = thr ?b"
    "immediate_count c = immediate_count ?b" "locks c = locks ?b" "this_worker c = this_worker ?b"
    "fd_ep_events (fds c d) = calc_epoll_event_mask ?b (evl ?b (Fd_events d))"
    by (rule arm_result [of d ?b])
  have wfc: "wf_ev c" using wfb wf_ev_cong c by metis
  have hc: "holds c ?L" and elc: "ev_el (evs c e) = Some (Fd_events d)"
    using a c by (simp_all add: holds_def link_def)
  have rm: "u_remove_event e (Fd_events d) c = Inr ((), unlink e (Fd_events d) c)"
    by (rule u_remove_event_eq [OF wfc elc hc])
  have nin: "e \<notin> set (evl s (Fd_events d))" using wf_evD(2) [OF wf] e by simp
  have snoc: "calc_epoll_event_mask x (es @ [e]) = ep_events_of (evs x e) OR calc_epoll_event_mask x es" for x es
    by (induction es) (auto simp: or.left_commute)
  have cong: "calc_epoll_event_mask ?b es = calc_epoll_event_mask s es" if "e \<notin> set es" for es
    using that a by (induction es) (auto simp: link_def ep_events_of_def)
  have mask: "fd_ep_events (fds c d) = ep OR calc_epoll_event_mask s (evl s (Fd_events d))"
    using c(8) a nin snoc [of ?b] cong by (simp add: link_def ep_events_of_def)
  define r where "r = (if rv = 0 then c else unlink e (Fd_events d) c)\<lparr>locks := locks s\<rparr>"
  have lk: "(locks s)(?L := None) = locks s" using f by (simp add: free_lock_def fun_upd_idem)
  have pre: "block [mdf (upd_ev e (\<lambda>v. v\<lparr>ev_u := Ep_events ep, ev_flags := fl\<rparr>)),
       mdf (tc_event_init e), spin_lock ?L] s = Inr ((), a)"
    using f by (simp add: op_defs upd_defs free_lock_def a_def tc_event_init_def)
  have lc: "(locks c)(?L := None) = locks s"
    using c(6) lk by (simp add: a_def fun_upd_upd)
  have "add_event_fd e ep fl d s = Inr (rv, r)"
    unfolding add_event_fd_def thn_def bnd_def pre using n add c(1) rm a(7,8) lc
    by (simp add: op_defs tc_current_def r_def)
  moreover have "wf_ev r"
    using wfc wf_ev_unlink [OF wfc elc] by (auto simp: r_def wf_ev_def refs_def)
  moreover have "rv = 0 \<longrightarrow> evl r = (evl s)(Fd_events d := evl s (Fd_events d) @ [e]) \<and>
      fd_ep_events (fds r d) = ep OR calc_epoll_event_mask s (evl s (Fd_events d))"
    using a c mask by (simp add: r_def link_def)
  moreover have "rv \<noteq> 0 \<longrightarrow> evl r = evl s \<and> (\<forall>t. refcnt (thr r t) = refcnt (thr s t))"
    using a c nin by (auto simp: r_def link_def unlink_def)
  moreover have "locks r = locks s" by (simp add: r_def)
  ultimately show ?thesis by blast
qed

section \<open>Properties\<close>

text \<open>Two threads wait for input on descriptor 3: thread 1 with \<^verbatim>\<open>tc_wait_fd\<close>, bound to worker \<open>n\<close>, then
  thread 2 with \<^verbatim>\<open>tc_wait_fd_prio\<close>, bound to worker 5. Worker 0 holds the lock of the list.\<close>

definition two_readers :: "int \<Rightarrow> tcr" where
  "two_readers n = (link 11 (Fd_events 3) 2 (link 10 (Fd_events 3) 1 (process_image\<lparr>
     thr := (\<lambda>_. zero_thread)(1 := zero_thread\<lparr>worker_nr := n\<rparr>, 2 := zero_thread\<lparr>worker_nr := 5\<rparr>),
     evs := (\<lambda>_. zero_event)(10 := zero_event\<lparr>ev_u := Ep_events EPOLLIN\<rparr>,
        11 := zero_event\<lparr>ev_u := Ep_events EPOLLIN, ev_flags := EF_PRIORITY\<rparr>)\<rparr>)))
     \<lparr>locks := (\<lambda>_. None)(L_list (Fd_events 3) := Some 0)\<rparr>"

lemma two_readers_simps [simp]:
  "evl (two_readers n) (Fd_events 3) = [10, 11]" "evl (two_readers n) Immediate = []"
  "ev_el (evs (two_readers n) 10) = Some (Fd_events 3)" "ev_el (evs (two_readers n) 11) = Some (Fd_events 3)"
  "holds (two_readers n) (L_list (Fd_events 3))" "free_lock (two_readers n) (L_list Immediate)"
  "ev_flags (evs (two_readers n) 10) = EF_READY" "ev_flags (evs (two_readers n) 11) = EF_PRIORITY"
  "ep_events_of (evs (two_readers n) 10) = EPOLLIN" "ep_events_of (evs (two_readers n) 11) = EPOLLIN"
  "on_this_worker (two_readers n) 10 \<longleftrightarrow> n = 0" "\<not> on_this_worker (two_readers n) 11"
  by (simp_all add: two_readers_def link_def holds_def free_lock_def ep_events_of_def on_this_worker_def)

lemma wf_two_readers [simp]: "wf_ev (two_readers n)"
proof -
  let ?s = "process_image\<lparr>
     thr := (\<lambda>_. zero_thread)(1 := zero_thread\<lparr>worker_nr := n\<rparr>, 2 := zero_thread\<lparr>worker_nr := 5\<rparr>),
     evs := (\<lambda>_. zero_event)(10 := zero_event\<lparr>ev_u := Ep_events EPOLLIN\<rparr>,
        11 := zero_event\<lparr>ev_u := Ep_events EPOLLIN, ev_flags := EF_PRIORITY\<rparr>)\<rparr>"
  have "wf_ev ?s" by (simp add: wf_ev_def refs_def)
  then have "wf_ev (link 11 (Fd_events 3) 2 (link 10 (Fd_events 3) 1 ?s))"
    by (intro wf_ev_link) (simp_all add: link_def)
  then show ?thesis by (simp add: two_readers_def wf_ev_def refs_def)
qed

lemma hits_two_readers [simp]:
  "hits (two_readers n) EPOLLIN EPOLLIN 10" "hits (two_readers n) EPOLLIN EPOLLIN 11"
  "\<not> hits (two_readers n) EPOLLIN EPOLLOUT 10" "\<not> hits (two_readers n) EPOLLIN EPOLLOUT 11"
  by (simp_all add: hits_iff bit_EPOLLIN)



text \<open>If none of the waiters belongs to the worker that handles the report, nobody waits for output, and at least
  one waiter for input came through \<^verbatim>\<open>tc_wait_fd_prio\<close>, then \<^verbatim>\<open>matching_event\<close> returns such a priority waiter and
  wakes nobody else.\<close>

lemma matching_event_priority:
  assumes "\<forall>e \<in> set (evl s l). \<not> on_this_worker s e"
    and "\<forall>e \<in> set (evl s l). \<not> hits s em EPOLLOUT e"
    and "\<exists>e \<in> set (evl s l). hits s em EPOLLIN e \<and> ev_flags (evs s e) = EF_PRIORITY"
  shows "\<exists>p \<in> set (evl s l). matching_event em l s = Inr (Some p, s) \<and> ev_flags (evs s p) = EF_PRIORITY"
proof -
  obtain i out ew where m: "match_loop s em (evl s l) None None None = (i, out, ew)"
    by (metis prod_cases3)
  have "ew = None" using match_loop_no_local [OF assms(1), of em None None None] m by simp
  moreover have "out = None" using match_loop_complete [OF m] assms(2) by simp
  moreover obtain p where "p \<in> set (evl s l)" "i = Some p" "ev_flags (evs s p) = EF_PRIORITY"
    using match_loop_priority_in [OF assms(1,3), of None None None] m by auto
  ultimately show ?thesis using matching_event_cases [OF m] by auto
qed

lemma matching_event_priority_witness:
  "matching_event EPOLLIN (Fd_events 3) (two_readers 5) = Inr (Some 11, two_readers 5)"
proof -
  have "\<exists>p \<in> set (evl (two_readers 5) (Fd_events 3)).
      matching_event EPOLLIN (Fd_events 3) (two_readers 5) = Inr (Some p, two_readers 5) \<and>
      ev_flags (evs (two_readers 5) p) = EF_PRIORITY"
    by (rule matching_event_priority) simp_all
  then show ?thesis by auto
qed

text \<open>The precedence that the manual page promises for \<^verbatim>\<open>tc_wait_fd_prio\<close> does not hold when a plain waiter
  belongs to the worker that handles the report: for one report of input, \<^verbatim>\<open>matching_event\<close> returns the plain waiter
  and also moves the priority waiter to the immediate list, so both wake up.\<close>

lemma matching_event_local_beats_priority:
  assumes "evl s l = [a, b]" and "a \<noteq> b" and "on_this_worker s a" and "\<not> on_this_worker s b"
    and "ev_flags (evs s a) = EF_READY" and "ev_flags (evs s b) = EF_PRIORITY"
    and "ep_events_of (evs s a) = EPOLLIN" and "ep_events_of (evs s b) = EPOLLIN"
    and "ev_el (evs s b) = Some l" and "holds s (L_list l)" and "free_lock s (L_list Immediate)"
  shows "matching_event EPOLLIN l s = Inr (Some a, relink b l Immediate s)"
proof -
  have "hits s EPOLLIN EPOLLIN a" "hits s EPOLLIN EPOLLIN b" "\<not> hits s EPOLLIN EPOLLOUT a"
    "\<not> hits s EPOLLIN EPOLLOUT b" "\<not> hits s (EPOLLIN AND NOT EPOLLIN) EPOLLOUT b"
    using assms by (simp_all add: hits_iff bit_EPOLLIN clear_bits)
  moreover have "EPOLLIN \<noteq> 0" by (simp add: EPOLLIN_def)
  ultimately have "match_loop s EPOLLIN (evl s l) None None None = (Some b, None, Some a)"
    using assms by (simp add: match_dir_hits)
  from matching_event_cases [OF this] show ?thesis
    using assms move_to_immediate_eq [OF assms(9,10,11)] by (simp add: thn_def bnd_def ret_def)
qed

lemma matching_event_local_beats_priority_witness:
  "matching_event EPOLLIN (Fd_events 3) (two_readers 0) =
     Inr (Some 10, relink 11 (Fd_events 3) Immediate (two_readers 0))"
  by (rule matching_event_local_beats_priority) simp_all

text \<open>A single waiter for both directions is handed out twice when the kernel reports both: \<^verbatim>\<open>matching_event\<close>
  returns the event and has moved the same event to the immediate list.\<close>

lemma matching_event_duplex:
  assumes "wf_ev s" and "evl s l = [e]" and "bit (ep_events_of (evs s e)) 0" and "bit (ep_events_of (evs s e)) 2"
    and "bit em 0" and "bit em 2" and "ev_flags (evs s e) \<noteq> EF_PRIORITY"
    and "holds s (L_list l)" and "free_lock s (L_list Immediate)"
  shows "matching_event em l s = Inr (Some e, relink e l Immediate s)"
proof -
  have el: "ev_el (evs s e) = Some l" using wf_evD(2) [OF assms(1), of e l] assms(2) by simp
  have "em \<noteq> 0" using assms(5) by auto
  then have "match_loop s em (evl s l) None None None =
      (Some e, Some e, if on_this_worker s e then Some e else None)"
    using assms by (simp add: match_dir_hits hits_iff)
  from matching_event_cases [OF this] show ?thesis
    using move_to_immediate_eq [OF el assms(8,9)] by (simp add: thn_def bnd_def ret_def)
qed

text \<open>On an error or hang-up, \<^verbatim>\<open>wakeup_all_events\<close> leaves exactly one waiter on the descriptor's list, the one it
  returns (none if the list was empty), and moves all others behind the immediate list; the one it
  returns belongs to this worker if any waiter does.\<close>

lemma wakeup_all_events_correct:
  assumes "wf_ev s" and "holds s (L_list l)" and "free_lock s (L_list Immediate)"
  shows "\<exists>r s' ms. wakeup_all_events l s = Inr (r, s') \<and> wf_ev s' \<and> locks s' = locks s \<and>
    evl s' l = opt_list r \<and> evl s' Immediate = evl s Immediate @ ms \<and>
    mset (opt_list r @ ms) = mset (evl s l) \<and>
    ((\<exists>e \<in> set (evl s l). on_this_worker s e) \<longrightarrow> (\<exists>w. r = Some w \<and> on_this_worker s w))"
proof -
  have l: "l \<noteq> Immediate" using assms(2,3) by (auto simp: holds_def free_lock_def)
  obtain r ms where w: "wakeup_all_events l s = Inr (r, relinks ms l s)"
    "mset (opt_list r @ ms) = mset (evl s l)"
    "\<And>e. e \<in> set (evl s l) \<Longrightarrow> on_this_worker s e \<Longrightarrow> \<exists>w. r = Some w \<and> on_this_worker s w"
    using wakeup_all_events_result [OF assms] by blast
  have d: "distinct (opt_list r @ ms)"
    using w(2) wf_evD(1) [OF assms(1)] mset_eq_imp_distinct_iff by blast
  have "set ms \<subseteq> set (evl s l)" using mset_eq_setD [OF w(2)] by auto
  then have "ev_el (evs s e) = Some l" if "e \<in> set ms" for e
    using that wf_evD(2) [OF assms(1)] by blast
  then have R: "wf_ev (relinks ms l s)" "evl (relinks ms l s) Immediate = evl s Immediate @ ms"
    "evl (relinks ms l s) l = filter (\<lambda>e. e \<notin> set ms) (evl s l)" "locks (relinks ms l s) = locks s"
    using relinks_result [OF assms(1) _ _ l, of ms] d by auto
  have "mset (filter (\<lambda>e. e \<notin> set ms) (evl s l)) = mset (opt_list r)"
    by (rule filter_distinct_split [OF d w(2) [symmetric]])
  then have "filter (\<lambda>e. e \<notin> set ms) (evl s l) = opt_list r"
    by (cases r) (simp_all del: mset_filter)
  then have "evl (relinks ms l s) l = opt_list r" using R(3) by simp
  moreover have "(\<exists>e \<in> set (evl s l). on_this_worker s e) \<longrightarrow> (\<exists>w. r = Some w \<and> on_this_worker s w)"
    using w(3) by blast
  ultimately show ?thesis using w(1,2) R(1,2,4)
    by (intro exI [of _ r] exI [of _ "relinks ms l s"] exI [of _ ms] conjI)
qed

lemma wakeup_all_events_correct_witness:
  "\<exists>s'. wakeup_all_events (Fd_events 3) (two_readers 0) = Inr (Some 10, s') \<and> evl s' Immediate = [11]"
proof -
  obtain r s' ms where w: "wakeup_all_events (Fd_events 3) (two_readers 0) = Inr (r, s')"
    "evl s' Immediate = evl (two_readers 0) Immediate @ ms"
    "mset (opt_list r @ ms) = mset (evl (two_readers 0) (Fd_events 3))"
    "(\<exists>e \<in> set (evl (two_readers 0) (Fd_events 3)). on_this_worker (two_readers 0) e) \<longrightarrow>
      (\<exists>w. r = Some w \<and> on_this_worker (two_readers 0) w)"
    using wakeup_all_events_correct [of "two_readers 0" "Fd_events 3"] by auto
  then obtain w where "r = Some w" "on_this_worker (two_readers 0) w" by auto
  moreover have "w = 10 \<or> w = 11" using mset_eq_setD [OF w(3)] \<open>r = Some w\<close> by auto
  ultimately have "r = Some 10" by auto
  then have "ms = [11]" using w(3) by (auto simp: add_mset_commute)
  then show ?thesis using w \<open>r = Some 10\<close> by auto
qed



end
