(* ===== verification/Clist.thy ===== *)
theory Clist
  imports Prelude
begin

text \<open>
  The head-less circular list of \<^verbatim>\<open>clist.h\<close>, at the level of its pointers. \<open>ring h a xs\<close> says that the
  \<^verbatim>\<open>cl_next\<close> pointers lead from the element \<open>a\<close> through \<open>xs\<close> back to \<open>a\<close> and that the \<^verbatim>\<open>cl_prev\<close> pointers are
  their inverse. The locale \<open>sleeper_ring\<close> is the contract that the code for sleeping workers relies on; the macros satisfy it.
\<close>

section \<open>The macros\<close>

record clist_heap =
  cl_next :: "nat \<Rightarrow> nat"
  cl_prev :: "nat \<Rightarrow> nat"

definition set_next :: "nat \<Rightarrow> nat \<Rightarrow> clist_heap \<Rightarrow> clist_heap" where
  "set_next a b h = h\<lparr>cl_next := (cl_next h)(a := b)\<rparr>"

definition set_prev :: "nat \<Rightarrow> nat \<Rightarrow> clist_heap \<Rightarrow> clist_heap" where
  "set_prev a b h = h\<lparr>cl_prev := (cl_prev h)(a := b)\<rparr>"

definition CLIST_INIT :: "nat \<Rightarrow> clist_heap \<Rightarrow> clist_heap" where
  "CLIST_INIT elm h = set_prev elm elm (set_next elm elm h)"

definition CLIST_INSERT_AFTER :: "nat \<Rightarrow> nat \<Rightarrow> clist_heap \<Rightarrow> clist_heap" where
  "CLIST_INSERT_AFTER listelm elm h0 =
     (let h1 = set_next elm (cl_next h0 listelm) h0;
          h2 = set_prev elm listelm h1;
          h3 = set_prev (cl_next h2 listelm) elm h2
      in set_next listelm elm h3)"

definition CLIST_REMOVE :: "nat \<Rightarrow> clist_heap \<Rightarrow> clist_heap" where
  "CLIST_REMOVE elm h0 =
     (let h1 = set_prev (cl_next h0 elm) (cl_prev h0 elm) h0
      in set_next (cl_prev h1 elm) (cl_next h1 elm) h1)"

definition CLIST_EMPTY :: "nat \<Rightarrow> clist_heap \<Rightarrow> bool" where
  "CLIST_EMPTY elm h \<longleftrightarrow> cl_next h elm = elm"

text \<open>The traversal \<^verbatim>\<open>list = head.cl_next; while (list != &head) ... list = list->cl_next\<close>, for at most
  \<open>n\<close> elements.\<close>

fun clist_walk :: "nat \<Rightarrow> nat \<Rightarrow> nat \<Rightarrow> clist_heap \<Rightarrow> nat list" where
  "clist_walk 0 a cur h = []"
| "clist_walk (Suc n) a cur h = (if cur = a then [] else cur # clist_walk n a (cl_next h cur) h)"

lemmas clist_defs = set_next_def set_prev_def CLIST_INIT_def CLIST_INSERT_AFTER_def CLIST_REMOVE_def
  CLIST_EMPTY_def Let_def

section \<open>The ring\<close>

fun chain :: "clist_heap \<Rightarrow> nat list \<Rightarrow> bool" where
  "chain h [] = True"
| "chain h [x] = True"
| "chain h (x # y # zs) = (cl_next h x = y \<and> cl_prev h y = x \<and> chain h (y # zs))"

definition ring :: "clist_heap \<Rightarrow> nat \<Rightarrow> nat list \<Rightarrow> bool" where
  "ring h a xs \<longleftrightarrow> distinct (a # xs) \<and> chain h (a # xs @ [a])"

lemma chain_append:
  "chain h (xs @ y # ys) \<longleftrightarrow> chain h (xs @ [y]) \<and> chain h (y # ys)"
  by (induction xs rule: chain.induct) auto

lemma chain_cong:
  assumes "\<And>x. x \<in> set (butlast xs) \<Longrightarrow> cl_next h' x = cl_next h x"
    and "\<And>x. x \<in> set (tl xs) \<Longrightarrow> cl_prev h' x = cl_prev h x"
  shows "chain h' xs = chain h xs"
  using assms by (induction xs rule: chain.induct) auto

lemma ring_init: "ring (CLIST_INIT a h) a []"
  by (simp add: ring_def clist_defs)

lemma ring_empty: "ring h a xs \<Longrightarrow> CLIST_EMPTY a h \<longleftrightarrow> xs = []"
  by (cases xs) (auto simp: ring_def CLIST_EMPTY_def)

lemma ring_insert:
  assumes r: "ring h a xs" and e: "e \<notin> set (a # xs)"
  shows "ring (CLIST_INSERT_AFTER a e h) a (e # xs)"
proof (cases xs)
  case Nil
  then show ?thesis using r e by (auto simp: ring_def clist_defs)
next
  case (Cons y zs)
  let ?h = "CLIST_INSERT_AFTER a e h"
  have y: "cl_next h a = y" and d: "distinct (a # y # zs)" and c: "chain h ((y # zs) @ [a])"
    using r Cons by (auto simp: ring_def)
  have "chain ?h ((y # zs) @ [a]) = chain h ((y # zs) @ [a])"
  proof (rule chain_cong)
    fix x assume "x \<in> set (butlast ((y # zs) @ [a]))"
    then have "x \<in> set (y # zs)" by (simp only: butlast_snoc)
    then show "cl_next ?h x = cl_next h x" using d e Cons by (auto simp: clist_defs)
  next
    fix x assume "x \<in> set (tl ((y # zs) @ [a]))"
    then show "cl_prev ?h x = cl_prev h x" using d e Cons y by (auto simp: clist_defs)
  qed
  then show ?thesis
    using Cons d e y c by (auto simp: ring_def clist_defs)
qed

lemma ring_remove:
  assumes r: "ring h a (xs @ e # ys)"
  shows "ring (CLIST_REMOVE e h) a (xs @ ys)"
proof -
  let ?h = "CLIST_REMOVE e h"
  have d: "distinct (a # xs @ e # ys)" and c: "chain h ((a # xs) @ e # ys @ [a])"
    using r by (auto simp: ring_def)
  obtain p ps where p: "a # xs = ps @ [p]" by (metis rev_exhaust list.distinct(1))
  obtain q qs where q: "ys @ [a] = q # qs" by (cases ys) auto
  have c1: "chain h (ps @ [p, e])" and c2: "chain h (e # q # qs)"
    using c p q chain_append [of h "a # xs" e "ys @ [a]"] by auto
  have pe: "cl_next h p = e" "cl_prev h e = p" "chain h (ps @ [p])"
    using c1 chain_append [of h ps p "[e]"] by auto
  have eq: "cl_next h e = q" "cl_prev h q = e" "chain h (q # qs)" using c2 by auto
  have sp: "set ps \<union> {p} = insert a (set xs)" using arg_cong [OF p, of set] by auto
  have sq: "insert q (set qs) = insert a (set ys)" using arg_cong [OF q, of set] by auto
  have dp: "distinct (ps @ [p])" and dq: "distinct (q # qs)"
    using d by (simp_all add: p [symmetric] q [symmetric])
  have h: "cl_next ?h = (cl_next h)(p := q)" "cl_prev ?h = (cl_prev h)(q := p)"
    using pe eq d sp by (auto simp: clist_defs)
  have "chain ?h (ps @ [p]) = chain h (ps @ [p])"
  proof (rule chain_cong)
    fix x assume "x \<in> set (butlast (ps @ [p]))"
    then show "cl_next ?h x = cl_next h x" using dp h by auto
  next
    fix x assume "x \<in> set (tl (ps @ [p]))"
    then have "x \<in> set xs" by (simp add: p [symmetric])
    then show "cl_prev ?h x = cl_prev h x" using d h sq by auto
  qed
  moreover have "chain ?h (q # qs) = chain h (q # qs)"
  proof (rule chain_cong)
    fix x assume "x \<in> set (butlast (q # qs))"
    then have "x \<in> set ys" by (metis q butlast_snoc)
    then show "cl_next ?h x = cl_next h x" using d h sp by auto
  next
    fix x assume "x \<in> set (tl (q # qs))"
    then show "cl_prev ?h x = cl_prev h x" using dq h by auto
  qed
  moreover have "cl_next ?h p = q" "cl_prev ?h q = p" by (simp_all add: h)
  ultimately have "chain ?h (ps @ p # q # qs)"
    using pe eq chain_append [of ?h ps p "q # qs"] by simp
  then have "chain ?h (a # xs @ ys @ [a])" using p q by (metis append.assoc append_Cons append_Nil)
  then show ?thesis using d by (auto simp: ring_def)
qed

lemma walk_chain:
  "chain h (xs @ [a]) \<Longrightarrow> a \<notin> set xs \<Longrightarrow> length xs \<le> n \<Longrightarrow> clist_walk n a (hd (xs @ [a])) h = xs"
proof (induction xs arbitrary: n)
  case Nil
  then show ?case by (cases n) auto
next
  case (Cons x xs)
  then obtain m where n: "n = Suc m" by (cases n) auto
  obtain y ys where y: "xs @ [a] = y # ys" by (cases xs) auto
  then have "cl_next h x = y" "chain h (xs @ [a])" using Cons.prems(1) by auto
  then show ?case using Cons y n by auto
qed

lemma ring_walk: "ring h a xs \<Longrightarrow> length xs \<le> n \<Longrightarrow> clist_walk n a (cl_next h a) h = xs"
proof -
  assume r: "ring h a xs" and n: "length xs \<le> n"
  obtain y ys where y: "xs @ [a] = y # ys" by (cases xs) auto
  then have "cl_next h a = hd (xs @ [a])" "chain h (xs @ [a])" using r by (auto simp: ring_def)
  then show ?thesis using walk_chain r n by (auto simp: ring_def)
qed

section \<open>The contract of the ring of sleeping workers\<close>

datatype ring_op = R_add nat | R_del nat | R_reset

text \<open>A sequence of operations on the implementation, and on a list, where \<open>None\<close> says that an operation was
  used outside its contract.\<close>

fun ring_run :: "('h \<Rightarrow> 'h) \<Rightarrow> (nat \<Rightarrow> 'h \<Rightarrow> 'h) \<Rightarrow> (nat \<Rightarrow> 'h \<Rightarrow> 'h) \<Rightarrow> ring_op list \<Rightarrow> 'h \<Rightarrow> 'h" where
  "ring_run r a d [] h = h"
| "ring_run r a d (R_add x # ops) h = ring_run r a d ops (a x h)"
| "ring_run r a d (R_del x # ops) h = ring_run r a d ops (d x h)"
| "ring_run r a d (R_reset # ops) h = ring_run r a d ops (r h)"

fun list_run :: "(nat \<Rightarrow> bool) \<Rightarrow> ring_op list \<Rightarrow> nat list \<Rightarrow> nat list option" where
  "list_run ok [] xs = Some xs"
| "list_run ok (R_add x # ops) xs = (if ok x \<and> x \<notin> set xs then list_run ok ops (x # xs) else None)"
| "list_run ok (R_del x # ops) xs = (if x \<in> set xs then list_run ok ops (remove1 x xs) else None)"
| "list_run ok (R_reset # ops) xs = list_run ok ops []"

locale sleeper_ring =
  fixes repr :: "'h \<Rightarrow> nat list \<Rightarrow> bool"
    and reset :: "'h \<Rightarrow> 'h"
    and add :: "nat \<Rightarrow> 'h \<Rightarrow> 'h"
    and del :: "nat \<Rightarrow> 'h \<Rightarrow> 'h"
    and isempty :: "'h \<Rightarrow> bool"
    and walk :: "nat \<Rightarrow> 'h \<Rightarrow> nat list"
    and ok :: "nat \<Rightarrow> bool"
  assumes repr_reset: "repr (reset h) []"
    and repr_add: "repr h xs \<Longrightarrow> ok x \<Longrightarrow> x \<notin> set xs \<Longrightarrow> repr (add x h) (x # xs)"
    and repr_del: "repr h xs \<Longrightarrow> x \<in> set xs \<Longrightarrow> repr (del x h) (remove1 x xs)"
    and repr_empty: "repr h xs \<Longrightarrow> isempty h \<longleftrightarrow> xs = []"
    and repr_walk: "repr h xs \<Longrightarrow> length xs \<le> n \<Longrightarrow> walk n h = xs"
begin

lemma run_refines:
  "list_run ok ops xs = Some ys \<Longrightarrow> repr h xs \<Longrightarrow> repr (ring_run reset add del ops h) ys"
proof (induction ops arbitrary: xs h)
  case Nil
  then show ?case by simp
next
  case (Cons op ops)
  then show ?case
    by (cases op) (auto split: if_splits intro: repr_add repr_del repr_reset)
qed

lemma run_walk:
  "list_run ok ops xs = Some ys \<Longrightarrow> repr h xs \<Longrightarrow> length ys \<le> n \<Longrightarrow>
    walk n (ring_run reset add del ops h) = ys \<and> (isempty (ring_run reset add del ops h) \<longleftrightarrow> ys = [])"
  using run_refines repr_walk repr_empty by blast

end

interpretation sleepers: sleeper_ring "\<lambda>h xs. ring h a xs" "CLIST_INIT a" "CLIST_INSERT_AFTER a" CLIST_REMOVE
  "CLIST_EMPTY a" "\<lambda>n h. clist_walk n a (cl_next h a) h" "\<lambda>x. x \<noteq> a" for a
proof unfold_locales
  fix h xs x
  assume r: "ring h a xs" and x: "x \<in> set xs"
  then obtain ys zs where s: "xs = ys @ x # zs" and n: "x \<notin> set ys" using split_list_first by metis
  then have "remove1 x xs = ys @ zs" by (simp add: remove1_append)
  then show "ring (CLIST_REMOVE x h) a (remove1 x xs)" using ring_remove r s by simp
qed (auto intro: ring_init ring_insert ring_walk simp: ring_empty)

section \<open>Properties\<close>

text \<open>C24: The pointer macros of \<^verbatim>\<open>clist.h\<close> implement a list: after \<^verbatim>\<open>CLIST_INIT\<close> of a head element and any
  sequence of \<^verbatim>\<open>CLIST_INSERT_AFTER\<close> the head, \<^verbatim>\<open>CLIST_REMOVE\<close> and \<^verbatim>\<open>CLIST_INIT\<close> that inserts only elements
  which are not in the list and removes only elements which are, following the \<^verbatim>\<open>cl_next\<close> pointers
  from the head meets exactly the elements of the list, in order, and \<^verbatim>\<open>CLIST_EMPTY\<close> tells whether there are any.\<close>

theorem clist_refines_list:
  assumes "list_run (\<lambda>x. x \<noteq> a) ops [] = Some ys"
  shows "let h = ring_run (CLIST_INIT a) (CLIST_INSERT_AFTER a) CLIST_REMOVE ops (CLIST_INIT a h0)
    in clist_walk (length ys) a (cl_next h a) h = ys \<and> (CLIST_EMPTY a h \<longleftrightarrow> ys = [])"
  using sleepers.run_walk [OF assms ring_init order_refl] by (simp add: Let_def)

theorem clist_refines_list_witness:
  "let h = ring_run (CLIST_INIT 0) (CLIST_INSERT_AFTER 0) CLIST_REMOVE
      [R_add 1, R_add 2, R_add 3, R_del 2] (CLIST_INIT 0 \<lparr>cl_next = (\<lambda>_. 0), cl_prev = (\<lambda>_. 0)\<rparr>)
    in clist_walk 2 0 (cl_next h 0) h = [3, 1] \<and> \<not> CLIST_EMPTY 0 h"
  using clist_refines_list [of 0 "[R_add 1, R_add 2, R_add 3, R_del 2]" "[3, 1]"
      "\<lparr>cl_next = (\<lambda>_. 0), cl_prev = (\<lambda>_. 0)\<rparr>"] by (simp add: Let_def numeral_2_eq_2)

end
