(* ===== verification/Circleq.thy ===== *)
theory Circleq
  imports Prelude
begin

text \<open>
  \<^verbatim>\<open>CIRCLEQ_CUT_BEFORE\<close> (\<^verbatim>\<open>threaded_cr.c\<close>), which extends the circular queues of \<^verbatim>\<open>sys/queue.h\<close>, at the level of its pointers: cutting a queue before one of its elements
  leaves the elements before it in the queue and moves the others to a second one. In such a queue the head has pointers to the first and the last element, and the
  pointers of these that lead out of the queue have the address of the head.
\<close>

record queue_heap =
  cqh_first :: "nat \<Rightarrow> nat"
  cqh_last :: "nat \<Rightarrow> nat"
  cqe_next :: "nat \<Rightarrow> nat"
  cqe_prev :: "nat \<Rightarrow> nat"

definition CIRCLEQ_EMPTY :: "nat \<Rightarrow> queue_heap \<Rightarrow> bool" where
  "CIRCLEQ_EMPTY head s \<longleftrightarrow> cqh_first s head = head"

text \<open>\<open>None\<close>: an assertion of the macro fails; 0 is the null pointer.\<close>

definition CIRCLEQ_CUT_BEFORE :: "nat \<Rightarrow> nat \<Rightarrow> nat \<Rightarrow> queue_heap \<Rightarrow> queue_heap option" where
  "CIRCLEQ_CUT_BEFORE head elm new_cq s =
     (if elm = 0 \<or> CIRCLEQ_EMPTY head s \<or> elm = head then None
      else let head_last = cqe_prev s elm;
               new_last = cqh_last s head;
               s1 = s\<lparr>cqh_last := (cqh_last s)(head := head_last)\<rparr>;
               s2 = (if head_last = head then s1\<lparr>cqh_first := (cqh_first s1)(head := head)\<rparr>
                     else s1\<lparr>cqe_next := (cqe_next s1)(head_last := head)\<rparr>);
               s3 = s2\<lparr>cqh_first := (cqh_first s2)(new_cq := elm)\<rparr>;
               s4 = s3\<lparr>cqh_last := (cqh_last s3)(new_cq := new_last)\<rparr>;
               s5 = s4\<lparr>cqe_next := (cqe_next s4)(new_last := new_cq)\<rparr>
           in Some (s5\<lparr>cqe_prev := (cqe_prev s5)(elm := new_cq)\<rparr>))"

section \<open>Queues\<close>

text \<open>The elements \<open>xs\<close> are linked to each other, the first one back to \<open>p\<close> and the last one on to \<open>e\<close>.\<close>

fun linked :: "queue_heap \<Rightarrow> nat \<Rightarrow> nat list \<Rightarrow> nat \<Rightarrow> bool" where
  "linked s p [] e = True"
| "linked s p (x # xs) e \<longleftrightarrow> cqe_prev s x = p \<and> cqe_next s x = (if xs = [] then e else hd xs) \<and> linked s x xs e"

definition is_queue :: "nat \<Rightarrow> nat list \<Rightarrow> queue_heap \<Rightarrow> bool" where
  "is_queue h xs s \<longleftrightarrow> distinct xs \<and> h \<notin> set xs \<and> cqh_first s h = (if xs = [] then h else hd xs) \<and> cqh_last s h = (if xs = [] then h else last xs) \<and> linked s h xs h"

lemma linked_append: "linked s p (xs @ ys) e \<longleftrightarrow> linked s p xs (if ys = [] then e else hd ys) \<and> linked s (if xs = [] then p else last xs) ys e"
  by (induction xs arbitrary: p) auto

lemma linked_cong: "(\<And>x. x \<in> set xs \<Longrightarrow> cqe_next t x = cqe_next s x \<and> cqe_prev t x = cqe_prev s x) \<Longrightarrow> linked t p xs e = linked s p xs e"
  by (induction xs arbitrary: p) auto

text \<open>The pointers out of a segment can be redirected.\<close>

lemma linked_last:
  assumes "linked s p xs e" and "distinct xs" and "xs \<noteq> []" and "cqe_next t (last xs) = e'" and "\<And>x. cqe_prev t x = cqe_prev s x"
    and "\<And>x. x \<in> set xs \<Longrightarrow> x \<noteq> last xs \<Longrightarrow> cqe_next t x = cqe_next s x"
  shows "linked t p xs e'"
  using assms
proof (induction xs arbitrary: p)
  case (Cons x xs)
  have "xs \<noteq> [] \<Longrightarrow> x \<noteq> last xs" using Cons.prems(2) last_in_set [of xs] by (auto simp del: last_in_set)
  then show ?case using Cons by (cases "xs = []") auto
qed simp

lemma circleq_cut_before:
  assumes q: "is_queue h (xs @ ys) s" and ys: "ys \<noteq> []" "hd ys \<noteq> 0" and n: "n \<noteq> h" "n \<notin> set (xs @ ys)"
  shows "\<exists>t. CIRCLEQ_CUT_BEFORE h (hd ys) n s = Some t \<and> is_queue h xs t \<and> is_queue n ys t"
proof -
  obtain y zs where y: "ys = y # zs" using ys(1) by (cases ys) auto
  have d: "distinct (xs @ y # zs)" "h \<notin> set (xs @ y # zs)" and f: "cqh_first s h = hd (xs @ y # zs)" "cqh_last s h = last (y # zs)"
    and l: "linked s h xs y" "linked s (if xs = [] then h else last xs) (y # zs) h"
    using q by (auto simp: is_queue_def y linked_append)
  let ?p = "if xs = [] then h else last xs"
  have p: "cqe_prev s y = ?p" using l(2) by simp
  have ne: "\<not> CIRCLEQ_EMPTY h s" using f(1) d(2) by (auto simp: CIRCLEQ_EMPTY_def hd_append split: if_splits)
  have lx: "xs \<noteq> [] \<Longrightarrow> last xs \<noteq> h \<and> last xs \<noteq> y \<and> last xs \<notin> set (y # zs)" using d last_in_set [of xs] by (auto simp del: last_in_set)
  define t where "t = the (CIRCLEQ_CUT_BEFORE h y n s)"
  have e: "CIRCLEQ_CUT_BEFORE h y n s = Some t" using ne d(2) ys(2) by (simp add: t_def CIRCLEQ_CUT_BEFORE_def y Let_def)
  have T: "cqh_first t = (if xs = [] then (cqh_first s)(h := h) else cqh_first s)(n := y)" "cqh_last t = (cqh_last s)(h := ?p, n := last (y # zs))"
    "cqe_next t = (if xs = [] then cqe_next s else (cqe_next s)(last xs := h))(last (y # zs) := n)" "cqe_prev t = (cqe_prev s)(y := n)"
    using e ne d(2) ys(2) lx by (auto simp: CIRCLEQ_CUT_BEFORE_def y Let_def p f(2))
  have zl: "last (y # zs) \<in> set (y # zs)" by (rule last_in_set) simp
  have "linked t h xs h"
  proof (cases "xs = []")
    case False
    let ?u = "s\<lparr>cqe_next := (cqe_next s)(last xs := h)\<rparr>"
    have "linked ?u h xs h" by (rule linked_last [OF l(1)]) (use d False in auto)
    moreover have "linked t h xs h = linked ?u h xs h" by (rule linked_cong) (use d zl False in \<open>auto simp: T\<close>)
    ultimately show ?thesis by blast
  qed simp
  moreover have "linked t n (y # zs) n"
  proof -
    let ?u = "s\<lparr>cqe_next := (cqe_next s)(last (y # zs) := n)\<rparr>"
    have u: "linked ?u ?p (y # zs) n" by (rule linked_last [OF l(2)]) (use d in auto)
    have "linked t y zs n = linked ?u y zs n" by (rule linked_cong) (use d lx in \<open>auto simp: T\<close>)
    then show ?thesis using u lx by (auto simp: T)
  qed
  ultimately have "is_queue h xs t" "is_queue n (y # zs) t"
    using d n f by (auto simp: is_queue_def T y hd_append)
  then show ?thesis using e y by auto
qed

end
