(* ===== verification/Sync_Free.thy ===== *)
theory Sync_Free
  imports Tcr_State Clist
begin

text \<open>
  Sleeping workers and the deferred release of descriptors. A worker that is about to call
  \<^verbatim>\<open>epoll_wait\<close> puts itself on the ring of sleeping workers of its domain; a \<^verbatim>\<open>tc_fd\<close> that is unregistered may still be returned
  by the \<^verbatim>\<open>epoll_wait\<close> of a sleeping worker, so it is freed only after every worker that slept at that time has
  woken up. The ring is kept as the list of its elements, which is what the macros of \<^verbatim>\<open>clist.h\<close> implement
  (theory \<open>Clist\<close>).
\<close>

section \<open>Operations\<close>

definition u_tc_fd_free :: "fdid \<Rightarrow> unit tcop" where
  "u_tc_fd_free tcfd = free_obj (O_fd tcfd)"

definition u_process_free_list :: "lock \<Rightarrow> unit tcop" where
  "u_process_free_list lock_to_free = rdm (\<lambda>s.
     let cur = free_list (cur_domain s)
     in block [
       mdf (upd_dom (this_domain s) (free_list_update (\<lambda>_. []))),
       spin_unlock lock_to_free,
       formap u_tc_fd_free cur])"

definition worker_prepare_sleep :: "unit tcop" where
  "worker_prepare_sleep = rdm (\<lambda>s0.
     let d = this_domain s0; w = this_worker s0
     in block [
       spin_lock (L_sync d),
       whn (\<lambda>s. \<not> is_on_sleeping_list (wrk s w))
         (mdf (upd_dom d (sleeping_workers_update (\<lambda>ws. w # ws)))),
       mdf (upd_wrk w (is_on_sleeping_list_update (\<lambda>_. True))),
       spin_unlock (L_sync d)])"

definition worker_after_sleep :: "unit tcop" where
  "worker_after_sleep = rdm (\<lambda>s0.
     let d = this_domain s0; w = this_worker s0
     in block [
       spin_lock (L_sync d),
       whn (\<lambda>s. is_on_sleeping_list (wrk s w)) (block [
         mdf (upd_dom d (sleeping_workers_update (remove1 w))),
         mdf (upd_wrk w (is_on_sleeping_list_update (\<lambda>_. False)))]),
       ifm (\<lambda>s. must_sync (wrk s w))
         (block [
           mdf (upd_wrk w (must_sync_update (\<lambda>_. False))),
           mdf (upd_dom d (sync_barrier_update (\<lambda>n. n - 1))),
           ifm (\<lambda>s. sync_barrier (doms s d) = 0)
             (u_process_free_list (L_sync d))
             (spin_unlock (L_sync d))])
         (spin_unlock (L_sync d))])"

definition mark_sleeper :: "did \<Rightarrow> wid \<Rightarrow> unit tcop" where
  "mark_sleeper d w = whn (\<lambda>s. \<not> must_sync (wrk s w)) (block [
     mdf (upd_wrk w (must_sync_update (\<lambda>_. True))),
     mdf (upd_dom d (sync_barrier_update (\<lambda>n. n + 1))),
     mdf (upd_wrk w (is_on_sleeping_list_update (\<lambda>_. False))),
     rdm (\<lambda>s. sys_ignore (Tgkill (w_tid (wrk s w))))])"

definition store_for_later_free :: "fdid \<Rightarrow> unit tcop" where
  "store_for_later_free tcfd = rdm (\<lambda>s0.
     let d = this_domain s0
     in block [
       spin_lock (L_sync d),
       mdf (upd_dom d (free_list_update (\<lambda>fs. tcfd # fs))),
       whn (\<lambda>s. sleeping_workers (doms s d) \<noteq> []) (block [
         rdm (\<lambda>s. formap (mark_sleeper d) (sleeping_workers (doms s d))),
         mdf (upd_dom d (sleeping_workers_update (\<lambda>_. [])))]),
       ifm (\<lambda>s. sync_barrier (doms s d) \<noteq> 0)
         (spin_unlock (L_sync d))
         (u_process_free_list (L_sync d))])"

section \<open>The invariant and the steps of the workers\<close>

definition syncing :: "did \<Rightarrow> tcr \<Rightarrow> wid set" where
  "syncing d s = {w \<in> set (worker_list (doms s d)). must_sync (wrk s w)}"

definition sync_inv :: "did \<Rightarrow> tcr \<Rightarrow> bool" where
  "sync_inv d s \<longleftrightarrow>
     distinct (sleeping_workers (doms s d)) \<and>
     set (sleeping_workers (doms s d)) \<subseteq> set (worker_list (doms s d)) \<and>
     (\<forall>w \<in> set (worker_list (doms s d)).
        (is_on_sleeping_list (wrk s w) \<longleftrightarrow> w \<in> set (sleeping_workers (doms s d))) \<and>
        (must_sync (wrk s w) \<longrightarrow> \<not> is_on_sleeping_list (wrk s w))) \<and>
     sync_barrier (doms s d) = int (card (syncing d s)) \<and>
     distinct (free_list (doms s d)) \<and>
     (\<forall>f \<in> set (free_list (doms s d)). O_fd f \<notin> freed s) \<and>
     (syncing d s = {} \<longrightarrow> free_list (doms s d) = []) \<and>
     locks s (L_sync d) = None"

definition as_worker :: "did \<Rightarrow> wid \<Rightarrow> tcr \<Rightarrow> tcr" where
  "as_worker d w s = s\<lparr>this_worker := w, this_domain := d\<rparr>"

definition awake :: "tcr \<Rightarrow> wid \<Rightarrow> bool" where
  "awake s w \<longleftrightarrow> \<not> is_on_sleeping_list (wrk s w) \<and> \<not> must_sync (wrk s w)"

text \<open>
  \<^verbatim>\<open>scheduler_part2\<close> calls \<^verbatim>\<open>worker_prepare_sleep\<close> and \<^verbatim>\<open>worker_after_sleep\<close> in turn, and only an awake worker runs a thread
  that unregisters a descriptor.
\<close>

inductive sync_step :: "did \<Rightarrow> wid \<Rightarrow> tcr \<Rightarrow> tcr \<Rightarrow> bool" for d w where
  prepare: "w \<in> set (worker_list (doms s d)) \<Longrightarrow> awake s w \<Longrightarrow>
    worker_prepare_sleep (as_worker d w s) = Inr ((), t) \<Longrightarrow> sync_step d w s t"
| after: "w \<in> set (worker_list (doms s d)) \<Longrightarrow> \<not> awake s w \<Longrightarrow>
    worker_after_sleep (as_worker d w s) = Inr ((), t) \<Longrightarrow> sync_step d w s t"
| store: "w \<in> set (worker_list (doms s d)) \<Longrightarrow> awake s w \<Longrightarrow>
    f \<notin> set (free_list (doms s d)) \<Longrightarrow> O_fd f \<notin> freed s \<Longrightarrow>
    store_for_later_free f (as_worker d w s) = Inr ((), t) \<Longrightarrow> sync_step d w s t"

section \<open>Effects\<close>

lemma u_tc_fd_free_eq:
  "O_fd f \<notin> freed s \<Longrightarrow> u_tc_fd_free f s = Inr ((), s\<lparr>freed := insert (O_fd f) (freed s)\<rparr>)"
  by (simp add: u_tc_fd_free_def free_obj_def)

lemma sync_barrier_update_same [simp]: "sync_barrier_update (\<lambda>n. n) x = x"
  by simp

lemma free_all:
  "distinct fs \<Longrightarrow> O_fd ` set fs \<inter> freed s = {} \<Longrightarrow>
    formap u_tc_fd_free fs s = Inr ((), s\<lparr>freed := O_fd ` set fs \<union> freed s\<rparr>)"
proof (induction fs arbitrary: s)
  case (Cons f fs)
  let ?t = "s\<lparr>freed := insert (O_fd f) (freed s)\<rparr>"
  have "formap u_tc_fd_free fs ?t = Inr ((), ?t\<lparr>freed := O_fd ` set fs \<union> freed ?t\<rparr>)"
    using Cons.prems by (intro Cons.IH) auto
  then show ?case using Cons.prems(2) u_tc_fd_free_eq [of f s] by simp
qed simp

definition mark_workers :: "wid list \<Rightarrow> (wid \<Rightarrow> worker_struct) \<Rightarrow> wid \<Rightarrow> worker_struct" where
  "mark_workers ws wk w =
     (if w \<in> set ws then (wk w)\<lparr>must_sync := True, is_on_sleeping_list := False\<rparr> else wk w)"

definition marked :: "did \<Rightarrow> wid list \<Rightarrow> tcr \<Rightarrow> tcr" where
  "marked d ws s = s\<lparr>
     doms := (doms s)(d := sync_barrier_update (\<lambda>n. n + int (length ws)) (doms s d)),
     wrk := mark_workers ws (wrk s),
     syslog := syslog s @ map (\<lambda>w. Tgkill (w_tid (wrk s w))) ws\<rparr>"

lemma mark_sleeper_eq: "\<not> must_sync (wrk s w) \<Longrightarrow> mark_sleeper d w s = Inr ((), marked d [w] s)"
  by (simp add: mark_sleeper_def marked_def mark_workers_def op_defs upd_defs fun_eq_iff)

lemma marked_Cons: "w \<notin> set ws \<Longrightarrow> marked d ws (marked d [w] s) = marked d (w # ws) s"
  by (auto simp: marked_def mark_workers_def fun_eq_iff)

lemma mark_sleepers:
  "distinct ws \<Longrightarrow> \<forall>w \<in> set ws. \<not> must_sync (wrk s w) \<Longrightarrow>
    formap (mark_sleeper d) ws s = Inr ((), marked d ws s)"
proof (induction ws arbitrary: s)
  case Nil
  then show ?case by (simp add: marked_def mark_workers_def fun_eq_iff)
next
  case (Cons w ws)
  have "formap (mark_sleeper d) ws (marked d [w] s) = Inr ((), marked d ws (marked d [w] s))"
    using Cons.prems by (intro Cons.IH) (auto simp: marked_def mark_workers_def)
  with Cons.prems show ?case by (simp add: mark_sleeper_eq marked_Cons)
qed


text \<open>The outcome of each operation, run by worker \<open>w\<close> of domain \<open>d\<close>.\<close>

definition after_sleep_state :: "did \<Rightarrow> wid \<Rightarrow> tcr \<Rightarrow> tcr" where
  "after_sleep_state d w s =
     (if must_sync (wrk s w) then
        (let s1 = s\<lparr>doms := (doms s)(d := sync_barrier_update (\<lambda>n. n - 1) (doms s d)),
                    wrk := (wrk s)(w := (wrk s w)\<lparr>must_sync := False\<rparr>)\<rparr>
         in if sync_barrier (doms s1 d) = 0
            then s1\<lparr>doms := (doms s1)(d := free_list_update (\<lambda>_. []) (doms s1 d)),
                    freed := O_fd ` set (free_list (doms s d)) \<union> freed s1\<rparr>
            else s1)
      else s\<lparr>doms := (doms s)(d := sleeping_workers_update (remove1 w) (doms s d)),
             wrk := (wrk s)(w := (wrk s w)\<lparr>is_on_sleeping_list := False\<rparr>)\<rparr>)"

definition store_state :: "did \<Rightarrow> fdid \<Rightarrow> tcr \<Rightarrow> tcr" where
  "store_state d f s =
     (let s1 = marked d (sleeping_workers (doms s d))
                 (upd_dom d (free_list_update (\<lambda>fs. f # fs)) s);
          s2 = upd_dom d (sleeping_workers_update (\<lambda>_. [])) s1
      in if sync_barrier (doms s2 d) \<noteq> 0 then s2
         else s2\<lparr>doms := (doms s2)(d := free_list_update (\<lambda>_. []) (doms s2 d)),
                 freed := O_fd ` set (free_list (doms s2 d)) \<union> freed s2\<rparr>)"

lemma as_worker_simps [simp]:
  "this_worker (as_worker d w s) = w" "this_domain (as_worker d w s) = d"
  "doms (as_worker d w s) = doms s" "wrk (as_worker d w s) = wrk s" "freed (as_worker d w s) = freed s"
  "locks (as_worker d w s) = locks s"
  by (simp_all add: as_worker_def)

lemma sleep_prepare_eq:
  assumes "locks s (L_sync d) = None" and "\<not> is_on_sleeping_list (wrk s w)"
  shows "worker_prepare_sleep (as_worker d w s) = Inr ((), (as_worker d w s)\<lparr>
    doms := (doms s)(d := sleeping_workers_update (\<lambda>ws. w # ws) (doms s d)),
    wrk := (wrk s)(w := (wrk s w)\<lparr>is_on_sleeping_list := True\<rparr>)\<rparr>)"
  using assms by (simp add: worker_prepare_sleep_def op_defs upd_defs Let_def fun_upd_idem)

lemma u_process_free_list_eq:
  assumes "distinct (free_list (cur_domain s))" and "O_fd ` set (free_list (cur_domain s)) \<inter> freed s = {}"
  shows "u_process_free_list l s = Inr ((), s\<lparr>
    doms := (doms s)(this_domain s := free_list_update (\<lambda>_. []) (cur_domain s)),
    locks := (locks s)(l := None),
    freed := O_fd ` set (free_list (cur_domain s)) \<union> freed s\<rparr>)"
proof -
  let ?t = "s\<lparr>doms := (doms s)(this_domain s := free_list_update (\<lambda>_. []) (cur_domain s)),
    locks := (locks s)(l := None)\<rparr>"
  have "formap u_tc_fd_free (free_list (cur_domain s)) ?t =
      Inr ((), ?t\<lparr>freed := O_fd ` set (free_list (cur_domain s)) \<union> freed ?t\<rparr>)"
    using assms by (intro free_all) simp_all
  then show ?thesis by (simp add: u_process_free_list_def op_defs upd_defs Let_def)
qed


lemma sync_invD:
  assumes "sync_inv d s"
  shows "distinct (sleeping_workers (doms s d))"
    and "set (sleeping_workers (doms s d)) \<subseteq> set (worker_list (doms s d))"
    and "w \<in> set (worker_list (doms s d)) \<Longrightarrow>
      is_on_sleeping_list (wrk s w) \<longleftrightarrow> w \<in> set (sleeping_workers (doms s d))"
    and "w \<in> set (worker_list (doms s d)) \<Longrightarrow> must_sync (wrk s w) \<Longrightarrow> \<not> is_on_sleeping_list (wrk s w)"
    and "sync_barrier (doms s d) = int (card (syncing d s))"
    and "distinct (free_list (doms s d))"
    and "O_fd ` set (free_list (doms s d)) \<inter> freed s = {}"
    and "syncing d s = {} \<Longrightarrow> free_list (doms s d) = []"
    and "locks s (L_sync d) = None"
  using assms unfolding sync_inv_def by (blast, blast, blast, blast, blast, blast, blast, blast, blast)

lemma marked_Nil [simp]: "marked d [] s = s"
  by (simp add: marked_def mark_workers_def [abs_def])

lemma marked_locks: "marked d ws (s\<lparr>locks := k\<rparr>) = (marked d ws s)\<lparr>locks := k\<rparr>"
  by (simp add: marked_def)

lemma no_sleepers: "sleeping_workers x = [] \<Longrightarrow> x\<lparr>sleeping_workers := []\<rparr> = x"
  by (cases x) simp

lemma after_eq:
  assumes inv: "sync_inv d s" and w: "w \<in> set (worker_list (doms s d))" and "\<not> awake s w"
  shows "worker_after_sleep (as_worker d w s) = Inr ((), after_sleep_state d w (as_worker d w s))"
proof (cases "must_sync (wrk s w)")
  case True
  let ?s1 = "(as_worker d w s)\<lparr>locks := (locks s)(L_sync d := Some w),
     wrk := (wrk s)(w := (wrk s w)\<lparr>must_sync := False\<rparr>),
     doms := (doms s)(d := sync_barrier_update (\<lambda>n. n - 1) (doms s d))\<rparr>"
  have p: "u_process_free_list (L_sync d) ?s1 = Inr ((), ?s1\<lparr>
      doms := (doms ?s1)(d := free_list_update (\<lambda>_. []) (doms ?s1 d)),
      locks := (locks s)(L_sync d := None),
      freed := O_fd ` set (free_list (doms s d)) \<union> freed s\<rparr>)"
    using u_process_free_list_eq [of ?s1 "L_sync d"] sync_invD(6,7) [OF inv] by simp
  from True sync_invD(4) [OF inv w] show ?thesis
    using p sync_invD(9) [OF inv]
    by (simp add: worker_after_sleep_def op_defs upd_defs Let_def after_sleep_state_def fun_upd_idem)
next
  case False
  with assms have "is_on_sleeping_list (wrk s w)" by (simp add: awake_def)
  with False show ?thesis using sync_invD(9) [OF inv]
    by (simp add: worker_after_sleep_def op_defs upd_defs Let_def after_sleep_state_def fun_upd_idem)
qed

lemma store_eq:
  assumes inv: "sync_inv d s" and f: "f \<notin> set (free_list (doms s d))" "O_fd f \<notin> freed s"
  shows "store_for_later_free f (as_worker d w s) = Inr ((), store_state d f (as_worker d w s))"
proof -
  let ?ws = "sleeping_workers (doms s d)"
  let ?s1 = "(as_worker d w s)\<lparr>locks := (locks s)(L_sync d := Some w),
     doms := (doms s)(d := free_list_update (\<lambda>fs. f # fs) (doms s d))\<rparr>"
  let ?s2 = "(marked d ?ws ?s1)\<lparr>doms := (doms (marked d ?ws ?s1))
     (d := sleeping_workers_update (\<lambda>_. []) (doms (marked d ?ws ?s1) d))\<rparr>"
  have "\<forall>v \<in> set ?ws. \<not> must_sync (wrk ?s1 v)"
    using sync_invD(2,3,4) [OF inv] by auto
  then have m: "formap (mark_sleeper d) ?ws ?s1 = Inr ((), marked d ?ws ?s1)"
    by (intro mark_sleepers sync_invD(1) [OF inv])
  have sl: "sleeping_workers (doms ?s1 d) = ?ws" by simp
  have p: "u_process_free_list (L_sync d) ?s2 = Inr ((), ?s2\<lparr>
      doms := (doms ?s2)(d := free_list_update (\<lambda>_. []) (doms ?s2 d)),
      locks := (locks s)(L_sync d := None),
      freed := O_fd ` set (free_list (doms ?s2 d)) \<union> freed s\<rparr>)"
    using u_process_free_list_eq [of ?s2 "L_sync d"] f sync_invD(6,7) [OF inv]
    by (simp add: marked_def)
  have lk: "(locks s)(L_sync d := None) = locks s"
    using sync_invD(9) [OF inv] by (simp add: fun_upd_idem)
  have "store_for_later_free f (as_worker d w s) =
      (if sync_barrier (doms ?s2 d) \<noteq> 0 then Inr ((), ?s2\<lparr>locks := locks s\<rparr>)
       else u_process_free_list (L_sync d) ?s2)"
  proof (cases "?ws = []")
    case True
    then have s2: "?s2 = ?s1" by (simp add: no_sleepers)
    from True sync_invD(9) [OF inv] p [unfolded s2] lk show ?thesis unfolding s2
      by (simp add: store_for_later_free_def op_defs upd_defs Let_def)
  next
    case False
    with m p lk show ?thesis using sync_invD(9) [OF inv]
      by (simp add: store_for_later_free_def op_defs upd_defs Let_def) (simp add: marked_def)
  qed
  with p lk show ?thesis
    by (simp add: store_state_def upd_defs Let_def marked_def)
qed


section \<open>The invariant is kept\<close>

lemma finite_syncing [simp]: "finite (syncing d s)"
  by (simp add: syncing_def)

lemma sync_inv_as_worker [simp]: "sync_inv d (as_worker d w s) = sync_inv d s"
  by (simp add: sync_inv_def syncing_def)

lemma prepare_inv:
  assumes inv: "sync_inv d s" and w: "w \<in> set (worker_list (doms s d))" and aw: "awake s w"
  shows "sync_inv d (s\<lparr>
    doms := (doms s)(d := sleeping_workers_update (\<lambda>ws. w # ws) (doms s d)),
    wrk := (wrk s)(w := (wrk s w)\<lparr>is_on_sleeping_list := True\<rparr>)\<rparr>)" (is "sync_inv d ?t")
proof -
  have "syncing d ?t = syncing d s" by (auto simp: syncing_def)
  moreover have "w \<notin> set (sleeping_workers (doms s d))"
    using sync_invD(3) [OF inv w] aw by (simp add: awake_def)
  ultimately show ?thesis
    using inv w aw unfolding sync_inv_def awake_def by (auto split: if_splits)
qed

lemma after_inv:
  assumes inv: "sync_inv d s" and w: "w \<in> set (worker_list (doms s d))"
  shows "sync_inv d (after_sleep_state d w s)"
proof (cases "must_sync (wrk s w)")
  case True
  let ?t = "after_sleep_state d w s"
  have sy: "syncing d ?t = syncing d s - {w}"
    using True by (auto simp: syncing_def after_sleep_state_def Let_def split: if_splits)
  have "w \<in> syncing d s" using True w by (simp add: syncing_def)
  then have "card (syncing d s) = Suc (card (syncing d ?t))"
    unfolding sy by (metis card_Suc_Diff1 finite_syncing)
  moreover have c: "sync_barrier (doms ?t d) = sync_barrier (doms s d) - 1"
    using True by (simp add: after_sleep_state_def Let_def)
  ultimately have b: "sync_barrier (doms ?t d) = int (card (syncing d ?t))"
    using sync_invD(5) [OF inv] by simp
  have e: "syncing d ?t = {} \<longleftrightarrow> sync_barrier (doms s d) = 1"
    using b c card_eq_0_iff [of "syncing d ?t"] by auto
  show ?thesis
    unfolding sync_inv_def using inv b e True
    by (auto simp: sync_inv_def after_sleep_state_def Let_def split: if_splits)
next
  case False
  let ?t = "after_sleep_state d w s"
  have "syncing d ?t = syncing d s" using False by (auto simp: syncing_def after_sleep_state_def)
  then show ?thesis
    using inv False unfolding sync_inv_def
    by (auto simp: after_sleep_state_def dest: notin_set_remove1)
qed

lemma store_inv:
  assumes inv: "sync_inv d s" and f: "f \<notin> set (free_list (doms s d))" "O_fd f \<notin> freed s"
  shows "sync_inv d (store_state d f s)"
proof -
  let ?t = "store_state d f s" and ?ws = "sleeping_workers (doms s d)"
  have sy: "syncing d ?t = syncing d s \<union> set ?ws"
    using sync_invD(2) [OF inv]
    by (auto simp: syncing_def store_state_def Let_def marked_def mark_workers_def upd_defs split: if_splits)
  have "syncing d s \<inter> set ?ws = {}"
    using sync_invD(3,4) [OF inv] by (auto simp: syncing_def)
  then have b: "sync_barrier (doms ?t d) = int (card (syncing d ?t))"
    using sync_invD(1,5) [OF inv]
    by (simp add: sy card_Un_disjoint distinct_card) (simp add: store_state_def Let_def marked_def upd_defs)
  have c: "sync_barrier (doms ?t d) = sync_barrier (doms s d) + int (length ?ws)"
    by (simp add: store_state_def Let_def marked_def upd_defs)
  have e: "syncing d ?t = {} \<longleftrightarrow> sync_barrier (doms s d) + int (length ?ws) = 0"
    using b c by (simp add: card_eq_0_iff)
  show ?thesis
    unfolding sync_inv_def using inv f b e
    by (auto simp: sync_inv_def store_state_def Let_def marked_def mark_workers_def upd_defs split: if_splits)
qed


definition domain_at_rest :: "did \<Rightarrow> tcr \<Rightarrow> bool" where
  "domain_at_rest d s \<longleftrightarrow> sleeping_workers (doms s d) = [] \<and> sync_barrier (doms s d) = 0 \<and>
     free_list (doms s d) = [] \<and> locks s (L_sync d) = None \<and>
     (\<forall>w \<in> set (worker_list (doms s d)). awake s w)"

definition some_sync_step :: "did \<Rightarrow> tcr \<Rightarrow> tcr \<Rightarrow> bool" where
  "some_sync_step d s t \<longleftrightarrow> (\<exists>w. sync_step d w s t)"

lemma sync_step_inv: "sync_inv d s \<Longrightarrow> sync_step d w s t \<Longrightarrow> sync_inv d t"
  by (erule sync_step.cases)
     (use prepare_inv [of d "as_worker d w s" w] after_inv [of d "as_worker d w s" w]
        store_inv [of d "as_worker d w s"] sleep_prepare_eq [of s d w] after_eq [of d s w] store_eq [of d s]
        sync_invD(9) [of d s] in \<open>auto simp: awake_def\<close>)

interpretation sync_sys: inv_system "domain_at_rest d" "some_sync_step d" "sync_inv d" for d
proof
  fix s
  assume "domain_at_rest d s"
  then show "sync_inv d s"
    by (auto simp: domain_at_rest_def sync_inv_def syncing_def awake_def)
next
  fix s t
  assume "sync_inv d s" and "some_sync_step d s t"
  then show "sync_inv d t" by (auto simp: some_sync_step_def intro: sync_step_inv)
qed


text \<open>What other workers do leaves a descriptor alone while one worker still has to synchronise.\<close>

definition held_back :: "did \<Rightarrow> fdid \<Rightarrow> wid \<Rightarrow> tcr \<Rightarrow> bool" where
  "held_back d f w s \<longleftrightarrow> f \<in> set (free_list (doms s d)) \<and> w \<in> syncing d s"

definition other_step :: "did \<Rightarrow> wid \<Rightarrow> tcr \<Rightarrow> tcr \<Rightarrow> bool" where
  "other_step d w s t \<longleftrightarrow> (\<exists>v. v \<noteq> w \<and> sync_step d v s t)"

lemma held_back_step:
  assumes inv: "sync_inv d s" and h: "held_back d f w s" and v: "v \<noteq> w" and st: "sync_step d v s t"
  shows "held_back d f w t"
  using st
proof cases
  case prepare
  then show ?thesis
    using h v sleep_prepare_eq [of s d v] sync_invD(9) [OF inv]
    by (auto simp: awake_def held_back_def syncing_def)
next
  case after
  then have t: "t = after_sleep_state d v (as_worker d v s)" using after_eq [OF inv] by auto
  have "card (syncing d s) > 1" if "must_sync (wrk s v)"
  proof -
    have "{v, w} \<subseteq> syncing d s" using h after that by (auto simp: held_back_def syncing_def)
    then have "card {v, w} \<le> card (syncing d s)" by (intro card_mono) simp_all
    then show ?thesis using v by simp
  qed
  then show ?thesis
    using h v sync_invD(5) [OF inv]
    by (auto simp: t held_back_def syncing_def after_sleep_state_def Let_def)
next
  case (store g)
  then have t: "t = store_state d g (as_worker d v s)" using store_eq [OF inv] by auto
  have "card (syncing d s) > 0" using h by (auto simp: held_back_def card_gt_0_iff)
  then have "sync_barrier (doms s d) + int (length ws) \<noteq> 0" for ws :: "wid list"
    using sync_invD(5) [OF inv] by simp
  then show ?thesis
    using h by (auto simp: t held_back_def syncing_def store_state_def Let_def marked_def mark_workers_def upd_defs)
qed

lemma held_back_run:
  "(other_step d w)\<^sup>*\<^sup>* s t \<Longrightarrow> sync_inv d s \<Longrightarrow> held_back d f w s \<Longrightarrow> sync_inv d t \<and> held_back d f w t"
proof (induction rule: rtranclp_induct)
  case (step t u)
  then show ?case by (auto simp: other_step_def intro: sync_step_inv held_back_step)
qed simp

lemma store_holds_back:
  assumes inv: "sync_inv d s" and w: "w \<in> set (worker_list (doms s d))" "\<not> awake s w"
    and f: "f \<notin> set (free_list (doms s d))" "O_fd f \<notin> freed s"
  shows "held_back d f w (store_state d f (as_worker d v s))"
proof -
  let ?ws = "sleeping_workers (doms s d)"
  have "w \<in> syncing d s \<or> w \<in> set ?ws"
    using w sync_invD(3) [OF inv w(1)] by (auto simp: awake_def syncing_def)
  then have "sync_barrier (doms s d) + int (length ?ws) \<noteq> 0"
    using sync_invD(5) [OF inv] card_gt_0_iff [of "syncing d s"] by (auto simp: length_pos_if_in_set)
  then show ?thesis
    using w sync_invD(3) [OF inv w(1)]
    by (auto simp: held_back_def syncing_def awake_def store_state_def Let_def marked_def mark_workers_def upd_defs)
qed


section \<open>Properties\<close>

text \<open>C23: From a domain at rest, whatever its workers do, \<^verbatim>\<open>sync_barrier\<close> is the number of workers that still have to
  synchronise, no descriptor waits to be freed when there is none, and every worker can take its next step: an awake one
  returns from \<^verbatim>\<open>worker_prepare_sleep\<close>, a sleeping one from \<^verbatim>\<open>worker_after_sleep\<close>, without spinning and without freeing
  a descriptor twice.\<close>

theorem sync_reachable:
  assumes "reach (domain_at_rest d) (some_sync_step d) s" and "w \<in> set (worker_list (doms s d))"
  shows "sync_barrier (doms s d) = int (card (syncing d s)) \<and>
    (syncing d s = {} \<longrightarrow> free_list (doms s d) = []) \<and>
    (if awake s w then \<exists>t. worker_prepare_sleep (as_worker d w s) = Inr ((), t) \<and> sync_inv d t
     else \<exists>t. worker_after_sleep (as_worker d w s) = Inr ((), t) \<and> sync_inv d t)"
proof -
  from assms(1) have inv: "sync_inv d s" by (rule sync_sys.reach_inv)
  show ?thesis
  proof (cases "awake s w")
    case True
    then have "worker_prepare_sleep (as_worker d w s) \<noteq> Inl x" for x
      using sleep_prepare_eq [of s d w] sync_invD(9) [OF inv] by (simp add: awake_def)
    then obtain t where "worker_prepare_sleep (as_worker d w s) = Inr ((), t)"
      by (metis sumE prod.exhaust_sel unit.exhaust)
    then show ?thesis
      using True sync_invD(5,8) [OF inv] sync_step_inv [OF inv sync_step.prepare] assms(2) by auto
  next
    case False
    then show ?thesis
      using sync_invD(5,8) [OF inv] after_eq [OF inv assms(2)] after_inv [of d "as_worker d w s" w] inv assms(2)
      by simp
  qed
qed

text \<open>C21: A descriptor that is unregistered while worker \<open>w\<close> sleeps (or was told to synchronise and has not yet) is not freed
  as long as \<open>w\<close> itself takes no step: no sequence of steps of the other workers, in any number, order and interleaving,
  and including further unregistrations, frees it.\<close>

theorem unregistered_fd_not_freed_early:
  assumes "sync_inv d s" and "w \<in> set (worker_list (doms s d))" and "\<not> awake s w"
    and "f \<notin> set (free_list (doms s d))" and "O_fd f \<notin> freed s"
    and "store_for_later_free f (as_worker d v s) = Inr ((), t)" and "(other_step d w)\<^sup>*\<^sup>* t u"
  shows "f \<in> set (free_list (doms u d)) \<and> O_fd f \<notin> freed u"
proof -
  have t: "t = store_state d f (as_worker d v s)" using store_eq [OF assms(1,4,5), of v] assms(6) by simp
  have "sync_inv d t" unfolding t by (rule store_inv) (use assms in simp_all)
  moreover have "held_back d f w t" unfolding t by (rule store_holds_back) fact+
  ultimately have "sync_inv d u" and "held_back d f w u" using held_back_run [OF assms(7)] by blast+
  then show ?thesis using sync_invD(7) [of d u] by (auto simp: held_back_def)
qed

text \<open>Nothing is leaked: when the only worker that still has to synchronise returns from its sleep, every
  descriptor on the free list is freed and the list is empty; and when no worker sleeps, \<^verbatim>\<open>store_for_later_free\<close> frees
  the descriptor before it returns.\<close>

lemma free_list_drained:
  assumes "sync_inv d s" and "f \<notin> set (free_list (doms s d))" and "O_fd f \<notin> freed s"
  shows "(\<forall>w. syncing d s = {w} \<longrightarrow> (\<exists>t. worker_after_sleep (as_worker d w s) = Inr ((), t) \<and>
        freed t = freed s \<union> O_fd ` set (free_list (doms s d)) \<and> free_list (doms t d) = [] \<and> sync_barrier (doms t d) = 0)) \<and>
    (syncing d s = {} \<and> sleeping_workers (doms s d) = [] \<longrightarrow> (\<exists>t. store_for_later_free f (as_worker d v s) = Inr ((), t) \<and>
        freed t = insert (O_fd f) (freed s) \<and> free_list (doms t d) = []))"
proof (intro conjI allI impI)
  fix w
  assume w: "syncing d s = {w}"
  then have "w \<in> set (worker_list (doms s d))" and m: "must_sync (wrk s w)" by (auto simp: syncing_def)
  then have "worker_after_sleep (as_worker d w s) = Inr ((), after_sleep_state d w (as_worker d w s))"
    by (intro after_eq assms(1)) (simp_all add: awake_def)
  then show "\<exists>t. worker_after_sleep (as_worker d w s) = Inr ((), t) \<and>
      freed t = freed s \<union> O_fd ` set (free_list (doms s d)) \<and> free_list (doms t d) = [] \<and> sync_barrier (doms t d) = 0"
    using w m sync_invD(5) [OF assms(1)] by (simp add: after_sleep_state_def Let_def Un_commute)
next
  assume n: "syncing d s = {} \<and> sleeping_workers (doms s d) = []"
  then have "free_list (doms s d) = []" using sync_invD(8) [OF assms(1)] by blast
  then show "\<exists>t. store_for_later_free f (as_worker d v s) = Inr ((), t) \<and>
      freed t = insert (O_fd f) (freed s) \<and> free_list (doms t d) = []"
    using n store_eq [OF assms, of v] sync_invD(5) [OF assms(1)]
    by (simp add: store_state_def Let_def upd_defs)
qed

text \<open>A domain with two workers, 1 and 2; in the second state worker 1 sleeps.\<close>

definition two_workers :: tcr where
  "two_workers = process_image\<lparr>doms := (\<lambda>_. zero_domain\<lparr>worker_list := [1, 2]\<rparr>)\<rparr>"

definition one_asleep :: tcr where
  "one_asleep = two_workers\<lparr>
    doms := (doms two_workers)(0 := sleeping_workers_update (\<lambda>ws. 1 # ws) (doms two_workers 0)),
    wrk := (wrk two_workers)(1 := (wrk two_workers 1)\<lparr>is_on_sleeping_list := True\<rparr>)\<rparr>"

lemma two_workers_at_rest: "domain_at_rest 0 two_workers"
  by (auto simp: domain_at_rest_def two_workers_def awake_def)

lemma one_asleep_inv: "sync_inv 0 one_asleep"
  unfolding one_asleep_def
  by (rule prepare_inv [OF sync_sys.init_inv [OF two_workers_at_rest]]) (simp_all add: two_workers_def awake_def)

theorem sync_reachable_witness:
  "\<exists>t. worker_prepare_sleep (as_worker 0 1 two_workers) = Inr ((), t) \<and> sync_inv 0 t"
proof -
  have "1 \<in> set (worker_list (doms two_workers 0))" "awake two_workers 1"
    by (simp_all add: two_workers_def awake_def)
  moreover have "reach (domain_at_rest 0) (some_sync_step 0) two_workers"
    by (rule reach_init) (rule two_workers_at_rest)
  ultimately show ?thesis using sync_reachable [of 0 two_workers 1] by simp
qed

theorem unregistered_fd_not_freed_early_witness:
  "\<exists>t. store_for_later_free 5 (as_worker 0 2 one_asleep) = Inr ((), t) \<and> O_fd 5 \<notin> freed t"
proof -
  have a: "1 \<in> set (worker_list (doms one_asleep 0))" "\<not> awake one_asleep 1"
    "5 \<notin> set (free_list (doms one_asleep 0))" "O_fd 5 \<notin> freed one_asleep"
    by (simp_all add: one_asleep_def two_workers_def awake_def)
  let ?t = "store_state 0 5 (as_worker 0 2 one_asleep)"
  have s: "store_for_later_free 5 (as_worker 0 2 one_asleep) = Inr ((), ?t)"
    by (rule store_eq [OF one_asleep_inv a(3,4)])
  have "(other_step 0 1)\<^sup>*\<^sup>* ?t ?t" by simp
  with unregistered_fd_not_freed_early [OF one_asleep_inv a s] s show ?thesis by blast
qed

lemma free_list_drained_witness:
  "\<exists>t. store_for_later_free 5 (as_worker 0 2 two_workers) = Inr ((), t) \<and> freed t = {O_fd 5}"
proof -
  have "syncing 0 two_workers = {}" "sleeping_workers (doms two_workers 0) = []" "freed two_workers = {}"
    "5 \<notin> set (free_list (doms two_workers 0))"
    by (auto simp: syncing_def two_workers_def)
  then show ?thesis
    using free_list_drained [OF sync_sys.init_inv [OF two_workers_at_rest], of 5 2] by auto
qed

end
