(* ===== verification/Waitq.thy ===== *)
theory Waitq
  imports Events
begin

text \<open>
  Wait queues without the part that switches threads: registering the current thread's event on a queue, the end of a
  wait with its race against signals, and the wake-up functions, which hand events to the immediate
  list of the scheduler and write to the eventfd of the domains concerned.
\<close>

section \<open>Operations\<close>

definition SIZEOF_EVENTFD :: int where "SIZEOF_EVENTFD = 8"

definition u_iwi_immediate :: "did \<Rightarrow> unit tcop" where
  "u_iwi_immediate dm = bnd (rdm (\<lambda>s. sys_call (Eventfd_write (immediate_fd (doms s dm)))))
     (\<lambda>r. if r \<noteq> SIZEOF_EVENTFD then msg_exit ''write() failed'' else ret ())"

definition clear_woken :: "tcr \<Rightarrow> tcr" where
  "clear_woken = upd_cur_worker (woken_by_event_update (\<lambda>_. None))"

definition tc_waitq_init :: "wqid \<Rightarrow> tcr \<Rightarrow> tcr" where
  "tc_waitq_init wq = event_list_init (Waiters wq)"

definition u_tc_waitq_prepare_to_wait :: "wqid \<Rightarrow> eid \<Rightarrow> tid \<Rightarrow> unit tcop" where
  "u_tc_waitq_prepare_to_wait wq e tc = block [
     mdf clear_woken,
     spin_lock (L_list (Pending tc)),
     spin_lock (L_list (Waiters wq)),
     u_add_event e (Waiters wq) tc,
     whn (\<lambda>s. ev_flags (evs s e) \<noteq> EF_SIGNAL) (rdm (\<lambda>s. uu_tc_event_on_tc_stack e (ev_tc (evs s e)))),
     spin_unlock (L_list (Waiters wq)),
     spin_unlock (L_list (Pending tc))]"

definition tc_waitq_prepare_to_wait :: "wqid \<Rightarrow> eid \<Rightarrow> unit tcop" where
  "tc_waitq_prepare_to_wait wq e = block [
     mdf (upd_ev e (\<lambda>v. v\<lparr>ev_u := Ep_events 0, ev_flags := EF_READY\<rparr>)),
     rdm (\<lambda>s. u_tc_waitq_prepare_to_wait wq e (tc_current s))]"

text \<open>Pops the event of the current wait from the stack of its thread.\<close>

definition pop_event_stack :: "tid \<Rightarrow> eid \<Rightarrow> unit tcop" where
  "pop_event_stack tc e = block [
     rdm (\<lambda>s. mdf (upd_thr tc (event_stack_update (\<lambda>_. next_in_stack (evs s e))))),
     assertm ''tc->event_stack != 0xafafafaf'' (\<lambda>s. O_thread tc \<notin> freed s)]"

definition finish_wait_locked :: "tid \<Rightarrow> eid \<Rightarrow> bool tcop" where
  "finish_wait_locked tc e = rdm (\<lambda>s.
     let was_on_top = (event_stack (thr s tc) = Some e);
         woken = woken_by_event (cur_worker s);
         unlock = [spin_unlock (L_list (Pending tc)), spin_unlock (L_list Immediate)]
     in if was_on_top \<and> (woken = None \<or> woken = Some e) then
          thn (block ([
            pop_event_stack tc e,
            remove_event_holding_locks e [Pending tc, Immediate],
            assertm ''!e->el'' (\<lambda>s. ev_el (evs s e) = None)] @ unlock @ [
            mdf clear_woken]))
          (ret False)
        else (case woken of
            None \<Rightarrow> throw (Null_deref ''worker->woken_by_event'')
          | Some w \<Rightarrow>
              let was_active = (ev_el (evs s e) = Some (Pending tc) \<or> ev_el (evs s e) = Some Immediate)
              in thn (block ([
                   assertm ''worker->woken_by_event->flags == EF_SIGNAL'' (\<lambda>s. ev_flags (evs s w) = EF_SIGNAL),
                   remove_event_holding_locks e [Pending tc, Immediate],
                   whn (\<lambda>_. was_active) (block [
                     remove_event_holding_locks w [Pending tc, Immediate],
                     assertm ''!e->el'' (\<lambda>s. ev_el (evs s e) = None),
                     u_add_event w (Pending tc) tc,
                     mdf clear_woken,
                     pop_event_stack tc e])] @ unlock))
                 (ret (\<not> was_active))))"

definition tc_waitq_finish_wait :: "wqid option \<Rightarrow> eid \<Rightarrow> bool tcop" where
  "tc_waitq_finish_wait wq e = rdm (\<lambda>s.
     thn (block [spin_lock (L_list Immediate), spin_lock (L_list (Pending (tc_current s)))])
         (finish_wait_locked (tc_current s) e))"

definition set_woken :: "mid option \<Rightarrow> tid option \<Rightarrow> unit tcop" where
  "set_woken woken tc = (case woken of None \<Rightarrow> ret ()
     | Some m \<Rightarrow> mdf (m_owner_update (\<lambda>f. f(m := tc))))"

definition tc_waitq_wakeup_one_owner :: "wqid \<Rightarrow> mid option \<Rightarrow> unit tcop" where
  "tc_waitq_wakeup_one_owner wq woken =
     bnd (thn (block [spin_lock (L_list Immediate), spin_lock (L_list (Waiters wq))])
       (rdm (\<lambda>s. case evl s (Waiters wq) of
           [] \<Rightarrow> thn (set_woken woken None) (ret None)
         | e # _ \<Rightarrow> thn (block [
             mdf (circleq_remove (Waiters wq) e),
             set_el e (Some Immediate),
             atomic_inc_immediate,
             mdf (circleq_insert_head Immediate e),
             set_woken woken (Some (ev_tc (evs s e)))]) (ret (Some (ev_domain (evs s e)))))))
     (\<lambda>wake. block [
        spin_unlock (L_list (Waiters wq)),
        spin_unlock (L_list Immediate),
        (case wake of None \<Rightarrow> ret () | Some dm \<Rightarrow> u_iwi_immediate dm)])"

definition tc_waitq_wakeup_one :: "wqid \<Rightarrow> unit tcop" where
  "tc_waitq_wakeup_one wq = tc_waitq_wakeup_one_owner wq None"

text \<open>
  The loop of \<^verbatim>\<open>tc_waitq_wakeup_all\<close> takes the first waiter until the queue is empty. The queue is locked, so it meets the
  waiters that were on the queue when the loop began, in order. \<open>alerted\<close> has room for ten domains.
\<close>

definition ALERTED_SIZE :: nat where "ALERTED_SIZE = 10"

definition wakeup_all_body :: "wqid \<Rightarrow> eid \<Rightarrow> did list \<Rightarrow> did list tcop" where
  "wakeup_all_body wq e alerted = rdm (\<lambda>s.
     let dm = ev_domain (evs s e); new = (dm \<notin> set alerted); room = (length alerted < ALERTED_SIZE)
     in thn (block [
          mdf (circleq_remove (Waiters wq) e),
          set_el e (Some Immediate),
          mdf (circleq_insert_head Immediate e),
          atomic_inc_immediate,
          whn (\<lambda>s. ev_flags (evs s e) = EF_SIGNAL)
            (rdm (\<lambda>s. mdf (upd_thr (ev_tc (evs s e)) (signals_since_last_query_update (\<lambda>n. n + 1))))),
          whn (\<lambda>_. new \<and> \<not> room) (u_iwi_immediate dm)])
        (ret (if new \<and> room then alerted @ [dm] else alerted)))"

fun wakeup_all_loop :: "wqid \<Rightarrow> eid list \<Rightarrow> did list \<Rightarrow> did list tcop" where
  "wakeup_all_loop wq [] alerted = ret alerted"
| "wakeup_all_loop wq (e # es) alerted = bnd (wakeup_all_body wq e alerted) (wakeup_all_loop wq es)"

definition tc_waitq_wakeup_all :: "wqid \<Rightarrow> unit tcop" where
  "tc_waitq_wakeup_all wq =
     bnd (thn (block [spin_lock (L_list Immediate), spin_lock (L_list (Waiters wq))])
       (rdm (\<lambda>s. wakeup_all_loop wq (evl s (Waiters wq)) [])))
     (\<lambda>alerted. block [
        spin_unlock (L_list (Waiters wq)),
        spin_unlock (L_list Immediate),
        formap u_iwi_immediate alerted])"

definition tc_waitq_unregister :: "wqid \<Rightarrow> unit tcop" where
  "tc_waitq_unregister wq = whn (\<lambda>s. evl s (Waiters wq) \<noteq> [])
     (msg_exit ''there are still waiters in tc_waitq_unregister()'')"

section \<open>Waking up\<close>

text \<open>The kernel takes every write to an eventfd.\<close>

definition eventfd_ok :: "tcr \<Rightarrow> bool" where
  "eventfd_ok s \<longleftrightarrow> (\<forall>n. sysres s n = SIZEOF_EVENTFD)"

definition iwi_of :: "tcr \<Rightarrow> did \<Rightarrow> syscall" where
  "iwi_of s d = Eventfd_write (immediate_fd (doms s d))"

lemma u_iwi_immediate_eq:
  "eventfd_ok s \<Longrightarrow> u_iwi_immediate d s = Inr ((), s\<lparr>syslog := syslog s @ [iwi_of s d]\<rparr>)"
  by (simp add: u_iwi_immediate_def op_defs eventfd_ok_def iwi_of_def)

lemma eventfd_ok_frame [simp]: "eventfd_ok (s\<lparr>syslog := x\<rparr>) = eventfd_ok s"
  "eventfd_ok (s\<lparr>locks := y\<rparr>) = eventfd_ok s"
  by (simp_all add: eventfd_ok_def)

lemma iwi_all:
  "eventfd_ok s \<Longrightarrow> formap u_iwi_immediate ds s = Inr ((), s\<lparr>syslog := syslog s @ map (iwi_of s) ds\<rparr>)"
proof (induction ds arbitrary: s)
  case (Cons d ds)
  have "map (iwi_of (s\<lparr>syslog := x\<rparr>)) ds = map (iwi_of s) ds" for x by (simp add: iwi_of_def)
  with Cons show ?case by (simp add: u_iwi_immediate_eq)
qed simp

lemma wakeup_one_eq:
  assumes f: "free_lock s (L_list Immediate)" "free_lock s (L_list (Waiters wq))" and ok: "eventfd_ok s"
    and w: "evl s (Waiters wq) = e # es"
  shows "tc_waitq_wakeup_one_owner wq woken s = Inr ((),
    (relink_hd e (Waiters wq) Immediate s)\<lparr>
      m_owner := (case woken of None \<Rightarrow> m_owner s | Some m \<Rightarrow> (m_owner s)(m \<mapsto> ev_tc (evs s e))),
      syslog := syslog s @ [iwi_of s (ev_domain (evs s e))]\<rparr>)"
  using assms
  by (cases woken) (simp_all add: tc_waitq_wakeup_one_owner_def op_defs upd_defs free_lock_def set_el_def
      atomic_inc_immediate_def set_woken_def relink_hd_def relink_to_def imm_delta_def fun_upd_idem fun_upd_twist
      u_iwi_immediate_def eventfd_ok_def iwi_of_def)

lemma wakeup_one_empty:
  assumes "free_lock s (L_list Immediate)" "free_lock s (L_list (Waiters wq))" "evl s (Waiters wq) = []"
  shows "tc_waitq_wakeup_one_owner wq woken s = Inr ((),
    s\<lparr>m_owner := (case woken of None \<Rightarrow> m_owner s | Some m \<Rightarrow> (m_owner s)(m := None))\<rparr>)"
  using assms
  by (cases woken) (simp_all add: tc_waitq_wakeup_one_owner_def op_defs upd_defs free_lock_def set_woken_def
      fun_upd_idem fun_upd_twist)


definition count_signal :: "eid \<Rightarrow> tcr \<Rightarrow> tcr" where
  "count_signal e s = (if ev_flags (evs s e) = EF_SIGNAL
     then upd_thr (ev_tc (evs s e)) (signals_since_last_query_update (\<lambda>n. n + 1)) s else s)"

definition signals_for :: "tcr \<Rightarrow> eid list \<Rightarrow> tid \<Rightarrow> int" where
  "signals_for s es t = int (length (filter (\<lambda>e. ev_flags (evs s e) = EF_SIGNAL \<and> ev_tc (evs s e) = t) es))"

definition wake_first :: "wqid \<Rightarrow> eid \<Rightarrow> did list \<Rightarrow> tcr \<Rightarrow> tcr" where
  "wake_first wq e alerted s =
     (let s1 = count_signal e (relink_hd e (Waiters wq) Immediate s); dm = ev_domain (evs s e)
      in if dm \<notin> set alerted \<and> \<not> length alerted < ALERTED_SIZE
         then s1\<lparr>syslog := syslog s @ [iwi_of s dm]\<rparr> else s1)"

lemma count_signal_frame [simp]:
  "evs (count_signal e s) = evs s" "evl (count_signal e s) = evl s" "locks (count_signal e s) = locks s"
  "syslog (count_signal e s) = syslog s" "sysres (count_signal e s) = sysres s" "doms (count_signal e s) = doms s"
  "immediate_count (count_signal e s) = immediate_count s" "refcnt (thr (count_signal e s) t) = refcnt (thr s t)"
  "wrk (count_signal e s) = wrk s" "m_owner (count_signal e s) = m_owner s"
  by (simp_all add: count_signal_def upd_defs)

lemma wake_first_frame [simp]:
  "locks (wake_first wq e al s) = locks s" "sysres (wake_first wq e al s) = sysres s"
  "doms (wake_first wq e al s) = doms s" "wrk (wake_first wq e al s) = wrk s"
  "ev_tc (evs (wake_first wq e al s) x) = ev_tc (evs s x)"
  "ev_flags (evs (wake_first wq e al s) x) = ev_flags (evs s x)"
  "ev_domain (evs (wake_first wq e al s) x) = ev_domain (evs s x)"
  "iwi_of (wake_first wq e al s) = iwi_of s" "eventfd_ok (wake_first wq e al s) = eventfd_ok s"
  by (simp_all add: wake_first_def Let_def iwi_of_def [abs_def] eventfd_ok_def)

lemma wakeup_all_loop_Cons:
  assumes "eventfd_ok s"
  shows "wakeup_all_loop wq (e # es) al s =
    wakeup_all_loop wq es (if ev_domain (evs s e) \<notin> set al \<and> length al < ALERTED_SIZE then al @ [ev_domain (evs s e)] else al)
      (wake_first wq e al s)"
proof -
  have "wakeup_all_body wq e al s = Inr (if ev_domain (evs s e) \<notin> set al \<and> length al < ALERTED_SIZE
      then al @ [ev_domain (evs s e)] else al, wake_first wq e al s)"
    using assms
    by (simp add: wakeup_all_body_def op_defs upd_defs set_el_def atomic_inc_immediate_def Let_def wake_first_def
        count_signal_def relink_hd_def relink_to_def imm_delta_def u_iwi_immediate_def eventfd_ok_def iwi_of_def)
  then show ?thesis by (simp add: bnd_def)
qed

lemma wake_first_step:
  assumes wf: "wf_ev s" and w: "evl s (Waiters wq) = e # es"
  shows "wf_ev (wake_first wq e al s)"
    and "evl (wake_first wq e al s) = (evl s)(Waiters wq := es, Immediate := e # evl s Immediate)"
    and "signals_since_last_query (thr (wake_first wq e al s) t) = signals_since_last_query (thr s t) + signals_for s [e] t"
proof -
  have "ev_el (evs s e) = Some (Waiters wq)" using wf_evD(2) [OF wf, of e "Waiters wq"] w by simp
  then have r: "wf_ev (relink_hd e (Waiters wq) Immediate s)" by (simp add: wf_ev_relink_hd wf)
  then have "wf_ev (count_signal e (relink_hd e (Waiters wq) Immediate s))"
    by (subst wf_ev_cong [where s = "relink_hd e (Waiters wq) Immediate s"]) simp_all
  then show "wf_ev (wake_first wq e al s)" by (simp add: wake_first_def Let_def)
  show "evl (wake_first wq e al s) = (evl s)(Waiters wq := es, Immediate := e # evl s Immediate)"
    using w by (simp add: wake_first_def Let_def evl_relink_hd)
  show "signals_since_last_query (thr (wake_first wq e al s) t) = signals_since_last_query (thr s t) + signals_for s [e] t"
    by (simp add: wake_first_def Let_def count_signal_def signals_for_def upd_defs)
qed

lemma wakeup_all_loop_result:
  assumes "wf_ev s" and "evl s (Waiters wq) = es" and "eventfd_ok s" and "distinct al" and "length al \<le> ALERTED_SIZE"
  shows "\<exists>s' al' ds. wakeup_all_loop wq es al s = Inr (al', s') \<and> wf_ev s' \<and>
    evl s' = (evl s)(Waiters wq := [], Immediate := rev es @ evl s Immediate) \<and>
    locks s' = locks s \<and> sysres s' = sysres s \<and> doms s' = doms s \<and> wrk s' = wrk s \<and>
    syslog s' = syslog s @ map (iwi_of s) ds \<and> distinct al' \<and> set al \<subseteq> set al' \<and>
    set al' \<union> set ds = set al \<union> (\<lambda>e. ev_domain (evs s e)) ` set es \<and>
    (ds \<noteq> [] \<longrightarrow> length al' = ALERTED_SIZE) \<and> length al' \<le> ALERTED_SIZE \<and>
    set ds \<inter> set al' = {} \<and>
    (\<forall>t. signals_since_last_query (thr s' t) = signals_since_last_query (thr s t) + signals_for s es t)"
  using assms
proof (induction es arbitrary: s al)
  case Nil
  have "evl s = (evl s)(Waiters wq := [], Immediate := rev [] @ evl s Immediate)"
    using Nil.prems(2) by (simp add: fun_upd_idem)
  then show ?case using Nil by (auto simp: op_defs signals_for_def)
next
  case (Cons e es)
  let ?d = "ev_domain (evs s e)" and ?s = "wake_first wq e al s"
  let ?al = "if ?d \<notin> set al \<and> length al < ALERTED_SIZE then al @ [?d] else al"
  note w = wake_first_step [OF Cons.prems(1,2)]
  have s: "evl ?s (Waiters wq) = es" "eventfd_ok ?s" using w(2) Cons.prems(3) by simp_all
  have "distinct ?al" "length ?al \<le> ALERTED_SIZE" using Cons.prems by auto
  then obtain s' al' ds where IH: "wakeup_all_loop wq es ?al ?s = Inr (al', s')" "wf_ev s'"
    "evl s' = (evl ?s)(Waiters wq := [], Immediate := rev es @ evl ?s Immediate)"
    "locks s' = locks ?s" "sysres s' = sysres ?s" "doms s' = doms ?s" "wrk s' = wrk ?s"
    "syslog s' = syslog ?s @ map (iwi_of ?s) ds" "distinct al'" "set ?al \<subseteq> set al'"
    "set al' \<union> set ds = set ?al \<union> (\<lambda>e. ev_domain (evs ?s e)) ` set es"
    "ds \<noteq> [] \<longrightarrow> length al' = ALERTED_SIZE" "length al' \<le> ALERTED_SIZE" "set ds \<inter> set al' = {}"
    "\<forall>t. signals_since_last_query (thr s' t) = signals_since_last_query (thr ?s t) + signals_for ?s es t"
    using Cons.IH [OF w(1) s(1,2), of ?al] by blast
  have r: "wakeup_all_loop wq (e # es) al s = Inr (al', s')"
    using IH(1) wakeup_all_loop_Cons [OF Cons.prems(3)] by simp
  have l: "evl s' = (evl s)(Waiters wq := [], Immediate := rev (e # es) @ evl s Immediate)"
    using IH(3) w(2) by (simp add: fun_upd_twist)
  have g: "\<forall>t. signals_since_last_query (thr s' t) = signals_since_last_query (thr s t) + signals_for s (e # es) t"
    using IH(15) w(3) by (simp add: signals_for_def)
  define ds' where "ds' = (if ?d \<notin> set al \<and> \<not> length al < ALERTED_SIZE then ?d # ds else ds)"
  have "syslog s' = syslog s @ map (iwi_of s) ds'"
    using IH(8) by (auto simp: ds'_def wake_first_def Let_def iwi_of_def)
  moreover have "set al' \<union> set ds' = set al \<union> (\<lambda>e. ev_domain (evs s e)) ` set (e # es)"
    using IH(10,11) by (auto simp: ds'_def split: if_splits)
  moreover have full: "al' = al \<or> (length al' = ALERTED_SIZE \<and> set al' = set al)" if "\<not> length al < ALERTED_SIZE"
  proof -
    have "set al \<subseteq> set al'" using IH(10) by (auto split: if_splits)
    moreover have "length al = ALERTED_SIZE" using that Cons.prems(5) by simp
    ultimately show ?thesis
      using IH(9,13) Cons.prems(4) distinct_card card_subset_eq [of "set al'" "set al"] card_mono [of "set al'" "set al"]
      by (metis List.finite_set le_antisym)
  qed
  moreover have "ds' \<noteq> [] \<longrightarrow> length al' = ALERTED_SIZE"
    using IH(12) full Cons.prems(5) by (auto simp: ds'_def split: if_splits)
  moreover have "set ds' \<inter> set al' = {}" using IH(14) full by (auto simp: ds'_def)
  moreover have "set al \<subseteq> set al'" using IH(10) by (auto split: if_splits)
  ultimately show ?case using IH(2,4,5,6,7,9,13) r l g by auto
qed


lemma wakeup_all_result:
  assumes wf: "wf_ev s" and f: "free_lock s (L_list Immediate)" "free_lock s (L_list (Waiters wq))"
    and ok: "eventfd_ok s"
  obtains s' ds where "tc_waitq_wakeup_all wq s = Inr ((), s')" and "wf_ev s'"
    and "evl s' = (evl s)(Waiters wq := [], Immediate := rev (evl s (Waiters wq)) @ evl s Immediate)"
    and "locks s' = locks s" and "syslog s' = syslog s @ map (iwi_of s) ds"
    and "set ds = (\<lambda>e. ev_domain (evs s e)) ` set (evl s (Waiters wq))"
    and "card (set ds) \<le> ALERTED_SIZE \<Longrightarrow> distinct ds"
    and "\<And>t. signals_since_last_query (thr s' t) =
      signals_since_last_query (thr s t) + signals_for s (evl s (Waiters wq)) t"
proof -
  let ?k = "(locks s)(L_list Immediate := Some (this_worker s), L_list (Waiters wq) := Some (this_worker s))"
  let ?s = "s\<lparr>locks := ?k\<rparr>"
  obtain s1 al ds where l: "wakeup_all_loop wq (evl s (Waiters wq)) [] ?s = Inr (al, s1)" "wf_ev s1"
    "evl s1 = (evl s)(Waiters wq := [], Immediate := rev (evl s (Waiters wq)) @ evl s Immediate)"
    "locks s1 = ?k" "sysres s1 = sysres s" "doms s1 = doms s"
    "syslog s1 = syslog s @ map (iwi_of ?s) ds" "distinct al"
    "set al \<union> set ds = (\<lambda>e. ev_domain (evs s e)) ` set (evl s (Waiters wq))"
    "ds \<noteq> [] \<longrightarrow> length al = ALERTED_SIZE" "set ds \<inter> set al = {}"
    "\<forall>t. signals_since_last_query (thr s1 t) = signals_since_last_query (thr s t) + signals_for ?s (evl s (Waiters wq)) t"
    using wakeup_all_loop_result [of ?s wq "evl s (Waiters wq)" "[]"] wf ok by auto
  have io: "iwi_of ?s = iwi_of s" "iwi_of (s1\<lparr>locks := x\<rparr>) = iwi_of s" for x
    using l(6) by (auto simp: iwi_of_def fun_eq_iff)
  have k: "?k(L_list (Waiters wq) := None, L_list Immediate := None) = locks s"
    using f by (simp add: free_lock_def fun_eq_iff)
  let ?r = "s1\<lparr>locks := locks s, syslog := syslog s @ map (iwi_of s) (ds @ al)\<rparr>"
  have "eventfd_ok (s1\<lparr>locks := locks s\<rparr>)" using ok l(5) by (simp add: eventfd_ok_def)
  then have "formap u_iwi_immediate al (s1\<lparr>locks := locks s\<rparr>) = Inr ((), ?r)"
    using iwi_all [of "s1\<lparr>locks := locks s\<rparr>" al] l(7) io by simp
  then have "tc_waitq_wakeup_all wq s = Inr ((), ?r)"
    using l(1,4) f k by (simp add: tc_waitq_wakeup_all_def op_defs free_lock_def)
  moreover have "set (ds @ al) = (\<lambda>e. ev_domain (evs s e)) ` set (evl s (Waiters wq))" using l(9) by auto
  moreover have "distinct (ds @ al)" if "card (set (ds @ al)) \<le> ALERTED_SIZE"
  proof (cases "ds = []")
    case False
    then have "card (set al) = ALERTED_SIZE" using l(8,10) by (simp add: distinct_card)
    then have "set al = set (ds @ al)"
      using that by (intro card_seteq) simp_all
    then have False using False l(11) by (cases ds) auto
    then show ?thesis ..
  qed (use l(8) in simp)
  ultimately show thesis using that [of ?r "ds @ al"] l by (simp add: signals_for_def)
qed


section \<open>Beginning and ending a wait\<close>

definition prepared :: "wqid \<Rightarrow> eid \<Rightarrow> tid \<Rightarrow> tcr \<Rightarrow> tcr" where
  "prepared wq e tc s =
     (let s1 = link e (Waiters wq) tc (clear_woken s)
      in if ev_flags (evs s e) = EF_SIGNAL then s1
         else upd_thr tc (event_stack_update (\<lambda>_. Some e))
               (upd_ev e (next_in_stack_update (\<lambda>_. event_stack (thr s tc))) s1))"

lemma u_prepare_eq:
  assumes f: "free_lock s (L_list (Pending tc))" "free_lock s (L_list (Waiters wq))"
    and e: "ev_el (evs s e) = None" and tc: "O_thread tc \<notin> freed s"
  shows "u_tc_waitq_prepare_to_wait wq e tc s = Inr ((), prepared wq e tc s)"
  using assms
  by (simp add: u_tc_waitq_prepare_to_wait_def u_add_event_def uu_tc_event_on_tc_stack_def set_el_def op_defs upd_defs
      free_lock_def prepared_def link_def clear_woken_def Let_def fun_upd_idem fun_upd_twist)

lemma wf_prepared:
  assumes "wf_ev s" and "ev_el (evs s e) = None"
  shows "wf_ev (prepared wq e tc s)"
proof -
  let ?s = "clear_woken s"
  have "wf_ev (link e (Waiters wq) tc ?s)" using assms by (intro wf_ev_link) (simp_all add: clear_woken_def upd_defs)
  moreover have "wf_ev (prepared wq e tc s) = wf_ev (link e (Waiters wq) tc ?s)"
    by (rule wf_ev_cong_events) (auto simp: prepared_def Let_def upd_defs)
  ultimately show ?thesis by simp
qed

definition ready :: "eid \<Rightarrow> tcr \<Rightarrow> tcr" where
  "ready e = upd_ev e (\<lambda>v. v\<lparr>ev_u := Ep_events 0, ev_flags := EF_READY\<rparr>)"

lemma wf_ready [simp]: "wf_ev (ready e s) = wf_ev s"
  by (rule wf_ev_cong_events) (auto simp: ready_def upd_defs)

lemma ready_el [simp]: "ev_el (evs (ready e s) x) = ev_el (evs s x)"
  by (simp add: ready_def upd_defs)

lemma prepare_eq:
  assumes "free_lock s (L_list (Pending (cr_current s)))" "free_lock s (L_list (Waiters wq))"
    and "ev_el (evs s e) = None" and "O_thread (cr_current s) \<notin> freed s"
  shows "tc_waitq_prepare_to_wait wq e s = Inr ((), prepared wq e (cr_current s) (ready e s))"
proof -
  have "u_tc_waitq_prepare_to_wait wq e (cr_current s) (ready e s) = Inr ((), prepared wq e (cr_current s) (ready e s))"
    using assms by (intro u_prepare_eq) (simp_all add: ready_def upd_defs free_lock_def)
  then show ?thesis by (simp add: tc_waitq_prepare_to_wait_def ready_def op_defs tc_current_def upd_defs)
qed

definition off :: "eid \<Rightarrow> tcr \<Rightarrow> tcr" where
  "off e s = (case ev_el (evs s e) of None \<Rightarrow> s | Some l \<Rightarrow> unlink e l s)"

lemma wf_off: "wf_ev s \<Longrightarrow> wf_ev (off e s)"
  by (auto simp: off_def wf_ev_unlink split: option.splits)

lemma off_frame [simp]:
  "locks (off e s) = locks s" "this_worker (off e s) = this_worker s" "wrk (off e s) = wrk s"
  "freed (off e s) = freed s" "event_stack (thr (off e s) t) = event_stack (thr s t)"
  "next_in_stack (evs (off e s) x) = next_in_stack (evs s x)" "ev_tc (evs (off e s) x) = ev_tc (evs s x)"
  "ev_flags (evs (off e s) x) = ev_flags (evs s x)" "cr_current (off e s) = cr_current s"
  "ev_el (evs (off e s) x) = (if x = e then None else ev_el (evs s x))"
  "m_owner (off e s) = m_owner s" "syslog (off e s) = syslog s" "doms (off e s) = doms s"
  by (auto simp: off_def unlink_def split: option.splits)

lemma off_notin: "wf_ev s \<Longrightarrow> e \<notin> set (evl (off e s) l)"
  using wf_evD(2) [OF wf_off, of s e e l] by simp

lemma remove_holding_eq:
  assumes "wf_ev s" and "\<And>l. ev_el (evs s e) = Some l \<Longrightarrow> (if l \<in> set els then holds s (L_list l) else free_lock s (L_list l))"
  shows "remove_event_holding_locks e els s = Inr ((), off e s)"
  using assms(2) u_remove_event_eq [OF assms(1)] remove_event_eq [OF assms(1)]
  by (cases "ev_el (evs s e)") (auto simp: remove_event_holding_locks_def off_def thn_def bnd_def ret_def)


definition pop :: "tid \<Rightarrow> eid \<Rightarrow> tcr \<Rightarrow> tcr" where
  "pop tc e s = upd_thr tc (event_stack_update (\<lambda>_. next_in_stack (evs s e))) s"

lemma push_locks:
  "off e (s\<lparr>locks := k\<rparr>) = (off e s)\<lparr>locks := k\<rparr>" "pop tc e (s\<lparr>locks := k\<rparr>) = (pop tc e s)\<lparr>locks := k\<rparr>"
  "clear_woken (s\<lparr>locks := k\<rparr>) = (clear_woken s)\<lparr>locks := k\<rparr>"
  "link e l t (s\<lparr>locks := k\<rparr>) = (link e l t s)\<lparr>locks := k\<rparr>"
  by (simp_all add: off_def unlink_def pop_def clear_woken_def link_def upd_defs split: option.splits)

lemma pop_frame [simp]:
  "locks (pop tc e s) = locks s" "evs (pop tc e s) = evs s" "evl (pop tc e s) = evl s" "wrk (pop tc e s) = wrk s"
  "this_worker (pop tc e s) = this_worker s" "freed (pop tc e s) = freed s" "wf_ev (pop tc e s) = wf_ev s"
  "event_stack (thr (pop tc e s) t) = (if t = tc then next_in_stack (evs s e) else event_stack (thr s t))"
  "m_owner (pop tc e s) = m_owner s" "cr_current (pop tc e s) = cr_current s" "syslog (pop tc e s) = syslog s"
  "doms (pop tc e s) = doms s"
  by (auto simp: pop_def upd_defs wf_ev_def refs_def)

lemma clear_woken_frame [simp]:
  "locks (clear_woken s) = locks s" "evs (clear_woken s) = evs s" "evl (clear_woken s) = evl s"
  "thr (clear_woken s) = thr s" "this_worker (clear_woken s) = this_worker s" "freed (clear_woken s) = freed s"
  "wf_ev (clear_woken s) = wf_ev s" "m_owner (clear_woken s) = m_owner s"
  "this_worker s = w \<Longrightarrow> woken_by_event (wrk (clear_woken s) w) = None" "cr_current (clear_woken s) = cr_current s"
  "syslog (clear_woken s) = syslog s" "doms (clear_woken s) = doms s"
  by (simp_all add: clear_woken_def upd_defs)

lemma pop_event_stack_eq:
  "O_thread tc \<notin> freed s \<Longrightarrow> pop_event_stack tc e s = Inr ((), pop tc e s)"
  by (simp add: pop_event_stack_def op_defs pop_def upd_defs)

text \<open>The event the thread waited for, and no signal, made it continue.\<close>

definition expected :: "tid \<Rightarrow> eid \<Rightarrow> tcr \<Rightarrow> bool" where
  "expected tc e s \<longleftrightarrow> event_stack (thr s tc) = Some e \<and>
     (woken_by_event (cur_worker s) = None \<or> woken_by_event (cur_worker s) = Some e)"

text \<open>The event already left its wait queue because it was woken up.\<close>

definition active :: "tid \<Rightarrow> eid \<Rightarrow> tcr \<Rightarrow> bool" where
  "active tc e s \<longleftrightarrow> ev_el (evs s e) = Some (Pending tc) \<or> ev_el (evs s e) = Some Immediate"

definition finished :: "tid \<Rightarrow> eid \<Rightarrow> tcr \<Rightarrow> bool \<times> tcr" where
  "finished tc e s =
     (if expected tc e s then (False, clear_woken (off e (pop tc e s)))
      else let w = the (woken_by_event (cur_worker s)) in
        if active tc e s then (False, pop tc e (clear_woken (link w (Pending tc) tc (off w (off e s)))))
        else (True, off e s))"

text \<open>What holds when a thread comes back from the scheduler: it was continued by its event or by a signal.\<close>

definition resumed :: "tid \<Rightarrow> eid \<Rightarrow> tcr \<Rightarrow> bool" where
  "resumed tc e s \<longleftrightarrow> wf_ev s \<and> lists_unlocked s \<and> cr_current s = tc \<and> O_thread tc \<notin> freed s \<and>
     (\<not> expected tc e s \<longrightarrow>
        (\<exists>w. woken_by_event (cur_worker s) = Some w \<and> w \<noteq> e \<and> ev_flags (evs s w) = EF_SIGNAL))"

lemma finish_wait_eq:
  assumes "resumed tc e s"
  shows "tc_waitq_finish_wait wq e s = Inr (finished tc e s)"
proof -
  let ?k = "(locks s)(L_list Immediate := Some (this_worker s), L_list (Pending tc) := Some (this_worker s))"
  have wf: "wf_ev s" and fr: "\<And>l. locks s (L_list l) = None" and c: "cr_current s = tc" and tc: "O_thread tc \<notin> freed s"
    using assms by (auto simp: resumed_def lists_unlocked_def)
  have k: "?k(L_list (Pending tc) := None, L_list Immediate := None) = locks s" using fr by (simp add: fun_eq_iff)
  have lock: "tc_waitq_finish_wait wq e s = finish_wait_locked tc e (s\<lparr>locks := ?k\<rparr>)"
    using fr c by (simp add: tc_waitq_finish_wait_def op_defs tc_current_def)
  have rm: "remove_event_holding_locks x [Pending tc, Immediate] (u\<lparr>locks := ?k\<rparr>) = Inr ((), (off x u)\<lparr>locks := ?k\<rparr>)"
    if "wf_ev u" "this_worker u = this_worker s" for x u
    by (subst remove_holding_eq) (use that fr in \<open>auto simp: push_locks holds_def free_lock_def\<close>)
  have add: "u_add_event x (Pending tc) tc (u\<lparr>locks := ?k\<rparr>) = Inr ((), (link x (Pending tc) tc u)\<lparr>locks := ?k\<rparr>)"
    if "ev_el (evs u x) = None" "this_worker u = this_worker s" for x u
    using that by (subst u_add_event_eq) (simp_all add: holds_def push_locks)
  have pp: "pop_event_stack tc e (u\<lparr>locks := ?k\<rparr>) = Inr ((), (pop tc e u)\<lparr>locks := ?k\<rparr>)" if "freed u = freed s" for u
    using that tc by (simp add: pop_event_stack_eq push_locks)
  show ?thesis
  proof (cases "expected tc e s")
    case True
    then have "finish_wait_locked tc e (s\<lparr>locks := ?k\<rparr>) = Inr (False, (clear_woken (off e (pop tc e s)))\<lparr>locks := locks s\<rparr>)"
      using k rm [of "pop tc e s" e] pp [of s] wf
      by (simp add: finish_wait_locked_def expected_def op_defs Let_def push_locks)
    then show ?thesis using lock True by (simp add: finished_def push_locks [symmetric])
  next
    case False
    then obtain w where w: "woken_by_event (cur_worker s) = Some w" "w \<noteq> e" "ev_flags (evs s w) = EF_SIGNAL"
      using assms by (auto simp: resumed_def)
    have ne: "\<not> (event_stack (thr s tc) = Some e \<and> (woken_by_event (cur_worker s) = None \<or> woken_by_event (cur_worker s) = Some e))"
      using False by (simp add: expected_def)
    note steps = rm [OF wf refl, of e] rm [of "off e s" w] add [of "off w (off e s)" w]
      pp [of "clear_woken (link w (Pending tc) tc (off w (off e s)))"]
    have "finish_wait_locked tc e (s\<lparr>locks := ?k\<rparr>) = Inr (map_prod id (\<lambda>u. u\<lparr>locks := locks s\<rparr>) (finished tc e s))"
    proof (cases "active tc e s")
      case True
      then show ?thesis
        using k steps w wf_off [OF wf] ne False
        by (simp add: finish_wait_locked_def finished_def active_def op_defs Let_def push_locks)
    next
      case False
      then show ?thesis
        using k steps w ne \<open>\<not> expected tc e s\<close>
        by (simp add: finish_wait_locked_def finished_def active_def op_defs Let_def)
    qed
    moreover have "locks (snd (finished tc e s)) = locks s" by (simp add: finished_def Let_def)
    ultimately show ?thesis using lock by (cases "finished tc e s") simp
  qed
qed


section \<open>Properties\<close>

text \<open>C14: \<^verbatim>\<open>tc_waitq_wakeup_one_owner\<close> takes exactly the waiter that has waited longest: it becomes the first event of the
  immediate list, the mutex (if one is given) now belongs to its thread, and the eventfd of its domain is
  written once. Without a waiter the mutex becomes free and nothing else happens. No lock is kept and the queue
  invariant holds.\<close>

theorem wakeup_one_fifo:
  assumes "wf_ev s" and "free_lock s (L_list Immediate)" and "free_lock s (L_list (Waiters wq))" and "eventfd_ok s"
  shows "\<exists>s'. tc_waitq_wakeup_one_owner wq woken s = Inr ((), s') \<and> wf_ev s' \<and> locks s' = locks s \<and>
    (\<forall>k. woken \<noteq> Some k \<longrightarrow> m_owner s' k = m_owner s k) \<and>
    (case evl s (Waiters wq) of
       [] \<Rightarrow> evl s' = evl s \<and> syslog s' = syslog s \<and> (\<forall>m. woken = Some m \<longrightarrow> m_owner s' m = None)
     | e # es \<Rightarrow> evl s' = (evl s)(Waiters wq := es, Immediate := e # evl s Immediate) \<and>
         syslog s' = syslog s @ [iwi_of s (ev_domain (evs s e))] \<and>
         (\<forall>m. woken = Some m \<longrightarrow> m_owner s' m = Some (ev_tc (evs s e))))"
proof (cases "evl s (Waiters wq)")
  case Nil
  with wakeup_one_empty [OF assms(2,3), of woken] assms(1) show ?thesis
    by (cases woken) auto
next
  case (Cons e es)
  then have "ev_el (evs s e) = Some (Waiters wq)" using wf_evD(2) [OF assms(1), of e "Waiters wq"] by simp
  then have "wf_ev (relink_hd e (Waiters wq) Immediate s)" using wf_ev_relink_hd assms(1) by simp
  with Cons wakeup_one_eq [OF assms(2-4) Cons, of woken] show ?thesis
    by (cases woken) (auto simp: evl_relink_hd)
qed

definition one_waiter_ok :: tcr where
  "one_waiter_ok = one_waiter\<lparr>sysres := (\<lambda>_. SIZEOF_EVENTFD)\<rparr>"

lemma one_waiter_ok_simps [simp]:
  "wf_ev one_waiter_ok" "free_lock one_waiter_ok l" "eventfd_ok one_waiter_ok" "lists_unlocked one_waiter_ok"
  "evl one_waiter_ok (Waiters (Wq 0)) = [7]" "ev_tc (evs one_waiter_ok 7) = 1" "evl one_waiter_ok Immediate = []"
  "ev_flags (evs one_waiter_ok 7) = EF_READY" "cr_current one_waiter_ok = 0" "freed one_waiter_ok = {}"
  "ev_el (evs one_waiter_ok 9) = None"
  by (simp_all add: one_waiter_ok_def wf_one_waiter)
     (simp_all add: one_waiter_def link_def free_lock_def eventfd_ok_def lists_unlocked_def)

theorem wakeup_one_fifo_witness:
  "\<exists>s'. tc_waitq_wakeup_one_owner (Wq 0) (Some (Mutex 4)) one_waiter_ok = Inr ((), s') \<and>
     evl s' Immediate = [7] \<and> m_owner s' (Mutex 4) = Some 1"
  using wakeup_one_fifo [of one_waiter_ok "Wq 0" "Some (Mutex 4)"] by auto

text \<open>C15: \<^verbatim>\<open>tc_waitq_wakeup_all\<close> leaves no waiter behind: all events of the queue are on the immediate list, the last waiter first,
  followed by what was there; every domain with a waiter gets a write to its eventfd, exactly one when they are at
  most ten; every fired signal is counted once for its thread; no lock is kept and the queue invariant holds.\<close>

theorem wakeup_all_correct:
  assumes "wf_ev s" and "free_lock s (L_list Immediate)" and "free_lock s (L_list (Waiters wq))" and "eventfd_ok s"
  shows "\<exists>s' ds. tc_waitq_wakeup_all wq s = Inr ((), s') \<and> wf_ev s' \<and> locks s' = locks s \<and>
    evl s' = (evl s)(Waiters wq := [], Immediate := rev (evl s (Waiters wq)) @ evl s Immediate) \<and>
    syslog s' = syslog s @ map (iwi_of s) ds \<and>
    set ds = (\<lambda>e. ev_domain (evs s e)) ` set (evl s (Waiters wq)) \<and>
    (card (set ds) \<le> 10 \<longrightarrow> distinct ds) \<and>
    (\<forall>t. signals_since_last_query (thr s' t) =
       signals_since_last_query (thr s t) + signals_for s (evl s (Waiters wq)) t)"
  by (rule wakeup_all_result [OF assms]) (unfold ALERTED_SIZE_def, blast)

theorem wakeup_all_correct_witness:
  "\<exists>s'. tc_waitq_wakeup_all (Wq 0) one_waiter_ok = Inr ((), s') \<and> evl s' Immediate = [7] \<and> evl s' (Waiters (Wq 0)) = []"
  using wakeup_all_correct [of one_waiter_ok "Wq 0"] by auto

text \<open>C12: When a thread comes back from the scheduler, \<^verbatim>\<open>tc_waitq_finish_wait\<close> always returns, with its event on no list and
  the queue invariant intact. It reports an interruption exactly when a signal continued the thread and the
  event itself has not been woken up, so a wake-up (and a mutex passed with it) is never lost; when both happened the
  signal is queued again for the next wait. Only when it reports no interruption is the event popped from the
  thread's event stack: after an interruption the stack still points to it.\<close>

theorem finish_wait_correct:
  assumes "resumed tc e s"
  shows "\<exists>b s'. tc_waitq_finish_wait wq e s = Inr (b, s') \<and> wf_ev s' \<and> locks s' = locks s \<and> (\<forall>l. e \<notin> set (evl s' l)) \<and>
    (b \<longleftrightarrow> \<not> expected tc e s \<and> \<not> active tc e s) \<and>
    (\<not> b \<longrightarrow> event_stack (thr s' tc) = next_in_stack (evs s e) \<and> woken_by_event (cur_worker s') = None) \<and>
    (b \<longrightarrow> event_stack (thr s' tc) = event_stack (thr s tc)) \<and>
    (\<not> expected tc e s \<longrightarrow> (\<exists>w. woken_by_event (cur_worker s) = Some w \<and>
       ev_el (evs s' w) = (if b then ev_el (evs s w) else Some (Pending tc))))"
proof -
  have wf: "wf_ev s" using assms by (simp add: resumed_def)
  show ?thesis
  proof (cases "expected tc e s")
    case True
    then show ?thesis
      using finish_wait_eq [OF assms, of wq] wf wf_off [of "pop tc e s" e] off_notin [of "pop tc e s" e]
      by (auto simp: finished_def)
  next
    case False
    then obtain w where w: "woken_by_event (cur_worker s) = Some w" "w \<noteq> e" using assms by (auto simp: resumed_def)
    have wf2: "wf_ev (off w (off e s))" by (simp add: wf_off wf)
    have wf3: "wf_ev (link w (Pending tc) tc (off w (off e s)))" by (rule wf_ev_link [OF wf2]) simp_all
    have "ev_el (evs (link w (Pending tc) tc (off w (off e s))) e) = None" using w(2) by (simp add: link_def)
    then have "e \<notin> set (evl (link w (Pending tc) tc (off w (off e s))) l)" for l using wf_evD(2) [OF wf3] by simp
    moreover have "ev_el (evs (link w (Pending tc) tc (off w (off e s))) w) = Some (Pending tc)" by (simp add: link_def)
    moreover have "cur_worker (off e s) = cur_worker s" by simp
    ultimately show ?thesis
      using finish_wait_eq [OF assms, of wq] False w wf wf3 wf_off [OF wf] off_notin [OF wf]
      by (auto simp: finished_def Let_def)
  qed
qed

text \<open>Thread 1 waits with event 7, on top of its stack; a signal with event 9 continued it.\<close>

definition interrupted_waiter :: tcr where
  "interrupted_waiter = (link 9 (Waiters (Sig_wq 2)) 1 one_waiter_ok)\<lparr>
     evs := (evs (link 9 (Waiters (Sig_wq 2)) 1 one_waiter_ok))
       (9 := (evs (link 9 (Waiters (Sig_wq 2)) 1 one_waiter_ok) 9)\<lparr>ev_flags := EF_SIGNAL\<rparr>),
     thr := (thr (link 9 (Waiters (Sig_wq 2)) 1 one_waiter_ok))
       (1 := (thr (link 9 (Waiters (Sig_wq 2)) 1 one_waiter_ok) 1)\<lparr>event_stack := Some 7\<rparr>),
     wrk := (\<lambda>_. zero_worker\<lparr>woken_by_event := Some 9\<rparr>), cr_current := 1\<rparr>"

lemma resumed_interrupted_waiter: "resumed 1 7 interrupted_waiter"
proof -
  have "wf_ev (link 9 (Waiters (Sig_wq 2)) 1 one_waiter_ok)" by (rule wf_ev_link) simp_all
  then have "wf_ev interrupted_waiter"
    by (subst wf_ev_cong_events [where s = "link 9 (Waiters (Sig_wq 2)) 1 one_waiter_ok"])
       (simp_all add: interrupted_waiter_def)
  moreover have "lists_unlocked interrupted_waiter"
    using one_waiter_ok_simps(4) by (simp add: interrupted_waiter_def lists_unlocked_def)
  ultimately show ?thesis
    by (simp add: resumed_def expected_def) (simp add: interrupted_waiter_def)
qed

theorem finish_wait_correct_witness:
  "\<exists>s'. tc_waitq_finish_wait None 7 interrupted_waiter = Inr (True, s') \<and>
     (\<forall>l. 7 \<notin> set (evl s' l)) \<and> event_stack (thr s' 1) = Some 7"
proof -
  have "ev_el (evs one_waiter_ok 7) = Some (Waiters (Wq 0))"
    using wf_evD(2) [OF one_waiter_ok_simps(1), of 7 "Waiters (Wq 0)"] by simp
  then have "\<not> expected 1 7 interrupted_waiter" "\<not> active 1 7 interrupted_waiter" "event_stack (thr interrupted_waiter 1) = Some 7"
    by (simp_all add: expected_def active_def interrupted_waiter_def link_def)
  with finish_wait_correct [OF resumed_interrupted_waiter, of None] show ?thesis by auto
qed

text \<open>A wait that ends before the thread was switched out (the condition turned out to be true) is without trace:
  \<^verbatim>\<open>tc_waitq_prepare_to_wait\<close> followed by \<^verbatim>\<open>tc_waitq_finish_wait\<close> reports no interruption and
  restores every list, every reference counter and the event stack.\<close>

lemma prepare_finish_roundtrip:
  assumes "wf_ev s" and "lists_unlocked s" and "ev_el (evs s e) = None" and "O_thread (cr_current s) \<notin> freed s"
  shows "\<exists>s1 s2. tc_waitq_prepare_to_wait wq e s = Inr ((), s1) \<and> evl s1 (Waiters wq) = evl s (Waiters wq) @ [e] \<and>
    tc_waitq_finish_wait (Some wq) e s1 = Inr (False, s2) \<and> wf_ev s2 \<and> evl s2 = evl s \<and> locks s2 = locks s \<and>
    (\<forall>t. refcnt (thr s2 t) = refcnt (thr s t) \<and> event_stack (thr s2 t) = event_stack (thr s t))"
proof -
  let ?c = "cr_current s" and ?s0 = "ready e s"
  let ?s1 = "prepared wq e ?c ?s0"
  have p: "tc_waitq_prepare_to_wait wq e s = Inr ((), ?s1)"
    using assms by (intro prepare_eq) (simp_all add: lists_unlocked_def free_lock_def)
  have wf1: "wf_ev ?s1" using assms by (intro wf_prepared) simp_all
  have ex: "expected ?c e ?s1"
    by (simp add: expected_def prepared_def Let_def ready_def upd_defs clear_woken_def)
  have r: "resumed ?c e ?s1"
    using assms wf1 ex by (simp add: resumed_def prepared_def Let_def ready_def upd_defs clear_woken_def lists_unlocked_def)
  have n: "e \<notin> set (evl s l)" for l using wf_evD(2) [OF assms(1)] assms(3) by simp
  show ?thesis
    using p finish_wait_eq [OF r, of "Some wq"] ex wf1 wf_off [of "pop ?c e ?s1" e] n
    by (simp add: finished_def)
       (simp add: off_def unlink_def pop_def prepared_def Let_def ready_def upd_defs clear_woken_def link_def)
qed

lemma prepare_finish_roundtrip_witness:
  "\<exists>s1 s2. tc_waitq_prepare_to_wait (Wq 0) 9 one_waiter_ok = Inr ((), s1) \<and> evl s1 (Waiters (Wq 0)) = [7, 9] \<and>
     tc_waitq_finish_wait (Some (Wq 0)) 9 s1 = Inr (False, s2) \<and> evl s2 = evl one_waiter_ok"
  using prepare_finish_roundtrip [of one_waiter_ok 9 "Wq 0"] by auto

end
