(* ===== verification/Scheduler.thy ===== *)
theory Scheduler
  imports Epoll_Match Waitq Sync_Free
begin

text \<open>
  The scheduler: dispatching an event to its thread, the search of the immediate list, \<^verbatim>\<open>tc_scheduler\<close> and the loop
  \<^verbatim>\<open>scheduler_part2\<close> that every worker runs on a stack of its own.

  Functions that switch coroutines run on a pair of the process state and the list of what will happen while the coroutine
  is switched out: \<^verbatim>\<open>cr_call\<close> applies the next element of that list, which stands for everything all
  workers do until this coroutine is switched in again. With no element left the coroutine stays suspended.
\<close>

section \<open>Blocking operations\<close>

type_synonym env = "(tcr \<Rightarrow> tcr) list"
type_synonym 'a bop = "(tcr \<times> env, fault, 'a) op"

definition lift :: "'a tcop \<Rightarrow> 'a bop" where
  "lift m = (\<lambda>(s, env). case m s of Inl f \<Rightarrow> Inl f | Inr (x, s') \<Rightarrow> Inr (x, (s', env)))"

definition rds :: "(tcr \<Rightarrow> 'a bop) \<Rightarrow> 'a bop" where
  "rds k = (\<lambda>(s, env). k s (s, env))"

definition cr_call :: "tid \<Rightarrow> unit bop" where
  "cr_call cr = (\<lambda>(s, env).
     let s1 = s\<lparr>cr_caller_of := (cr_caller_of s)(cr := cr_current s), cr_current := cr\<rparr>
     in case env of [] \<Rightarrow> Inl Suspended | g # env' \<Rightarrow> Inr ((), (g s1, env')))"

definition cr_caller :: "tcr \<Rightarrow> tid" where
  "cr_caller s = cr_caller_of s (cr_current s)"

lemmas bop_defs [op_defs] = lift_def rds_def

section \<open>Switching threads\<close>

definition u_switch_to :: "tid \<Rightarrow> unit bop" where
  "u_switch_to new = block [
     lift (whn (\<lambda>s. \<not> tc_cr (thr s new)) (msg_exit ''die!'')),
     lift (spin_lock (L_running new)),
     cr_call new,
     lift (rdm (\<lambda>s. spin_unlock (L_running (cr_caller s))))]"

definition switch_to :: "tid \<Rightarrow> unit bop" where
  "switch_to new = block [
     lift (rdm (\<lambda>s. whn (\<lambda>s. worker_nr (thr s new) \<noteq> w_nr (cur_worker s) \<and> TF_AFFINE \<notin> tc_flags (thr s new))
       (mdf (upd_thr new (worker_nr_update (\<lambda>_. w_nr (cur_worker s))))))),
     lift (rdm (\<lambda>s. mdf (upd_thr new (last_worker_update (\<lambda>_. this_worker s))))),
     u_switch_to new]"

definition arm_aio_efd :: "epoll_op \<Rightarrow> unit tcop" where
  "arm_aio_efd eop = bnd
     (rdm (\<lambda>s. sys_call (Epoll_ctl (d_efd (cur_domain s)) eop (aio_eventfd (cur_domain s)) (EPOLLIN OR EPOLLONESHOT))))
     (\<lambda>r. if r \<noteq> 0 then msg_exit ''epoll_ctl for AIO arm failed'' else ret ())"

definition arm_immediate :: "epoll_op \<Rightarrow> unit tcop" where
  "arm_immediate eop = bnd
     (rdm (\<lambda>s. sys_call (Epoll_ctl (d_efd (cur_domain s)) eop (immediate_fd (cur_domain s)) (EPOLLIN OR EPOLLONESHOT))))
     (\<lambda>r. if r \<noteq> 0 then msg_exit ''epoll_ctl for immediate arm failed'' else ret ())"

definition rearm_immediate :: "unit tcop" where
  "rearm_immediate = bnd (rdm (\<lambda>s. sys_call (Eventfd_read (immediate_fd (cur_domain s)))))
     (\<lambda>r. if r \<noteq> SIZEOF_EVENTFD then msg_exit ''read() failed'' else arm_immediate EPOLL_CTL_MOD)"

definition tc_thread_free :: "tid \<Rightarrow> unit tcop" where
  "tc_thread_free tc = rdm (\<lambda>s.
     let d = tc_dom (thr s tc)
     in block [
       spin_lock (L_running tc),
       tc_waitq_unregister (Exit_wq tc),
       free_obj (O_cr tc),
       mdf (upd_thr tc (tc_cr_update (\<lambda>_. False))),
       whn (\<lambda>s. TF_FREE_NAME \<in> tc_flags (thr s tc)) (free_obj (O_name tc)),
       free_obj (O_thread tc),
       u_iwi_immediate d])"

section \<open>Dispatching an event\<close>

text \<open>The member \<^verbatim>\<open>signal\<close> of the union of an event, if it was written last.\<close>

definition signal_of :: "event \<Rightarrow> sid option" where
  "signal_of v = (case ev_u v of Signal g \<Rightarrow> Some g | _ \<Rightarrow> None)"

definition with_signal :: "eid \<Rightarrow> (elist \<Rightarrow> 'a tcop) \<Rightarrow> 'a tcop" where
  "with_signal e k = (\<lambda>s. case signal_of (evs s e) of
      None \<Rightarrow> Inl (Null_deref ''e->signal'') | Some g \<Rightarrow> k (Waiters (Sig_wq g)) s)"

definition set_running :: "tid \<Rightarrow> tcr \<Rightarrow> tcr" where
  "set_running tc = upd_thr tc (tc_flags_update (insert TF_RUNNING))"

definition clear_running :: "tid \<Rightarrow> tcr \<Rightarrow> tcr" where
  "clear_running tc = upd_thr tc (tc_flags_update (\<lambda>f. f - {TF_RUNNING}))"

definition woken_by :: "eid \<Rightarrow> tcr \<Rightarrow> tcr" where
  "woken_by e = upd_cur_worker (woken_by_event_update (\<lambda>_. Some e))"

definition woken_by_fd :: "event_union \<Rightarrow> tcr \<Rightarrow> tcr" where
  "woken_by_fd u = upd_cur_worker (woken_by_tcfd_update (\<lambda>_. u))"

definition stash_tcfd :: "eid \<Rightarrow> tcr \<Rightarrow> tcr" where
  "stash_tcfd e s = upd_ev e (ev_u_update (\<lambda>_. woken_by_tcfd (cur_worker s))) s"

text \<open>The thread of the event cannot take it now: it runs, or waits for another event.\<close>

definition must_queue :: "eid \<Rightarrow> tid \<Rightarrow> tcr \<Rightarrow> bool" where
  "must_queue e tc s \<longleftrightarrow> TF_RUNNING \<in> tc_flags (thr s tc) \<or>
     (ev_flags (evs s e) \<noteq> EF_SIGNAL \<and> event_stack (thr s tc) \<noteq> None \<and> event_stack (thr s tc) \<noteq> Some e)"

definition queue_or_take :: "eid \<Rightarrow> tid \<Rightarrow> unit tcop \<Rightarrow> tid option tcop" where
  "queue_or_take e tc take_it = ifm (must_queue e tc)
     (thn (block [
        whn (\<lambda>s. ev_flags (evs s e) \<noteq> EF_SIGNAL) (mdf (stash_tcfd e)),
        move_event e (Pending tc)]) (ret None))
     (thn (block [
        mdf (set_running tc),
        take_it,
        mdf (woken_by e)]) (ret (Some tc)))"

definition run_or_queue :: "eid \<Rightarrow> tid option tcop" where
  "run_or_queue e = rdm (\<lambda>s.
     let tc = ev_tc (evs s e)
     in thn (assertm ''e->el'' (\<lambda>s. ev_el (evs s e) \<noteq> None))
       (if ev_flags (evs s e) = EF_EXITING then
          thn (u_remove_event e Immediate) (ret (Some tc))
        else if ev_flags (evs s e) = EF_SIGNAL then
          with_signal e (\<lambda>waiters.
            thn (block [spin_lock (L_list (Pending tc)), spin_lock (L_list waiters)])
              (bnd (queue_or_take e tc (move_event e waiters)) (\<lambda>r.
                 thn (block [spin_unlock (L_list waiters), spin_unlock (L_list (Pending tc))]) (ret r))))
        else
          thn (spin_lock (L_list (Pending tc)))
            (bnd (queue_or_take e tc (with_el e (u_remove_event e))) (\<lambda>r.
               thn (spin_unlock (L_list (Pending tc))) (ret r)))))"

section \<open>The immediate list\<close>

definition FREE_WORKER :: int where "FREE_WORKER = -1"
definition ANY_WORKER :: int where "ANY_WORKER = -2"

definition wanted :: "int \<Rightarrow> tc_thread \<Rightarrow> bool" where
  "wanted nr t \<longleftrightarrow> nr = ANY_WORKER \<or> worker_nr t = nr \<or> (if nr = FREE_WORKER then TF_AFFINE \<notin> tc_flags t else False)"

fun scan_immediate :: "int \<Rightarrow> eid list \<Rightarrow> eid option tcop" where
  "scan_immediate nr [] = ret None"
| "scan_immediate nr (e # es) = thn
     (assertm ''e->domain == e->tc->domain'' (\<lambda>s. ev_domain (evs s e) = tc_dom (thr s (ev_tc (evs s e)))))
     (ifm (\<lambda>s. ev_domain (evs s e) \<noteq> this_domain s \<or> \<not> wanted nr (thr s (ev_tc (evs s e))))
       (scan_immediate nr es) (ret (Some e)))"

text \<open>
  \<^verbatim>\<open>_run_immediate\<close> from the label \<^verbatim>\<open>search_loop_locked\<close> on. Each round that starts the search again has taken an event
  off the immediate list, so the length of the list bounds the number of rounds.
\<close>

fun run_immediate_loop :: "nat \<Rightarrow> int \<Rightarrow> bool bop" where
  "run_immediate_loop 0 nr = throw Out_of_fuel"
| "run_immediate_loop (Suc n) nr =
     thn (lift (mdf (woken_by_fd (Tcfd None))))
     (bnd (lift (rdm (\<lambda>s. scan_immediate nr (evl s Immediate)))) (\<lambda>found. case found of
        None \<Rightarrow> thn (lift (spin_unlock (L_list Immediate))) (ret False)
      | Some e \<Rightarrow> bnd (lift (run_or_queue e)) (\<lambda>r. case r of
          None \<Rightarrow> run_immediate_loop n nr
        | Some tc \<Rightarrow> rds (\<lambda>s.
            if ev_flags (evs s e) = EF_EXITING then
              thn (lift (block [
                spin_unlock (L_list Immediate),
                tc_thread_free (ev_tc (evs s e)),
                spin_lock (L_list Immediate)])) (run_immediate_loop n nr)
            else
              thn (block [
                lift (whn (\<lambda>s. evl s Immediate \<noteq> []) (rdm (\<lambda>s. u_iwi_immediate (this_domain s)))),
                lift (spin_unlock (L_list Immediate)),
                switch_to tc]) (ret True)))))"

definition u_run_immediate :: "int \<Rightarrow> bool bop" where
  "u_run_immediate nr = thn (lift (spin_lock (L_list Immediate)))
     (rds (\<lambda>s. run_immediate_loop (Suc (length (evl s Immediate))) nr))"

fun run_immediate_iter :: "nat \<Rightarrow> bool \<Rightarrow> bool bop" where
  "run_immediate_iter 0 did = ret did"
| "run_immediate_iter (Suc i) did =
     (if \<not> did then ret did
      else bnd (rds (\<lambda>s.
             if immediate_count s < nr_of_workers (cur_domain s) * 2 then
               bnd (u_run_immediate (w_nr (cur_worker s))) (\<lambda>d1.
               bnd (u_run_immediate FREE_WORKER) (\<lambda>d2. ret (d2 \<or> d1)))
             else ret did)) (\<lambda>d.
           bnd (u_run_immediate ANY_WORKER) (\<lambda>d3. run_immediate_iter i (d3 \<or> d))))"

definition run_immediate :: "bool bop" where
  "run_immediate = run_immediate_iter 4 True"

section \<open>Giving up the worker\<close>

text \<open>
  The event a thread with pending events continues with: the one on top of its stack; without a stack the first; and a signal (the
  last one on the list) when the event it waits for is not among them.
\<close>

fun find_pending :: "tcr \<Rightarrow> eid \<Rightarrow> eid option \<Rightarrow> eid list \<Rightarrow> eid option" where
  "find_pending s tp sig [] = sig"
| "find_pending s tp sig (e # es) =
     (if e = tp then Some e
      else find_pending s tp (if ev_flags (evs s e) = EF_SIGNAL then Some e else sig) es)"

definition pick_pending :: "tcr \<Rightarrow> tid \<Rightarrow> eid option" where
  "pick_pending s tc = (case evl s (Pending tc) of [] \<Rightarrow> None
     | e # es \<Rightarrow> (case event_stack (thr s tc) of None \<Rightarrow> Some e | Some tp \<Rightarrow> find_pending s tp None (e # es)))"

definition take_pending :: "tid \<Rightarrow> eid \<Rightarrow> unit tcop" where
  "take_pending tc e = block [
     ifm (\<lambda>s. ev_flags (evs s e) = EF_SIGNAL)
       (with_signal e (\<lambda>w. block [spin_lock (L_list w), move_event e w, spin_unlock (L_list w)]))
       (u_remove_event e (Pending tc)),
     mdf (woken_by e),
     rdm (\<lambda>s. mdf (woken_by_fd (ev_u (evs s e))))]"

text \<open>True: the thread continues at once.\<close>

definition sched_pick :: "bool tcop" where
  "sched_pick = rdm (\<lambda>s0. let tc = tc_current s0 in
     thn (spin_lock (L_list (Pending tc)))
       (rdm (\<lambda>s. case pick_pending s tc of
           Some e \<Rightarrow> thn (block [take_pending tc e, spin_unlock (L_list (Pending tc))]) (ret True)
         | None \<Rightarrow> thn (block [
             mdf (clear_running tc),
             spin_unlock (L_list (Pending tc))]) (ret False))))"

definition tc_scheduler :: "unit bop" where
  "tc_scheduler = bnd (lift sched_pick) (\<lambda>stay. if stay then ret ()
     else rds (\<lambda>s. u_switch_to (sched_p2 (cur_worker s))))"

text \<open>\<open>e\<close> is the address of the local \<^verbatim>\<open>struct event\<close>.\<close>

definition tc_sched_yield :: "eid \<Rightarrow> tc_rv bop" where
  "tc_sched_yield e = rds (\<lambda>s0. let tc = tc_current s0 in
     thn (block [
       lift (mdf (tc_event_init e)),
       lift (add_event_cr e 0 EF_READY tc),
       lift (u_tc_event_on_tc_stack e tc),
       tc_scheduler])
     (bnd (lift (ifm (\<lambda>s. woken_by_event (cur_worker s) \<noteq> Some e)
          (thn (remove_event e) (ret RV_INTR))
          (thn (mdf clear_woken) (ret RV_OK)))) (\<lambda>rv.
        thn (lift (rdm (\<lambda>s. mdf (upd_thr tc (event_stack_update (\<lambda>_. next_in_stack (evs s e))))))) (ret rv))))"


section \<open>The worker's loop\<close>

definition AIOs_AT_ONCE :: nat where "AIOs_AT_ONCE = 8"

text \<open>What \<^verbatim>\<open>io_getevents\<close> delivers for one completed request: its descriptor and the two results.\<close>

type_synonym io_event = "adid \<times> int \<times> int"

definition complete_aio :: "io_event \<Rightarrow> unit tcop" where
  "complete_aio ev = (case ev of (ad, r, r2) \<Rightarrow> block [
     mdf (upd_aio ad (\<lambda>a. a\<lparr>aio_res := r, aio_res2 := r2, aio_done := Aio_done\<rparr>)),
     rdm (\<lambda>s. case aio_notify (aios s ad) of None \<Rightarrow> ret () | Some wq \<Rightarrow> tc_waitq_wakeup_all wq)])"

text \<open>
  The loop of \<^verbatim>\<open>handle_aio_event\<close>, which reads at most eight events at a time; \<open>getev i\<close> is what the \<open>i\<close>-th call of
  \<^verbatim>\<open>io_getevents\<close> gives, \<open>None\<close> an error. The events of one batch are handled from the last to the first.
\<close>

function aio_loop :: "(nat \<Rightarrow> io_event list option) \<Rightarrow> nat \<Rightarrow> nat \<Rightarrow> unit tcop" where
  "aio_loop getev i cnt = (if cnt = 0 then ret () else
     (case getev i of
        None \<Rightarrow> msg_exit ''io_getevents failed''
      | Some es \<Rightarrow> thn (formap complete_aio (rev es))
          (aio_loop getev (Suc i) (cnt - (if cnt > AIOs_AT_ONCE then AIOs_AT_ONCE else cnt)))))"
  by pat_completeness auto
termination
  by (relation "measure (\<lambda>(_, _, c). c)") (auto simp: AIOs_AT_ONCE_def)

declare aio_loop.simps [simp del]

definition handle_aio_event :: "nat \<Rightarrow> (nat \<Rightarrow> io_event list option) \<Rightarrow> unit tcop" where
  "handle_aio_event cnt getev = bnd (rdm (\<lambda>s. sys_call (Eventfd_read (aio_eventfd (cur_domain s))))) (\<lambda>r.
     if r \<noteq> SIZEOF_EVENTFD then msg_exit ''read() failed''
     else block [aio_loop getev 0 cnt, arm_aio_efd EPOLL_CTL_MOD])"

text \<open>What \<^verbatim>\<open>epoll_wait\<close> returns, and the content of \<^verbatim>\<open>epe.data\<close>.\<close>

datatype epoll_data = Data_zero | IWI_SYNC | IWI_IMMEDIATE | IWI_ASYNC_IO | Data_ptr fdid
datatype epoll_result = Ep_error | Ep_eintr | Ep_return epoll_data u32

text \<open>Each call of \<^verbatim>\<open>epoll_wait\<close> is a result and what the other workers do before it returns.\<close>

fun poll_loop :: "bool \<Rightarrow> (epoll_result \<times> (tcr \<Rightarrow> tcr)) list \<Rightarrow> (epoll_data \<times> u32) tcop" where
  "poll_loop have_work [] = throw Suspended"
| "poll_loop have_work ((r, g) # ps) = thn (block [
     rdm (\<lambda>s. sys_ignore (Epoll_wait (d_efd (cur_domain s)) have_work)),
     mdf g])
   (case r of
      Ep_return d m \<Rightarrow> ret (d, m)
    | Ep_eintr \<Rightarrow> ifm (\<lambda>s. must_sync (cur_worker s)) (ret (IWI_SYNC, 0)) (poll_loop have_work ps)
    | Ep_error \<Rightarrow> msg_exit ''epoll_wait() failed'')"

text \<open>The choice of the event for a descriptor that epoll reported, with the descriptor's list locked.\<close>

definition fd_pick :: "fdid \<Rightarrow> u32 \<Rightarrow> eid option tcop" where
  "fd_pick tcfd events =
     (let l = Fd_events tcfd in
      ifm (\<lambda>s. err_hup (fds s tcfd))
        (wakeup_all_events l)
        (if events AND (EPOLLERR OR EPOLLHUP) \<noteq> 0 then
           thn (mdf (upd_fd tcfd (err_hup_update (\<lambda>_. True)))) (wakeup_all_events l)
         else bnd (matching_event events l) (\<lambda>e.
           thn (block [
             mdf (upd_fd tcfd (fd_ep_events_update (\<lambda>_. 0))),
             whn (\<lambda>s. evl s l \<noteq> [] \<and> (Some (hd (evl s l)) \<noteq> e \<or> Some (last (evl s l)) \<noteq> e))
               (bnd (arm tcfd) (\<lambda>er. if er \<noteq> 0 then msg ''cannot re-arm fd'' else ret ()))])
           (ret e))))"

definition fd_event :: "fdid \<Rightarrow> u32 \<Rightarrow> tid option tcop" where
  "fd_event tcfd events = thn (spin_lock (L_list (Fd_events tcfd)))
     (bnd (fd_pick tcfd events) (\<lambda>e. case e of
        None \<Rightarrow> thn (block [
          whn (\<lambda>_. events AND EPOLLERR \<noteq> 0 \<or> events AND EPOLLHUP \<noteq> 0)
            (rdm (\<lambda>s. sys_ignore (Epoll_ctl (d_efd (cur_domain s)) EPOLL_CTL_DEL (fd_fd (fds s tcfd)) 0))),
          spin_unlock (L_list (Fd_events tcfd)),
          worker_after_sleep]) (ret None)
      | Some e \<Rightarrow> thn (mdf (woken_by_fd (Tcfd (Some tcfd))))
          (bnd (run_or_queue e) (\<lambda>tc.
             thn (block [spin_unlock (L_list (Fd_events tcfd)), worker_after_sleep]) (ret tc)))))"

record part2_input =
  polls :: "(epoll_result \<times> (tcr \<Rightarrow> tcr)) list"
  aio_count :: nat
  aio_getevents :: "nat \<Rightarrow> io_event list option"

text \<open>One round of the endless loop of \<^verbatim>\<open>scheduler_part2\<close>.\<close>

definition scheduler_part2_round :: "part2_input \<Rightarrow> unit bop" where
  "scheduler_part2_round i = bnd run_immediate (\<lambda>have_work.
     thn (lift worker_prepare_sleep)
     (bnd (lift (poll_loop have_work (polls i))) (\<lambda>(d, events). case d of
        Data_zero \<Rightarrow> lift (block [assertm ''have_work'' (\<lambda>_. have_work), worker_after_sleep])
      | IWI_SYNC \<Rightarrow> lift worker_after_sleep
      | IWI_ASYNC_IO \<Rightarrow> lift (block [handle_aio_event (aio_count i) (aio_getevents i), worker_after_sleep])
      | IWI_IMMEDIATE \<Rightarrow> lift (block [worker_after_sleep, rearm_immediate])
      | Data_ptr tcfd \<Rightarrow> bnd (lift (fd_event tcfd events)) (\<lambda>tc.
          case tc of None \<Rightarrow> ret () | Some t \<Rightarrow> switch_to t))))"

definition scheduler_part2 :: "part2_input list \<Rightarrow> unit bop" where
  "scheduler_part2 inputs = block [
     lift (rdm (\<lambda>s. spin_unlock (L_running (cr_caller s)))),
     formap scheduler_part2_round inputs]"


section \<open>What dispatching does\<close>

lemma wf_set_running [simp]: "wf_ev (set_running tc s) = wf_ev s"
  by (rule wf_ev_cong) (simp_all add: set_running_def upd_defs)

lemma wf_clear_running [simp]: "wf_ev (clear_running tc s) = wf_ev s"
  by (rule wf_ev_cong) (simp_all add: clear_running_def upd_defs)

lemma wf_stash_tcfd [simp]: "wf_ev (stash_tcfd e s) = wf_ev s"
  by (rule wf_ev_cong_events) (simp_all add: stash_tcfd_def upd_defs)

lemma must_queue_locks [simp]: "must_queue e tc (s\<lparr>locks := k\<rparr>) = must_queue e tc s"
  by (simp add: must_queue_def)

lemma sched_frame [simp]:
  "wf_ev (woken_by e s) = wf_ev s" "wf_ev (woken_by_fd u s) = wf_ev s"
  "locks (set_running tc s) = locks s" "locks (clear_running tc s) = locks s" "locks (woken_by e s) = locks s"
  "locks (woken_by_fd u s) = locks s" "locks (stash_tcfd e s) = locks s"
  "this_worker (set_running tc s) = this_worker s" "this_worker (stash_tcfd e s) = this_worker s"
  "this_worker (woken_by e s) = this_worker s" "this_worker (woken_by_fd u s) = this_worker s"
  "this_worker (clear_running tc s) = this_worker s"
  "evs (set_running tc s) = evs s" "evs (clear_running tc s) = evs s" "evs (woken_by e s) = evs s"
  "evs (woken_by_fd u s) = evs s" "evl (set_running tc s) = evl s" "evl (clear_running tc s) = evl s"
  "evl (woken_by e s) = evl s" "evl (woken_by_fd u s) = evl s" "evl (stash_tcfd e s) = evl s"
  "ev_el (evs (stash_tcfd e s) x) = ev_el (evs s x)" "ev_tc (evs (stash_tcfd e s) x) = ev_tc (evs s x)"
  "ev_flags (evs (stash_tcfd e s) x) = ev_flags (evs s x)"
  "thr (stash_tcfd e s) = thr s" "thr (woken_by e s) = thr s" "thr (woken_by_fd u s) = thr s"
  "tc_flags (thr (set_running tc s) t) = (if t = tc then insert TF_RUNNING (tc_flags (thr s t)) else tc_flags (thr s t))"
  "tc_flags (thr (clear_running tc s) t) = (if t = tc then tc_flags (thr s t) - {TF_RUNNING} else tc_flags (thr s t))"
  "event_stack (thr (clear_running tc s) t) = event_stack (thr s t)"
  "this_worker s = w \<Longrightarrow> woken_by_event (wrk (woken_by e s) w) = Some e"
  "this_worker s = w \<Longrightarrow> woken_by_event (wrk (woken_by_fd u s) w) = woken_by_event (wrk s w)"
  by (simp_all add: set_running_def clear_running_def woken_by_def woken_by_fd_def stash_tcfd_def upd_defs)

lemma sched_push_locks:
  "set_running tc (s\<lparr>locks := k\<rparr>) = (set_running tc s)\<lparr>locks := k\<rparr>"
  "clear_running tc (s\<lparr>locks := k\<rparr>) = (clear_running tc s)\<lparr>locks := k\<rparr>"
  "woken_by e (s\<lparr>locks := k\<rparr>) = (woken_by e s)\<lparr>locks := k\<rparr>"
  "woken_by_fd u (s\<lparr>locks := k\<rparr>) = (woken_by_fd u s)\<lparr>locks := k\<rparr>"
  "stash_tcfd e (s\<lparr>locks := k\<rparr>) = (stash_tcfd e s)\<lparr>locks := k\<rparr>"
  "unlink e l (s\<lparr>locks := k\<rparr>) = (unlink e l s)\<lparr>locks := k\<rparr>"
  "relink e l l' (s\<lparr>locks := k\<rparr>) = (relink e l l' s)\<lparr>locks := k\<rparr>"
  by (simp_all add: set_running_def clear_running_def woken_by_def woken_by_fd_def stash_tcfd_def unlink_def
      relink_def relink_to_def upd_defs)

text \<open>The state after \<open>run_or_queue\<close> and what it returns.\<close>

definition dispatched :: "eid \<Rightarrow> elist \<Rightarrow> tcr \<Rightarrow> tid option \<times> tcr" where
  "dispatched e l s =
     (let tc = ev_tc (evs s e) in
      if ev_flags (evs s e) = EF_EXITING then (Some tc, unlink e Immediate s)
      else if must_queue e tc s then
        (None, relink e l (Pending tc) (if ev_flags (evs s e) \<noteq> EF_SIGNAL then stash_tcfd e s else s))
      else (Some tc, woken_by e (if ev_flags (evs s e) = EF_SIGNAL
             then relink e l (Waiters (Sig_wq (the (signal_of (evs s e))))) (set_running tc s)
             else unlink e l (set_running tc s))))"

text \<open>What its callers guarantee: the event is on a list they have locked, the other lists are free.\<close>

definition dispatchable :: "eid \<Rightarrow> elist \<Rightarrow> tcr \<Rightarrow> bool" where
  "dispatchable e l s \<longleftrightarrow> wf_ev s \<and> ev_el (evs s e) = Some l \<and> holds s (L_list l) \<and>
     free_lock s (L_list (Pending (ev_tc (evs s e)))) \<and>
     (ev_flags (evs s e) = EF_EXITING \<longrightarrow> l = Immediate) \<and>
     (ev_flags (evs s e) = EF_SIGNAL \<longrightarrow>
        (\<exists>g. signal_of (evs s e) = Some g \<and> free_lock s (L_list (Waiters (Sig_wq g)))))"

lemma queue_branch:
  assumes wf: "wf_ev s" and el: "ev_el (evs s e) = Some l" and l: "l \<noteq> Pending tc"
    and h: "k (L_list l) = Some (this_worker s)" "k (L_list (Pending tc)) = Some (this_worker s)"
    and q: "must_queue e tc s"
  shows "queue_or_take e tc tk (s\<lparr>locks := k\<rparr>) =
    Inr (None, (relink e l (Pending tc) (if ev_flags (evs s e) \<noteq> EF_SIGNAL then stash_tcfd e s else s))\<lparr>locks := k\<rparr>)"
proof -
  let ?s = "if ev_flags (evs s e) \<noteq> EF_SIGNAL then stash_tcfd e s else s"
  have "move_event e (Pending tc) (?s\<lparr>locks := k\<rparr>) = Inr ((), relink e l (Pending tc) (?s\<lparr>locks := k\<rparr>))"
    by (rule move_event_eq) (use wf el l h in \<open>auto simp: holds_def\<close>)
  with q show ?thesis
    by (auto simp: queue_or_take_def op_defs sched_push_locks)
qed

lemma take_branch:
  assumes q: "\<not> must_queue e tc s"
    and tk: "tk ((set_running tc s)\<lparr>locks := k\<rparr>) = Inr ((), u\<lparr>locks := k\<rparr>)"
  shows "queue_or_take e tc tk (s\<lparr>locks := k\<rparr>) = Inr (Some tc, (woken_by e u)\<lparr>locks := k\<rparr>)"
  using q tk by (simp add: queue_or_take_def op_defs sched_push_locks)

lemma run_or_queue_eq:
  assumes "dispatchable e l s"
  shows "run_or_queue e s = Inr (dispatched e l s)"
proof -
  let ?tc = "ev_tc (evs s e)" and ?me = "this_worker s"
  have wf: "wf_ev s" and el: "ev_el (evs s e) = Some l" and h: "locks s (L_list l) = Some ?me"
    and fp: "locks s (L_list (Pending ?tc)) = None"
    using assms by (auto simp: dispatchable_def holds_def free_lock_def)
  have l: "l \<noteq> Pending ?tc" using h fp by auto
  consider (ex) "ev_flags (evs s e) = EF_EXITING" | (sg) "ev_flags (evs s e) = EF_SIGNAL"
    | (rd) "ev_flags (evs s e) \<noteq> EF_EXITING" "ev_flags (evs s e) \<noteq> EF_SIGNAL" by blast
  then show ?thesis
  proof cases
    case ex
    with assms have "l = Immediate" by (simp add: dispatchable_def)
    then show ?thesis using ex u_remove_event_eq [OF wf el] el h
      by (simp add: run_or_queue_def dispatched_def op_defs holds_def Let_def)
  next
    case sg
    then obtain g where g: "signal_of (evs s e) = Some g" "locks s (L_list (Waiters (Sig_wq g))) = None"
      using assms by (auto simp: dispatchable_def free_lock_def)
    let ?w = "Waiters (Sig_wq g)"
    let ?k = "(locks s)(L_list (Pending ?tc) := Some ?me, L_list ?w := Some ?me)"
    have lw: "l \<noteq> ?w" using h g by auto
    have k: "?k(L_list ?w := None, L_list (Pending ?tc) := None) = locks s" using fp g by (simp add: fun_eq_iff)
    have hk: "?k (L_list l) = Some ?me" using h by simp
    have "queue_or_take e ?tc (move_event e ?w) (s\<lparr>locks := ?k\<rparr>) =
        Inr (map_prod id (\<lambda>u. u\<lparr>locks := ?k\<rparr>) (dispatched e l s))"
    proof (cases "must_queue e ?tc s")
      case True
      then show ?thesis using queue_branch [where k = ?k, OF wf el l hk _ True] sg by (simp add: dispatched_def Let_def)
    next
      case False
      have "move_event e ?w ((set_running ?tc s)\<lparr>locks := ?k\<rparr>) = Inr ((), (relink e l ?w (set_running ?tc s))\<lparr>locks := ?k\<rparr>)"
        using move_event_eq [of "(set_running ?tc s)\<lparr>locks := ?k\<rparr>" e l ?w] wf el lw hk
        by (simp add: holds_def sched_push_locks)
      from take_branch [where k = ?k and tk = "move_event e ?w", OF False this] False sg g show ?thesis by (simp add: dispatched_def Let_def)
    qed
    moreover have "(snd (dispatched e l s))\<lparr>locks := locks s\<rparr> = snd (dispatched e l s)"
      by (simp add: dispatched_def Let_def)
    ultimately show ?thesis
      using sg g fp el k
      by (cases "dispatched e l s") (simp add: run_or_queue_def with_signal_def op_defs Let_def)
  next
    case rd
    let ?k = "(locks s)(L_list (Pending ?tc) := Some ?me)"
    have k: "?k(L_list (Pending ?tc) := None) = locks s" using fp by (simp add: fun_eq_iff)
    have hk: "?k (L_list l) = Some ?me" using h by simp
    have "queue_or_take e ?tc (with_el e (u_remove_event e)) (s\<lparr>locks := ?k\<rparr>) =
        Inr (map_prod id (\<lambda>u. u\<lparr>locks := ?k\<rparr>) (dispatched e l s))"
    proof (cases "must_queue e ?tc s")
      case True
      then show ?thesis using queue_branch [where k = ?k, OF wf el l hk _ True] rd by (simp add: dispatched_def Let_def)
    next
      case False
      have "with_el e (u_remove_event e) ((set_running ?tc s)\<lparr>locks := ?k\<rparr>) = Inr ((), (unlink e l (set_running ?tc s))\<lparr>locks := ?k\<rparr>)"
        using u_remove_event_eq [of "(set_running ?tc s)\<lparr>locks := ?k\<rparr>" e l] wf el hk
        by (simp add: with_el_def holds_def sched_push_locks)
      from take_branch [where k = ?k and tk = "with_el e (u_remove_event e)", OF False this] False rd show ?thesis by (simp add: dispatched_def Let_def)
    qed
    moreover have "(snd (dispatched e l s))\<lparr>locks := locks s\<rparr> = snd (dispatched e l s)"
      by (simp add: dispatched_def Let_def)
    ultimately show ?thesis
      using rd fp el k
      by (cases "dispatched e l s") (simp add: run_or_queue_def op_defs Let_def)
  qed
qed


lemma dispatched_wf:
  assumes "dispatchable e l s"
  shows "wf_ev (snd (dispatched e l s)) \<and> locks (snd (dispatched e l s)) = locks s \<and>
    this_worker (snd (dispatched e l s)) = this_worker s"
proof -
  let ?tc = "ev_tc (evs s e)"
  have wf: "wf_ev s" and el: "ev_el (evs s e) = Some l" and l: "l \<noteq> Pending ?tc"
    using assms by (auto simp: dispatchable_def holds_def free_lock_def)
  consider (ex) "ev_flags (evs s e) = EF_EXITING" | (sg) "ev_flags (evs s e) = EF_SIGNAL"
    | (rd) "ev_flags (evs s e) \<noteq> EF_EXITING" "ev_flags (evs s e) \<noteq> EF_SIGNAL" by blast
  then have "wf_ev (snd (dispatched e l s))"
  proof cases
    case ex
    with assms have "l = Immediate" by (simp add: dispatchable_def)
    with ex show ?thesis using wf el by (simp add: dispatched_def Let_def wf_ev_unlink)
  next
    case sg
    then obtain g where "signal_of (evs s e) = Some g" "l \<noteq> Waiters (Sig_wq g)"
      using assms by (fastforce simp: dispatchable_def holds_def free_lock_def)
    with sg show ?thesis using wf el l by (simp add: dispatched_def Let_def wf_ev_relink)
  next
    case rd
    then show ?thesis using wf el l by (simp add: dispatched_def Let_def wf_ev_relink wf_ev_unlink)
  qed
  then show ?thesis by (simp add: dispatched_def Let_def)
qed

lemma dispatched_immediate:
  assumes "dispatchable e Immediate s"
  shows "evl (snd (dispatched e Immediate s)) Immediate = remove1 e (evl s Immediate)"
  by (simp add: dispatched_def Let_def evl_relink unlink_def)

section \<open>Choosing among pending events\<close>

lemma find_pending_top: "find_pending s tp sig es = Some tp" if "tp \<in> set es"
  using that by (induction es arbitrary: sig) auto

lemma find_pending_signal:
  "tp \<notin> set es \<Longrightarrow> find_pending s tp sig es = Some e \<Longrightarrow>
    sig = Some e \<or> (e \<in> set es \<and> ev_flags (evs s e) = EF_SIGNAL)"
  by (induction es arbitrary: sig) (auto split: if_splits)

lemma find_pending_None:
  "tp \<notin> set es \<Longrightarrow> find_pending s tp sig es = None \<longleftrightarrow>
    sig = None \<and> (\<forall>e \<in> set es. ev_flags (evs s e) \<noteq> EF_SIGNAL)"
  by (induction es arbitrary: sig) auto

lemma pick_pending_in: "pick_pending s tc = Some e \<Longrightarrow> e \<in> set (evl s (Pending tc))"
proof (cases "evl s (Pending tc)")
  case (Cons x xs)
  assume p: "pick_pending s tc = Some e"
  show ?thesis
  proof (cases "event_stack (thr s tc)")
    case None
    with p Cons show ?thesis by (simp add: pick_pending_def)
  next
    case (Some tp)
    with p Cons have f: "find_pending s tp None (x # xs) = Some e" by (simp add: pick_pending_def)
    show ?thesis
    proof (cases "tp \<in> set (x # xs)")
      case True
      with find_pending_top [OF True, of s None] f Cons show ?thesis by simp
    next
      case False
      with find_pending_signal [OF False f] Cons show ?thesis by auto
    qed
  qed
qed (simp add: pick_pending_def)

definition picked :: "tid \<Rightarrow> eid \<Rightarrow> tcr \<Rightarrow> tcr" where
  "picked tc e s =
     (let s1 = (if ev_flags (evs s e) = EF_SIGNAL then relink e (Pending tc) (Waiters (Sig_wq (the (signal_of (evs s e))))) s
                else unlink e (Pending tc) s)
      in woken_by_fd (ev_u (evs s1 e)) (woken_by e s1))"

text \<open>The signal events of a thread know their signal.\<close>

definition signals_ok :: "tcr \<Rightarrow> bool" where
  "signals_ok s \<longleftrightarrow> (\<forall>e. ev_flags (evs s e) = EF_SIGNAL \<longrightarrow> ev_el (evs s e) \<noteq> None \<longrightarrow> signal_of (evs s e) \<noteq> None)"

lemma sched_pick_eq:
  assumes wf: "wf_ev s" and un: "lists_unlocked s" and sg: "signals_ok s"
  shows "sched_pick s = Inr (case pick_pending s (cr_current s) of
      None \<Rightarrow> (False, clear_running (cr_current s) s) | Some e \<Rightarrow> (True, picked (cr_current s) e s))"
proof -
  let ?tc = "cr_current s" and ?me = "this_worker s"
  let ?k = "(locks s)(L_list (Pending ?tc) := Some ?me)"
  have fr: "locks s (L_list x) = None" for x using un by (simp add: lists_unlocked_def)
  have k: "?k(L_list (Pending ?tc) := None) = locks s" using fr by (simp add: fun_eq_iff)
  have pk: "pick_pending (s\<lparr>locks := ?k\<rparr>) ?tc = pick_pending s ?tc"
  proof -
    have "find_pending (s\<lparr>locks := ?k\<rparr>) tp sig es = find_pending s tp sig es" for tp sig es
      by (induction es arbitrary: sig) auto
    then show ?thesis by (simp add: pick_pending_def split: list.splits option.splits)
  qed
  show ?thesis
  proof (cases "pick_pending s ?tc")
    case None
    have "(clear_running ?tc s)\<lparr>locks := locks s\<rparr> = clear_running ?tc s" by simp
    with None show ?thesis using pk fr k
      by (simp add: sched_pick_def tc_current_def op_defs Let_def sched_push_locks)
  next
    case (Some e)
    then have el: "ev_el (evs s e) = Some (Pending ?tc)" using wf_evD(2) [OF wf] pick_pending_in by blast
    have tk: "take_pending ?tc e (s\<lparr>locks := ?k\<rparr>) = Inr ((), (picked ?tc e s)\<lparr>locks := ?k\<rparr>)"
    proof (cases "ev_flags (evs s e) = EF_SIGNAL")
      case True
      then obtain g where g: "signal_of (evs s e) = Some g" using sg el by (auto simp: signals_ok_def)
      let ?w = "Waiters (Sig_wq g)"
      have "move_event e ?w (s\<lparr>locks := ?k(L_list ?w := Some ?me)\<rparr>) =
          Inr ((), (relink e (Pending ?tc) ?w s)\<lparr>locks := ?k(L_list ?w := Some ?me)\<rparr>)"
        using move_event_eq [of "s\<lparr>locks := ?k(L_list ?w := Some ?me)\<rparr>" e "Pending ?tc" ?w] wf el
        by (simp add: holds_def sched_push_locks)
      moreover have "?k(L_list ?w := None) = ?k" using fr by (simp add: fun_eq_iff)
      ultimately show ?thesis using True g fr
        by (simp add: take_pending_def with_signal_def op_defs picked_def Let_def sched_push_locks)
    next
      case False
      then show ?thesis
        using u_remove_event_eq [of "s\<lparr>locks := ?k\<rparr>" e "Pending ?tc"] wf el
        by (simp add: take_pending_def op_defs picked_def Let_def sched_push_locks holds_def)
    qed
    have "(picked ?tc e s)\<lparr>locks := locks s\<rparr> = picked ?tc e s" by (simp add: picked_def Let_def)
    with Some tk show ?thesis using pk fr k
      by (simp add: sched_pick_def tc_current_def op_defs Let_def)
  qed
qed


section \<open>The search of the immediate list ends\<close>

definition imm_inv :: "tcr \<Rightarrow> bool" where
  "imm_inv s \<longleftrightarrow> wf_ev s \<and> holds s (L_list Immediate) \<and> (\<forall>l. l \<noteq> Immediate \<longrightarrow> free_lock s (L_list l)) \<and> signals_ok s"

lemma scan_immediate_cases:
  "scan_immediate nr es s = Inr (r, s') \<Longrightarrow> s' = s \<and> (\<forall>e. r = Some e \<longrightarrow> e \<in> set es)"
  by (induction es) (auto simp: op_defs split: if_splits)

lemma scan_immediate_fault: "scan_immediate nr es s \<noteq> Inl Out_of_fuel"
  by (induction es) (auto simp: op_defs split: if_splits)

lemma imm_dispatchable: "imm_inv s \<Longrightarrow> e \<in> set (evl s Immediate) \<Longrightarrow> dispatchable e Immediate s"
  using wf_evD(2) [of s e Immediate]
  by (auto simp: imm_inv_def dispatchable_def signals_ok_def)

lemma signals_ok_dispatched:
  assumes "signals_ok s" and "ev_el (evs s e) = Some l"
  shows "signals_ok (snd (dispatched e l s))"
proof -
  let ?d = "snd (dispatched e l s)"
  have fl: "ev_flags (evs ?d y) = ev_flags (evs s y)" for y
    by (simp add: dispatched_def Let_def unlink_def)
  have el: "y = e \<or> ev_el (evs s y) \<noteq> None" if "ev_el (evs ?d y) \<noteq> None" for y
    using that by (cases "y = e") (simp_all add: dispatched_def Let_def unlink_def ev_el_relink split: if_splits)
  have u: "ev_u (evs ?d y) = ev_u (evs s y)" if "ev_flags (evs s y) = EF_SIGNAL" for y
    using that by (cases "y = e") (simp_all add: dispatched_def Let_def unlink_def stash_tcfd_def upd_defs)
  show ?thesis
    unfolding signals_ok_def
  proof (intro allI impI)
    fix y
    assume y: "ev_flags (evs ?d y) = EF_SIGNAL" "ev_el (evs ?d y) \<noteq> None"
    then have "signal_of (evs s y) \<noteq> None" using assms el [OF y(2)] fl [of y] by (auto simp: signals_ok_def)
    then show "signal_of (evs ?d y) \<noteq> None" using u [of y] y(1) fl [of y] by (simp add: signal_of_def)
  qed
qed

lemma imm_inv_dispatched:
  assumes "imm_inv s" and "e \<in> set (evl s Immediate)"
  shows "imm_inv (snd (dispatched e Immediate s))"
  using dispatched_wf [OF imm_dispatchable [OF assms]] signals_ok_dispatched [of s e Immediate]
    assms wf_evD(2) [of s e Immediate]
  by (auto simp: imm_inv_def holds_def free_lock_def)

lemma imm_inv_cong:
  "imm_inv s \<Longrightarrow> wf_ev s' = wf_ev s \<Longrightarrow> (\<And>l. locks s' (L_list l) = locks s (L_list l)) \<Longrightarrow> this_worker s' = this_worker s \<Longrightarrow>
    evs s' = evs s \<Longrightarrow> imm_inv s'"
  by (simp add: imm_inv_def holds_def free_lock_def signals_ok_def)

lemma tc_thread_free_cases:
  "(\<exists>s'. tc_thread_free t s = Inr ((), s') \<and> evs s' = evs s \<and> evl s' = evl s \<and> wf_ev s' = wf_ev s \<and>
      this_worker s' = this_worker s \<and> (\<forall>l. locks s' (L_list l) = locks s (L_list l)))
   \<or> (\<exists>f. tc_thread_free t s = Inl f \<and> f \<noteq> Out_of_fuel)"
proof -
  have wf: "wf_ev (s\<lparr>locks := a, thr := (thr s)(t := (thr s t)\<lparr>tc_cr := False\<rparr>)\<rparr>) = wf_ev s" for a
    by (rule wf_ev_cong) simp_all
  show ?thesis
    by (auto simp: tc_thread_free_def tc_waitq_unregister_def u_iwi_immediate_def op_defs upd_defs Let_def wf split: option.splits)
qed

lemma switch_to_fault: "switch_to t x \<noteq> Inl Out_of_fuel"
  by (auto simp: switch_to_def u_switch_to_def cr_call_def op_defs upd_defs Let_def split: prod.splits option.splits list.splits)

lemma lock_unlock_free_cases:
  assumes "imm_inv s"
  shows "(\<exists>s'. block [spin_unlock (L_list Immediate), tc_thread_free t, spin_lock (L_list Immediate)] s = Inr ((), s') \<and>
      imm_inv s' \<and> evl s' = evl s)
   \<or> (\<exists>f. block [spin_unlock (L_list Immediate), tc_thread_free t, spin_lock (L_list Immediate)] s = Inl f \<and> f \<noteq> Out_of_fuel)"
proof -
  let ?s = "s\<lparr>locks := (locks s)(L_list Immediate := None)\<rparr>"
  consider (ok) s' where "tc_thread_free t ?s = Inr ((), s')" "evs s' = evs s" "evl s' = evl s" "wf_ev s' = wf_ev s"
      "this_worker s' = this_worker s" "\<forall>l. locks s' (L_list l) = locks ?s (L_list l)"
    | (bad) f where "tc_thread_free t ?s = Inl f" "f \<noteq> Out_of_fuel"
    using tc_thread_free_cases [of t ?s] by auto
  then show ?thesis
  proof cases
    case ok
    then have "imm_inv (s'\<lparr>locks := (locks s')(L_list Immediate := Some (this_worker s'))\<rparr>)"
      using assms by (intro imm_inv_cong [OF assms]) (auto simp: imm_inv_def holds_def)
    with ok show ?thesis by (simp add: op_defs)
  qed (simp add: op_defs)
qed

lemma run_immediate_loop_ends:
  "imm_inv s \<Longrightarrow> length (evl s Immediate) < n \<Longrightarrow> run_immediate_loop n nr (s, env) \<noteq> Inl Out_of_fuel"
proof (induction n arbitrary: s)
  case (Suc n)
  let ?s = "woken_by_fd (Tcfd None) s"
  have i: "imm_inv ?s" by (rule imm_inv_cong [OF Suc.prems(1)]) simp_all
  show ?case
  proof (cases "scan_immediate nr (evl ?s Immediate) ?s")
    case (Inl f)
    then show ?thesis using scan_immediate_fault [of nr "evl ?s Immediate" ?s] by (auto simp: op_defs)
  next
    case (Inr p)
    then obtain r where r: "scan_immediate nr (evl ?s Immediate) ?s = Inr (r, ?s)" "\<And>e. r = Some e \<Longrightarrow> e \<in> set (evl ?s Immediate)"
      using scan_immediate_cases by (cases p) blast
    show ?thesis
    proof (cases r)
      case None
      with r show ?thesis by (simp add: op_defs)
    next
      case (Some e)
      let ?d = "snd (dispatched e Immediate ?s)"
      have e: "e \<in> set (evl ?s Immediate)" using r(2) Some .
      have q: "run_or_queue e ?s = Inr (dispatched e Immediate ?s)"
        by (rule run_or_queue_eq [OF imm_dispatchable [OF i e]])
      have j: "imm_inv ?d" by (rule imm_inv_dispatched [OF i e])
      have len: "length (evl ?d Immediate) < n"
        using dispatched_immediate [OF imm_dispatchable [OF i e]] length_remove1_in [OF e] Suc.prems(2) by simp
      obtain r' u where d: "dispatched e Immediate ?s = (r', u)" by (cases "dispatched e Immediate ?s") simp
      then have ju: "imm_inv u" and lenu: "length (evl u Immediate) < n" using j len by simp_all
      have q': "run_or_queue e ?s = Inr (r', u)" using q d by simp
      show ?thesis
      proof (cases r')
        case None
        then show ?thesis using r(1) Some q' Suc.IH [OF ju lenu] by (simp add: op_defs)
      next
        case (Some tc)
        show ?thesis
        proof (cases "ev_flags (evs u e) = EF_EXITING")
          case True
          from lock_unlock_free_cases [OF ju, of "ev_tc (evs u e)"] show ?thesis
          proof (elim disjE exE conjE)
            fix s'
            assume b: "block [spin_unlock (L_list Immediate), tc_thread_free (ev_tc (evs u e)), spin_lock (L_list Immediate)] u = Inr ((), s')"
              and s': "imm_inv s'" "evl s' = evl u"
            then have "run_immediate_loop n nr (s', env) \<noteq> Inl Out_of_fuel" using Suc.IH lenu by simp
            with b show ?thesis using r(1) \<open>r = Some e\<close> Some q' True
              by (simp add: thn_def bnd_def lift_def rds_def rdm_def mdf_def del: block.simps)
          next
            fix f
            assume "block [spin_unlock (L_list Immediate), tc_thread_free (ev_tc (evs u e)), spin_lock (L_list Immediate)] u = Inl f"
              "f \<noteq> Out_of_fuel"
            then show ?thesis using r(1) \<open>r = Some e\<close> Some q' True
              by (simp add: thn_def bnd_def lift_def rds_def rdm_def mdf_def del: block.simps)
          qed
        next
          case False
          then show ?thesis using r(1) \<open>r = Some e\<close> Some q' switch_to_fault
            by (simp add: op_defs u_iwi_immediate_def split: sum.splits) blast
        qed
      qed
    qed
  qed
qed simp


section \<open>Properties\<close>

text \<open>C10: Dispatching an event never runs a thread that is running: \<^verbatim>\<open>run_or_queue\<close> returns the thread of an event that is not an exit
  notice exactly when the thread is neither running nor waiting for another event; then the thread is marked as
  running, the worker remembers the event, a signal goes back to the queue of its signal and any other event
  is on no list. Otherwise the event is last among the thread's pending events. An exit notice is taken off the immediate
  list and its thread returned. No lock is kept and the queue invariant holds.\<close>

theorem run_or_queue_correct:
  assumes "dispatchable e l s"
  shows "\<exists>r s'. run_or_queue e s = Inr (r, s') \<and> wf_ev s' \<and> locks s' = locks s \<and>
    (let tc = ev_tc (evs s e); fl = ev_flags (evs s e) in
     if fl = EF_EXITING then r = Some tc \<and> ev_el (evs s' e) = None
     else if must_queue e tc s then r = None \<and> evl s' (Pending tc) = evl s (Pending tc) @ [e]
     else r = Some tc \<and> TF_RUNNING \<notin> tc_flags (thr s tc) \<and> TF_RUNNING \<in> tc_flags (thr s' tc) \<and>
       woken_by_event (cur_worker s') = Some e \<and>
       ev_el (evs s' e) = (if fl = EF_SIGNAL then map_option (\<lambda>g. Waiters (Sig_wq g)) (signal_of (evs s e)) else None))"
proof -
  have l: "l \<noteq> Pending (ev_tc (evs s e))" using assms by (auto simp: dispatchable_def holds_def free_lock_def)
  have sg: "ev_flags (evs s e) = EF_SIGNAL \<Longrightarrow> \<exists>g. signal_of (evs s e) = Some g"
    using assms by (auto simp: dispatchable_def)
  have nr: "\<not> must_queue e tc s \<Longrightarrow> TF_RUNNING \<notin> tc_flags (thr s tc)" for tc by (simp add: must_queue_def)
  let ?d = "dispatched e l s"
  have "(let tc = ev_tc (evs s e); fl = ev_flags (evs s e) in
     if fl = EF_EXITING then fst ?d = Some tc \<and> ev_el (evs (snd ?d) e) = None
     else if must_queue e tc s then fst ?d = None \<and> evl (snd ?d) (Pending tc) = evl s (Pending tc) @ [e]
     else fst ?d = Some tc \<and> TF_RUNNING \<notin> tc_flags (thr s tc) \<and> TF_RUNNING \<in> tc_flags (thr (snd ?d) tc) \<and>
       woken_by_event (cur_worker (snd ?d)) = Some e \<and>
       ev_el (evs (snd ?d) e) = (if fl = EF_SIGNAL then map_option (\<lambda>g. Waiters (Sig_wq g)) (signal_of (evs s e)) else None))"
    using l sg nr by (auto simp: dispatched_def Let_def evl_relink ev_el_relink unlink_def)
  with run_or_queue_eq [OF assms] dispatched_wf [OF assms] show ?thesis
    by (metis prod.collapse)
qed

text \<open>Event 7 of thread 1 on the immediate list of a worker that has locked it.\<close>

definition one_immediate :: tcr where
  "one_immediate = (link 7 Immediate 1 process_image)\<lparr>immediate_count := 1,
     locks := (\<lambda>_. None)(L_list Immediate := Some 0)\<rparr>"

lemma one_immediate_inv: "imm_inv one_immediate"
proof -
  have "wf_ev ((link 7 Immediate 1 process_image)\<lparr>immediate_count := immediate_count process_image + 1\<rparr>)"
    by (rule wf_ev_link_immediate) simp_all
  then have "wf_ev one_immediate" by (simp add: one_immediate_def)
  then show ?thesis
    by (simp add: imm_inv_def) (simp add: one_immediate_def link_def holds_def free_lock_def signals_ok_def)
qed

theorem run_or_queue_correct_witness:
  "\<exists>s'. run_or_queue 7 one_immediate = Inr (Some 1, s') \<and> TF_RUNNING \<in> tc_flags (thr s' 1) \<and> ev_el (evs s' 7) = None"
proof -
  have "dispatchable 7 Immediate one_immediate"
    by (rule imm_dispatchable [OF one_immediate_inv]) (simp add: one_immediate_def link_def)
  moreover have "\<not> must_queue 7 1 one_immediate" "ev_tc (evs one_immediate 7) = 1" "ev_flags (evs one_immediate 7) = EF_READY"
    by (simp_all add: must_queue_def one_immediate_def link_def)
  ultimately show ?thesis using run_or_queue_correct [of 7 Immediate one_immediate] by (auto simp: Let_def)
qed

text \<open>C13: A thread that calls the scheduler does not miss an event: it continues at once, without giving up the worker, when
  the event on top of its stack is pending (with exactly that event), when it waits for nothing in
  particular and anything is pending, or when a signal is pending; otherwise it is marked as not running, so that the next event
  for it is dispatched and not queued. The queue invariant holds.\<close>

theorem sched_pick_correct:
  assumes "wf_ev s" and "lists_unlocked s" and "signals_ok s" and "tc = cr_current s"
  shows "\<exists>stay s'. sched_pick s = Inr (stay, s') \<and> wf_ev s' \<and> locks s' = locks s \<and>
    (stay \<longleftrightarrow> evl s (Pending tc) \<noteq> [] \<and> (case event_stack (thr s tc) of None \<Rightarrow> True
       | Some tp \<Rightarrow> tp \<in> set (evl s (Pending tc)) \<or> (\<exists>e \<in> set (evl s (Pending tc)). ev_flags (evs s e) = EF_SIGNAL))) \<and>
    (stay \<longrightarrow> (\<exists>e \<in> set (evl s (Pending tc)). woken_by_event (cur_worker s') = Some e \<and>
       evl s' (Pending tc) = remove1 e (evl s (Pending tc)) \<and>
       (\<forall>tp. event_stack (thr s tc) = Some tp \<longrightarrow> tp \<in> set (evl s (Pending tc)) \<longrightarrow> e = tp))) \<and>
    (\<not> stay \<longrightarrow> TF_RUNNING \<notin> tc_flags (thr s' tc) \<and> evl s' = evl s)"
proof (cases "pick_pending s tc")
  case None
  then have "\<not> (evl s (Pending tc) \<noteq> [] \<and> (case event_stack (thr s tc) of None \<Rightarrow> True
       | Some tp \<Rightarrow> tp \<in> set (evl s (Pending tc)) \<or> (\<exists>e \<in> set (evl s (Pending tc)). ev_flags (evs s e) = EF_SIGNAL)))"
    using find_pending_top find_pending_None
    by (auto simp: pick_pending_def split: list.splits option.splits if_splits)
       (metis list.set_intros(2) find_pending_None find_pending_top option.distinct(1))+
  with None show ?thesis using sched_pick_eq [OF assms(1-3)] assms(1,4) by auto
next
  case (Some e)
  then have in_p: "e \<in> set (evl s (Pending tc))" by (rule pick_pending_in)
  then have el: "ev_el (evs s e) = Some (Pending tc)" using wf_evD(2) [OF assms(1)] by blast
  have tp: "e = tp" if "event_stack (thr s tc) = Some tp" "tp \<in> set (evl s (Pending tc))" for tp
    using Some that find_pending_top [OF that(2), of s None] by (auto simp: pick_pending_def split: list.splits)
  have sg: "tp \<in> set (evl s (Pending tc)) \<or> ev_flags (evs s e) = EF_SIGNAL" if "event_stack (thr s tc) = Some tp" for tp
  proof -
    have "find_pending s tp None (evl s (Pending tc)) = Some e"
      using Some that by (auto simp: pick_pending_def split: list.splits)
    then show ?thesis using find_pending_signal [of tp "evl s (Pending tc)" s None e] by blast
  qed
  have p: "wf_ev (picked tc e s)" "evl (picked tc e s) (Pending tc) = remove1 e (evl s (Pending tc))"
    "woken_by_event (cur_worker (picked tc e s)) = Some e" "locks (picked tc e s) = locks s"
    using assms(1) el by (simp_all add: picked_def Let_def wf_ev_relink wf_ev_unlink evl_relink)
      (simp_all add: unlink_def)
  have "sched_pick s = Inr (True, picked tc e s)" using sched_pick_eq [OF assms(1-3)] assms(4) Some by simp
  moreover have "case event_stack (thr s tc) of None \<Rightarrow> True
       | Some tp \<Rightarrow> tp \<in> set (evl s (Pending tc)) \<or> (\<exists>e \<in> set (evl s (Pending tc)). ev_flags (evs s e) = EF_SIGNAL)"
    using sg in_p by (auto split: option.splits)
  moreover have "evl s (Pending tc) \<noteq> []" using in_p by auto
  ultimately show ?thesis using p in_p tp by blast
qed

theorem sched_pick_correct_witness:
  "\<exists>s'. sched_pick one_waiter_ok = Inr (False, s') \<and> TF_RUNNING \<notin> tc_flags (thr s' 0)"
proof -
  have "signals_ok one_waiter_ok" "evl one_waiter_ok (Pending 0) = []"
    by (simp_all add: signals_ok_def one_waiter_ok_def one_waiter_def link_def)
  then show ?thesis using sched_pick_correct [of one_waiter_ok 0] by auto
qed



text \<open>C18: One thread waiting for both input and output on a descriptor ends the process when the kernel reports both at once:
  \<^verbatim>\<open>matching_event\<close> returns the event although it has just moved it to the immediate list, and \<^verbatim>\<open>run_or_queue\<close> then
  works on that list without holding its lock, which the assertion in \<^verbatim>\<open>_remove_event\<close> or \<^verbatim>\<open>move_event\<close> detects (without
  \<^verbatim>\<open>SPINLOCK_DEBUG\<close> the list is changed unprotected).\<close>

theorem fd_event_duplex_crash:
  assumes "wf_ev s" and "lists_unlocked s" and "evl s (Fd_events d) = [e]" and "\<not> err_hup (fds s d)"
    and "bit (ep_events_of (evs s e)) 0" and "bit (ep_events_of (evs s e)) 2" and "ev_flags (evs s e) = EF_READY"
  shows "fd_event d (EPOLLIN OR EPOLLOUT) s = Inl (Assertion ''l->lock.m == this_spinlock_owner.m'')"
proof -
  let ?l = "Fd_events d" and ?k = "(locks s)(L_list (Fd_events d) := Some (this_worker s))"
  let ?s = "s\<lparr>locks := ?k\<rparr>" and ?em = "EPOLLIN OR EPOLLOUT"
  have fr: "locks s (L_list x) = None" for x using assms(2) by (simp add: lists_unlocked_def)
  have m: "matching_event ?em ?l ?s = Inr (Some e, relink e ?l Immediate ?s)"
    by (rule matching_event_duplex)
       (use assms fr in \<open>simp_all add: bit_or_iff bit_EPOLLIN bit_EPOLLOUT holds_def free_lock_def\<close>)
  let ?r = "relink e ?l Immediate ?s"
  have "evl ?r ?l = []" "ev_el (evs ?r e) = Some Immediate" "locks ?r (L_list Immediate) \<noteq> Some (this_worker ?r)"
    using assms(3) fr by (simp_all add: evl_relink ev_el_relink)
  then show ?thesis
    using m assms(4,7) fr
    by (simp add: fd_event_def fd_pick_def op_defs upd_defs run_or_queue_def queue_or_take_def move_event_def
        with_el_def u_remove_event_def Let_def EPOLLIN_def EPOLLOUT_def EPOLLERR_def EPOLLHUP_def
        woken_by_fd_def stash_tcfd_def set_running_def)
qed

definition one_duplex :: tcr where
  "one_duplex = link 10 (Fd_events 3) 1 (process_image\<lparr>
     evs := (\<lambda>_. zero_event)(10 := zero_event\<lparr>ev_u := Ep_events (EPOLLIN OR EPOLLOUT)\<rparr>)\<rparr>)"

lemma wf_one_duplex: "wf_ev one_duplex"
  unfolding one_duplex_def by (rule wf_ev_link) (simp_all add: wf_ev_def refs_def)

theorem fd_event_duplex_crash_witness:
  "fd_event 3 (EPOLLIN OR EPOLLOUT) one_duplex = Inl (Assertion ''l->lock.m == this_spinlock_owner.m'')"
  by (rule fd_event_duplex_crash [OF wf_one_duplex, where e = 10])
     (simp_all add: one_duplex_def link_def ep_events_of_def bit_or_iff bit_EPOLLIN bit_EPOLLOUT lists_unlocked_def)

end
