(* ===== verification/Waiting.thy ===== *)
theory Waiting
  imports Scheduler
begin

text \<open>
  Waiting: the functions and macros that put the current thread to sleep on a wait queue or a descriptor and come back when
  an event or a signal continues it. The condition of \<^verbatim>\<open>tc_waitq_wait_event\<close> is an operation, because conditions have effects (a
  mutex is taken by its condition). The locale \<open>wait_condition\<close> states what such a condition has to guarantee and what every wait on
  it then guarantees; mutexes, read/write locks, timers and asynchronous I/O use it.
\<close>

section \<open>Operations\<close>

definition tc_waitq_wait :: "eid \<Rightarrow> wqid \<Rightarrow> bool bop" where
  "tc_waitq_wait e wq = thn (block [
     lift (mdf (tc_event_init e)),
     lift (tc_waitq_prepare_to_wait wq e),
     tc_scheduler]) (lift (tc_waitq_finish_wait (Some wq) e))"

text \<open>The loop of \<^verbatim>\<open>__tc_wait_event\<close>, at most \<open>n\<close> rounds.\<close>

fun wait_event_loop :: "nat \<Rightarrow> wqid \<Rightarrow> eid \<Rightarrow> bool tcop \<Rightarrow> tc_rv bop" where
  "wait_event_loop 0 wq e cond = throw Out_of_fuel"
| "wait_event_loop (Suc n) wq e cond =
     thn (lift (tc_waitq_prepare_to_wait wq e))
     (bnd (lift cond) (\<lambda>c.
        if c then thn (lift (tc_waitq_finish_wait (Some wq) e)) (ret RV_OK)
        else thn tc_scheduler
          (bnd (lift (tc_waitq_finish_wait (Some wq) e)) (\<lambda>intr.
             if intr then ret RV_INTR else wait_event_loop n wq e cond))))"

definition tc_wait_event :: "nat \<Rightarrow> wqid \<Rightarrow> eid \<Rightarrow> bool tcop \<Rightarrow> tc_rv bop" where
  "tc_wait_event n wq e cond = thn (lift (mdf (tc_event_init e))) (wait_event_loop n wq e cond)"

definition tc_waitq_wait_event :: "nat \<Rightarrow> wqid \<Rightarrow> eid \<Rightarrow> bool tcop \<Rightarrow> tc_rv bop" where
  "tc_waitq_wait_event n wq e cond = bnd (lift cond) (\<lambda>c.
     if c then ret RV_OK else tc_wait_event n wq e cond)"

definition u_tc_wait_fd :: "eid \<Rightarrow> u32 \<Rightarrow> fdid \<Rightarrow> tc_event_flag \<Rightarrow> tc_rv bop" where
  "u_tc_wait_fd e ep_events tcfd ef = rds (\<lambda>s0. let tc = tc_current s0 in
     bnd (lift (add_event_fd e (ep_events OR EPOLLONESHOT) ef tcfd)) (\<lambda>r.
       if r \<noteq> 0 then ret RV_FAILED
       else thn (block [lift (u_tc_event_on_tc_stack e tc), tc_scheduler])
         (lift (bnd (gets (\<lambda>s. woken_by_event (cur_worker s) \<noteq> Some e)) (\<lambda>r.
            thn (block [
              mdf clear_woken,
              rdm (\<lambda>s. mdf (upd_thr tc (event_stack_update (\<lambda>_. next_in_stack (evs s e))))),
              mdf (upd_fd tcfd (fd_ep_events_update (\<lambda>_. 0)))])
            (if r then thn (remove_event_fd e tcfd) (ret RV_INTR)
             else gets (\<lambda>s. if err_hup (fds s tcfd) then RV_FAILED else RV_OK)))))))"

definition tc_wait_fd :: "eid \<Rightarrow> u32 \<Rightarrow> fdid \<Rightarrow> tc_rv bop" where
  "tc_wait_fd e ep_events tcfd = u_tc_wait_fd e ep_events tcfd EF_READY"

definition tc_wait_fd_prio :: "eid \<Rightarrow> u32 \<Rightarrow> fdid \<Rightarrow> tc_rv bop" where
  "tc_wait_fd_prio e ep_events tcfd = u_tc_wait_fd e ep_events tcfd EF_PRIORITY"

section \<open>What a thread can rely on\<close>

text \<open>The worker's own scheduler coroutine can be entered.\<close>

definition p2_ready :: "tcr \<Rightarrow> bool" where
  "p2_ready s \<longleftrightarrow> tc_cr (thr s (sched_p2 (cur_worker s))) \<and> free_lock s (L_running (sched_p2 (cur_worker s)))"

text \<open>A thread between two waits: its next event \<open>e\<close> is on no list.\<close>

definition calm :: "tid \<Rightarrow> eid \<Rightarrow> tcr \<Rightarrow> bool" where
  "calm tc e s \<longleftrightarrow> wf_ev s \<and> lists_unlocked s \<and> signals_ok s \<and> cr_current s = tc \<and> O_thread tc \<notin> freed s \<and>
     ev_el (evs s e) = None \<and> p2_ready s"

text \<open>A thread inside a wait for event \<open>e\<close>, before it calls the scheduler and while it is switched out.\<close>

definition waiting :: "tid \<Rightarrow> eid \<Rightarrow> tcr \<Rightarrow> bool" where
  "waiting tc e s \<longleftrightarrow> wf_ev s \<and> lists_unlocked s \<and> signals_ok s \<and> O_thread tc \<notin> freed s \<and>
     event_stack (thr s tc) = Some e"

text \<open>When it continues: its own event or a subscribed signal made it continue.\<close>

definition continued :: "tid \<Rightarrow> eid \<Rightarrow> tcr \<Rightarrow> bool" where
  "continued tc e s \<longleftrightarrow> resumed tc e s \<and> signals_ok s \<and>
     (\<forall>w. woken_by_event (cur_worker s) = Some w \<longrightarrow> w \<noteq> e \<longrightarrow> ev_el (evs s w) \<noteq> None)"

text \<open>The end of \<^verbatim>\<open>_switch_to\<close>: the coroutine that was left is no longer running.\<close>

definition release_caller :: "tcr \<Rightarrow> tcr" where
  "release_caller s = s\<lparr>locks := (locks s)(L_running (cr_caller s) := None)\<rparr>"

definition env_ok :: "tid \<Rightarrow> eid \<Rightarrow> env \<Rightarrow> bool" where
  "env_ok tc e env \<longleftrightarrow> (\<forall>g \<in> set env. \<forall>u. waiting tc e u \<longrightarrow> continued tc e (g u) \<and> p2_ready (release_caller (g u)))"

lemma continued_cong_locks:
  "continued tc e s \<Longrightarrow> continued tc e (s\<lparr>locks := (locks s)(L_running t := v)\<rparr>)"
  by (auto simp: continued_def resumed_def signals_ok_def expected_def lists_unlocked_def)

lemma signals_okD: "signals_ok s \<Longrightarrow> ev_flags (evs s w) = EF_SIGNAL \<Longrightarrow> ev_el (evs s w) \<noteq> None \<Longrightarrow> signal_of (evs s w) \<noteq> None"
  by (simp add: signals_ok_def)

lemma signals_ok_mono:
  assumes "signals_ok s" and "\<And>x. ev_flags (evs s' x) = EF_SIGNAL \<Longrightarrow> ev_el (evs s' x) \<noteq> None \<Longrightarrow>
    ev_flags (evs s x) = EF_SIGNAL \<and> ev_el (evs s x) \<noteq> None \<and> ev_u (evs s' x) = ev_u (evs s x)"
  shows "signals_ok s'"
  using assms by (fastforce simp: signals_ok_def signal_of_def)

lemma picked_continued:
  assumes w: "waiting tc e s" and c: "cr_current s = tc" and p: "pick_pending s tc = Some x"
  shows "continued tc e (picked tc x s)"
proof -
  have wf: "wf_ev s" and un: "lists_unlocked s" and sg: "signals_ok s" and tc: "O_thread tc \<notin> freed s"
    and st: "event_stack (thr s tc) = Some e"
    using w by (auto simp: waiting_def)
  have el: "ev_el (evs s x) = Some (Pending tc)" using pick_pending_in [OF p] wf_evD(2) [OF wf] by blast
  have xs: "x = e \<or> ev_flags (evs s x) = EF_SIGNAL"
  proof -
    have "find_pending s e None (evl s (Pending tc)) = Some x"
      using p st by (auto simp: pick_pending_def split: list.splits)
    then show ?thesis
      using find_pending_signal [of e "evl s (Pending tc)" s None x] find_pending_top [of e "evl s (Pending tc)" s None]
      by fastforce
  qed
  let ?p = "picked tc x s"
  have f: "wf_ev ?p" "locks ?p = locks s" "cr_current ?p = cr_current s" "freed ?p = freed s"
    "event_stack (thr ?p tc) = event_stack (thr s tc)" "woken_by_event (cur_worker ?p) = Some x"
    "ev_flags (evs ?p y) = ev_flags (evs s y)" "ev_u (evs ?p y) = ev_u (evs s y)"
    "y \<noteq> x \<Longrightarrow> ev_el (evs ?p y) = ev_el (evs s y)"
    "ev_el (evs ?p x) \<noteq> None \<longleftrightarrow> ev_flags (evs s x) = EF_SIGNAL" for y
    using wf el by (simp_all add: picked_def Let_def wf_ev_relink wf_ev_unlink ev_el_relink)
      (simp_all add: unlink_def relink_def relink_to_def woken_by_def woken_by_fd_def upd_defs)
  have "signals_ok ?p"
    by (rule signals_ok_mono [OF sg]) (use f(7-10) el in \<open>metis option.distinct(1)\<close>)
  moreover have "lists_unlocked ?p" using un f(2) by (simp add: lists_unlocked_def)
  moreover have "expected tc e ?p \<longleftrightarrow> x = e" using f(5,6) st by (auto simp: expected_def)
  ultimately show ?thesis
    using xs c tc f by (auto simp: continued_def resumed_def)
qed


definition switched_out :: "tcr \<Rightarrow> tcr" where
  "switched_out s = (let p2 = sched_p2 (cur_worker s); u = clear_running (cr_current s) s in
     u\<lparr>locks := (locks s)(L_running p2 := Some (this_worker s)),
       cr_caller_of := (cr_caller_of s)(p2 := cr_current s), cr_current := p2\<rparr>)"

lemma clear_running_frame [simp]:
  "wrk (clear_running tc s) = wrk s" "cr_current (clear_running tc s) = cr_current s"
  "cr_caller_of (clear_running tc s) = cr_caller_of s" "freed (clear_running tc s) = freed s"
  "tc_cr (thr (clear_running tc s) t) = tc_cr (thr s t)"
  by (simp_all add: clear_running_def upd_defs)

lemma waiting_switched_out: "waiting tc e s \<Longrightarrow> waiting tc e (switched_out s)"
  by (auto simp: waiting_def switched_out_def Let_def lists_unlocked_def signals_ok_def)

lemma scheduler_switch:
  assumes "wf_ev s" and "lists_unlocked s" and "signals_ok s" and "pick_pending s (cr_current s) = None" and "p2_ready s"
  shows "tc_scheduler (s, g # env) = Inr ((), (release_caller (g (switched_out s)), env))"
    and "tc_scheduler (s, []) = Inl Suspended"
  using assms sched_pick_eq [OF assms(1-3)]
  by (simp_all add: tc_scheduler_def u_switch_to_def cr_call_def op_defs p2_ready_def free_lock_def switched_out_def
      release_caller_def Let_def)

lemma scheduler_stay:
  assumes "wf_ev s" and "lists_unlocked s" and "signals_ok s" and "pick_pending s (cr_current s) = Some x"
  shows "tc_scheduler (s, env) = Inr ((), (picked (cr_current s) x s, env))"
  using assms sched_pick_eq [OF assms(1-3)] by (simp add: tc_scheduler_def op_defs)

lemma prepared_waiting:
  assumes "calm tc e s"
  shows "waiting tc e (prepared wq e tc (ready e s))" and "cr_current (prepared wq e tc (ready e s)) = tc"
proof -
  let ?s = "prepared wq e tc (ready e s)"
  have "wf_ev ?s" using assms by (intro wf_prepared) (simp_all add: calm_def)
  moreover have "signals_ok ?s"
    using assms by (auto simp: calm_def signals_ok_def prepared_def ready_def upd_defs link_def Let_def clear_woken_def signal_of_def)
  moreover have "lists_unlocked ?s" "O_thread tc \<notin> freed ?s" "event_stack (thr ?s tc) = Some e" "cr_current ?s = tc"
    using assms by (auto simp: calm_def prepared_def ready_def upd_defs Let_def clear_woken_def lists_unlocked_def)
  ultimately show "waiting tc e ?s" "cr_current ?s = tc" by (simp_all add: waiting_def)
qed

lemma prepare_calm:
  "calm tc e s \<Longrightarrow> tc_waitq_prepare_to_wait wq e s = Inr ((), prepared wq e tc (ready e s))"
  using prepare_eq [of s wq e] by (auto simp: calm_def lists_unlocked_def free_lock_def)

lemma p2_ready_frame [simp]:
  "p2_ready (off e s) = p2_ready s" "p2_ready (pop tc e s) = p2_ready s" "p2_ready (clear_woken s) = p2_ready s"
  "p2_ready (link x l t s) = p2_ready s" "p2_ready (woken_by x s) = p2_ready s" "p2_ready (woken_by_fd v s) = p2_ready s"
  "p2_ready (relink x l l' s) = p2_ready s" "p2_ready (unlink x l s) = p2_ready s" "p2_ready (ready e s) = p2_ready s"
  "p2_ready (prepared wq e tc s) = p2_ready s"
  by (auto simp: p2_ready_def off_def unlink_def pop_def clear_woken_def link_def woken_by_def woken_by_fd_def relink_def
      relink_to_def ready_def prepared_def upd_defs Let_def free_lock_def split: option.splits)

lemma finished_calm:
  assumes c: "continued tc e s" and p2: "p2_ready s"
  shows "calm tc e (snd (finished tc e s))"
proof -
  have r: "resumed tc e s" and sg: "signals_ok s" using c by (auto simp: continued_def)
  have wf: "wf_ev s" and un: "lists_unlocked s" and cu: "cr_current s = tc" and tc: "O_thread tc \<notin> freed s"
    using r by (auto simp: resumed_def)
  have off_ok: "signals_ok (off y u)" if "signals_ok u" for y u
    by (rule signals_ok_mono [OF that]) (auto simp: off_def unlink_def split: option.splits if_splits)
  have "p2_ready (snd (finished tc e s))" using p2 by (simp add: finished_def Let_def)
  moreover have "wf_ev (snd (finished tc e s)) \<and> lists_unlocked (snd (finished tc e s)) \<and> signals_ok (snd (finished tc e s)) \<and>
    cr_current (snd (finished tc e s)) = tc \<and> O_thread tc \<notin> freed (snd (finished tc e s)) \<and>
    ev_el (evs (snd (finished tc e s)) e) = None"
  proof (cases "expected tc e s")
    case True
    have "signals_ok (off e (pop tc e s))" by (rule off_ok) (use sg in \<open>simp add: signals_ok_def\<close>)
    then show ?thesis
      using True wf un cu tc by (auto simp: finished_def wf_off lists_unlocked_def signals_ok_def)
  next
    case False
    then obtain w where w: "woken_by_event (cur_worker s) = Some w" "w \<noteq> e" "ev_flags (evs s w) = EF_SIGNAL"
      using r by (auto simp: resumed_def)
    then have sw: "signal_of (evs s w) \<noteq> None" using c sg by (auto simp: continued_def signals_ok_def)
    let ?u = "off w (off e s)"
    have "signals_ok ?u" by (intro off_ok sg)
    moreover have "signal_of (evs ?u w) = signal_of (evs s w)"
      by (auto simp: off_def unlink_def signal_of_def split: option.splits)
    ultimately have "signals_ok (link w (Pending tc) tc ?u)"
      using sw by (auto simp: signals_ok_def link_def signal_of_def)
    moreover have "wf_ev (link w (Pending tc) tc ?u)" by (rule wf_ev_link) (simp_all add: wf_off wf)
    moreover have "ev_el (evs (link w (Pending tc) tc ?u) e) = None" using w(2) by (simp add: link_def)
    ultimately show ?thesis
      using False w wf un cu tc off_ok [OF sg]
      by (auto simp: finished_def Let_def wf_off lists_unlocked_def signals_ok_def)
  qed
  ultimately show ?thesis by (simp add: calm_def)
qed


lemma release_continued: "continued tc e s \<Longrightarrow> continued tc e (release_caller s)"
  unfolding release_caller_def by (rule continued_cong_locks)

text \<open>
  One call of the scheduler inside a wait whose event is still on its queue: the thread stays suspended when nothing is left to happen;
  it goes on at once, without being switched out, only for a signal; otherwise it comes back when it is continued.
\<close>

lemma tc_scheduler_cases:
  assumes w: "waiting tc e s" and c: "cr_current s = tc" and env: "env_ok tc e env" and p: "p2_ready s"
    and el: "ev_el (evs s e) = Some (Waiters wq)"
  obtains (susp) "env = []" "tc_scheduler (s, env) = Inl Suspended"
    | (stay) x where "tc_scheduler (s, env) = Inr ((), (picked tc x s, env))" "x \<noteq> e" "continued tc e (picked tc x s)"
        "p2_ready (picked tc x s)" "\<not> expected tc e (picked tc x s)" "\<not> active tc e (picked tc x s)"
    | (switch) g env' where "env = g # env'" "tc_scheduler (s, env) = Inr ((), (release_caller (g (switched_out s)), env'))"
        "waiting tc e (switched_out s)" "continued tc e (release_caller (g (switched_out s)))"
        "p2_ready (release_caller (g (switched_out s)))"
proof (cases "pick_pending s tc")
  case None
  have s: "wf_ev s" "lists_unlocked s" "signals_ok s" using w by (auto simp: waiting_def)
  show thesis
  proof (cases env)
    case Nil
    with None scheduler_switch(2) [OF s _ p] c susp show thesis by simp
  next
    case (Cons g env')
    then have "continued tc e (g (switched_out s))" "p2_ready (release_caller (g (switched_out s)))"
      using env waiting_switched_out [OF w] by (simp_all add: env_ok_def)
    with None Cons scheduler_switch(1) [OF s _ p, of g env'] c waiting_switched_out [OF w] show thesis
      by (intro switch [of g env']) (auto intro: release_continued)
  qed
next
  case (Some x)
  have s: "wf_ev s" "lists_unlocked s" "signals_ok s" using w by (auto simp: waiting_def)
  have "x \<in> set (evl s (Pending tc))" by (rule pick_pending_in [OF Some])
  then have x: "ev_el (evs s x) = Some (Pending tc)" using wf_evD(2) [OF s(1)] by blast
  then have xe: "x \<noteq> e" using el by auto
  have "ev_el (evs (picked tc x s) e) = ev_el (evs s e)" "woken_by_event (cur_worker (picked tc x s)) = Some x"
    using xe by (simp_all add: picked_def Let_def ev_el_relink unlink_def)
  then have "\<not> active tc e (picked tc x s)" "\<not> expected tc e (picked tc x s)"
    using xe el by (auto simp: active_def expected_def)
  moreover have "p2_ready (picked tc x s)" using p by (simp add: picked_def Let_def)
  ultimately show thesis
    using stay [of x] scheduler_stay [OF s, of x env] picked_continued [OF w c Some] c Some xe by simp
qed


section \<open>Waiting for a condition\<close>

text \<open>A condition may take a mutex or look at the clock; it leaves the queues, the threads and the locks alone.\<close>

definition quiet :: "tcr \<Rightarrow> tcr \<Rightarrow> bool" where
  "quiet s s' \<longleftrightarrow> evs s' = evs s \<and> evl s' = evl s \<and> immediate_count s' = immediate_count s \<and> thr s' = thr s \<and> wrk s' = wrk s \<and>
     locks s' = locks s \<and> this_worker s' = this_worker s \<and> cr_current s' = cr_current s \<and> freed s' = freed s"

text \<open>What the goal of a wait may depend on.\<close>

definition same_objects :: "tcr \<Rightarrow> tcr \<Rightarrow> bool" where
  "same_objects s s' \<longleftrightarrow> m_owner s' = m_owner s \<and> readers s' = readers s \<and> aios s' = aios s \<and> timers s' = timers s"

lemma quiet_keeps:
  assumes "quiet s s'"
  shows "waiting tc e s' = waiting tc e s" "p2_ready s' = p2_ready s" "ev_el (evs s' x) = ev_el (evs s x)"
    "cr_current s' = cr_current s" "expected tc e s' = expected tc e s" "resumed tc e s' = resumed tc e s"
    "calm tc e s' = calm tc e s"
proof -
  have "wf_ev s' = wf_ev s" using assms by (intro wf_ev_cong) (simp_all add: quiet_def)
  then show "waiting tc e s' = waiting tc e s" "p2_ready s' = p2_ready s" "ev_el (evs s' x) = ev_el (evs s x)"
    "cr_current s' = cr_current s" "expected tc e s' = expected tc e s" "resumed tc e s' = resumed tc e s"
    "calm tc e s' = calm tc e s"
    using assms by (auto simp: quiet_def waiting_def p2_ready_def lists_unlocked_def signals_ok_def free_lock_def
        expected_def resumed_def calm_def)
qed

lemma same_objects_finished: "same_objects s (snd (finished tc e s))"
  by (auto simp: same_objects_def finished_def Let_def pop_def clear_woken_def off_def unlink_def link_def upd_defs
      split: option.splits)

lemma prepared_expected: "expected tc e (prepared wq e tc (ready e s))"
  by (simp add: expected_def prepared_def Let_def ready_def upd_defs clear_woken_def)

lemma same_objects_picked: "same_objects s (picked tc x s)"
  by (auto simp: same_objects_def picked_def Let_def unlink_def relink_def relink_to_def woken_by_def woken_by_fd_def upd_defs)

lemma same_objects_release: "same_objects s (release_caller s)"
  by (simp add: same_objects_def release_caller_def)

lemma same_objects_prepared: "same_objects s (prepared wq e tc (ready e s))"
  by (simp add: same_objects_def prepared_def ready_def Let_def link_def clear_woken_def upd_defs)

lemma same_objects_switched_out: "same_objects s (switched_out s)"
  by (simp add: same_objects_def switched_out_def clear_running_def Let_def upd_defs)

text \<open>
  \<open>goal\<close> is what holds when the wait succeeded, \<open>clean\<close> what holds when it was interrupted, \<open>kept\<close> what holds throughout. The
  environment keeps \<open>kept\<close>, and its part of \<open>clean\<close>: where a signal and not the event continues the thread, \<open>clean\<close> holds.
\<close>

definition env_keeps :: "tid \<Rightarrow> eid \<Rightarrow> (tcr \<Rightarrow> bool) \<Rightarrow> (tcr \<Rightarrow> bool) \<Rightarrow> env \<Rightarrow> bool" where
  "env_keeps tc e kept clean env \<longleftrightarrow> (\<forall>g \<in> set env. \<forall>u. waiting tc e u \<longrightarrow> kept u \<longrightarrow>
     kept (g u) \<and> (\<not> expected tc e (g u) \<longrightarrow> \<not> active tc e (g u) \<longrightarrow> clean (g u)))"

locale wait_condition =
  fixes cond :: "bool tcop" and goal :: "tcr \<Rightarrow> bool" and clean :: "tcr \<Rightarrow> bool" and kept :: "tcr \<Rightarrow> bool"
  assumes cond_returns: "kept s \<Longrightarrow> \<exists>c s'. cond s = Inr (c, s') \<and> quiet s s' \<and> kept s' \<and> (if c then goal s' else clean s')"
    and goal_objects: "same_objects s s' \<Longrightarrow> goal s \<Longrightarrow> goal s'"
    and clean_objects: "same_objects s s' \<Longrightarrow> clean s \<Longrightarrow> clean s'"
    and kept_objects: "same_objects s s' \<Longrightarrow> kept s \<Longrightarrow> kept s'"
begin

text \<open>A round of the loop up to the evaluation of the condition.\<close>

lemma round_begin:
  assumes "calm tc e s" and "kept s"
  obtains c s1 where "tc_waitq_prepare_to_wait wq e s = Inr ((), prepared wq e tc (ready e s))"
    and "cond (prepared wq e tc (ready e s)) = Inr (c, s1)" and "if c then goal s1 else clean s1"
    and "waiting tc e s1" and "cr_current s1 = tc" and "p2_ready s1" and "ev_el (evs s1 e) = Some (Waiters wq)"
    and "expected tc e s1" and "kept s1"
proof -
  let ?p = "prepared wq e tc (ready e s)"
  obtain c s1 where c: "cond ?p = Inr (c, s1)" "quiet ?p s1" "if c then goal s1 else clean s1" "kept s1"
    using cond_returns [OF kept_objects [OF same_objects_prepared assms(2)]] by blast
  have "p2_ready ?p" using assms by (simp add: calm_def)
  moreover have "ev_el (evs ?p e) = Some (Waiters wq)" by (simp add: prepared_def Let_def link_def upd_defs)
  ultimately show thesis
    using that [OF prepare_calm [OF assms(1)] c(1,3)] quiet_keeps [OF c(2)] prepared_waiting [OF assms(1)] prepared_expected c(4) by simp
qed

lemma waiting_continued:
  "waiting tc e s \<Longrightarrow> cr_current s = tc \<Longrightarrow> expected tc e s \<Longrightarrow> continued tc e s"
  by (auto simp: waiting_def continued_def resumed_def expected_def)

lemma finish_true:
  assumes "waiting tc e s" and "cr_current s = tc" and "p2_ready s" and "expected tc e s" and "goal s" and "kept s"
  shows "\<exists>s'. tc_waitq_finish_wait (Some wq) e s = Inr (False, s') \<and> calm tc e s' \<and> goal s' \<and> kept s'"
proof -
  have c: "continued tc e s" using assms by (intro waiting_continued)
  then have "tc_waitq_finish_wait (Some wq) e s = Inr (finished tc e s)" by (intro finish_wait_eq) (simp add: continued_def)
  moreover have "fst (finished tc e s) = False" using assms(4) by (simp add: finished_def)
  ultimately show ?thesis
    using finished_calm [OF c assms(3)] goal_objects [OF same_objects_finished assms(5)]
      kept_objects [OF same_objects_finished assms(6)] by (metis prod.collapse)
qed

text \<open>
  Every wait either reaches its goal, is interrupted, or is still suspended when nothing more happens; and one round more than
  times the thread is switched in is always enough.
\<close>

lemma wait_loop:
  "calm tc e s \<Longrightarrow> env_ok tc e env \<Longrightarrow> env_keeps tc e kept clean env \<Longrightarrow> length env < n \<Longrightarrow> kept s \<Longrightarrow>
    (\<exists>rv s' env'. wait_event_loop n wq e cond (s, env) = Inr (rv, (s', env')) \<and> calm tc e s' \<and> kept s' \<and>
       (rv = RV_OK \<and> goal s' \<or> rv = RV_INTR \<and> clean s')) \<or>
    wait_event_loop n wq e cond (s, env) = Inl Suspended"
proof (induction n arbitrary: s env)
  case (Suc n)
  obtain c s1 where r: "tc_waitq_prepare_to_wait wq e s = Inr ((), prepared wq e tc (ready e s))"
    "cond (prepared wq e tc (ready e s)) = Inr (c, s1)" "if c then goal s1 else clean s1" "waiting tc e s1" "cr_current s1 = tc"
    "p2_ready s1" "ev_el (evs s1 e) = Some (Waiters wq)" "expected tc e s1" "kept s1"
    by (rule round_begin [OF Suc.prems(1,5)])
  show ?case
  proof (cases c)
    case True
    then obtain s' where "tc_waitq_finish_wait (Some wq) e s1 = Inr (False, s')" "calm tc e s'" "goal s'" "kept s'"
      using finish_true [OF r(4,5,6,8)] r(3,9) by force
    with r True show ?thesis by (simp add: op_defs)
  next
    case False
    have fin: "tc_waitq_finish_wait (Some wq) e u = Inr (finished tc e u)" if "continued tc e u" for u
      using that by (intro finish_wait_eq) (simp add: continued_def)
    from r(4,5) Suc.prems(2) r(6,7) show ?thesis
    proof (cases rule: tc_scheduler_cases)
      case susp
      with r False show ?thesis by (simp add: op_defs)
    next
      case (stay x)
      obtain b u where f: "finished tc e (picked tc x s1) = (b, u)" by (cases "finished tc e (picked tc x s1)")
      then have "b" "calm tc e u" using stay finished_calm [OF stay(3,4)] by (auto simp: finished_def Let_def)
      moreover have "kept u"
        using f kept_objects [OF same_objects_finished [of "picked tc x s1" tc e] kept_objects [OF same_objects_picked [of s1 tc x] r(9)]]
        by simp
      moreover have "clean u"
        using f clean_objects [OF same_objects_finished [of "picked tc x s1" tc e] clean_objects [OF same_objects_picked [of s1 tc x]]]
          r(3) False by simp
      ultimately show ?thesis using r False stay(1) fin [OF stay(3)] f by (simp add: op_defs)
    next
      case (switch g env')
      let ?h = "g (switched_out s1)" and ?u = "release_caller (g (switched_out s1))"
      obtain b u where f: "finished tc e ?u = (b, u)" by (cases "finished tc e ?u")
      then have cu: "calm tc e u" using finished_calm [OF switch(4,5)] by simp
      have "env_ok tc e env'" "env_keeps tc e kept clean env'"
        using Suc.prems(2,3) switch(1) by (simp_all add: env_ok_def env_keeps_def)
      moreover have ih: "kept ?h"
        using Suc.prems(3) switch(1,3) kept_objects [OF same_objects_switched_out r(9)] by (simp add: env_keeps_def)
      moreover have iu: "kept u"
        using f kept_objects [OF same_objects_finished [of ?u tc e] kept_objects [OF same_objects_release [of ?h] ih]] by simp
      ultimately have IH: "(\<exists>rv s' env''. wait_event_loop n wq e cond (u, env') = Inr (rv, (s', env'')) \<and> calm tc e s' \<and> kept s' \<and>
         (rv = RV_OK \<and> goal s' \<or> rv = RV_INTR \<and> clean s')) \<or> wait_event_loop n wq e cond (u, env') = Inl Suspended"
        using Suc.IH [OF cu] Suc.prems(4) switch(1) by simp
      have "clean u" if b
      proof -
        have "\<not> expected tc e ?u" "\<not> active tc e ?u" using f that by (auto simp: finished_def Let_def split: if_splits)
        then have "clean ?h"
          using Suc.prems(3) switch(1,3) kept_objects [OF same_objects_switched_out r(9)]
          by (simp add: env_keeps_def expected_def active_def release_caller_def)
        then show ?thesis
          using f clean_objects [OF same_objects_finished [of ?u tc e] clean_objects [OF same_objects_release [of ?h]]] by simp
      qed
      with r False switch(2) fin [OF switch(4)] f cu iu IH show ?thesis by (cases b) (auto simp: op_defs)
    qed
  qed
qed simp

text \<open>The whole macro \<^verbatim>\<open>tc_waitq_wait_event\<close>, which looks at the condition before it queues anything.\<close>

lemma wait_event:
  assumes "calm tc e s" and "env_ok tc e env" and "env_keeps tc e kept clean env" and "length env < n" and "kept s"
  shows "(\<exists>rv s' env'. tc_waitq_wait_event n wq e cond (s, env) = Inr (rv, (s', env')) \<and> calm tc e s' \<and> kept s' \<and>
       (rv = RV_OK \<and> goal s' \<or> rv = RV_INTR \<and> clean s')) \<or>
    tc_waitq_wait_event n wq e cond (s, env) = Inl Suspended"
proof -
  obtain c s1 where c: "cond s = Inr (c, s1)" "quiet s s1" "if c then goal s1 else clean s1" "kept s1"
    using cond_returns [OF assms(5)] by blast
  have s1: "calm tc e s1" using assms(1) quiet_keeps(7) [OF c(2)] by simp
  have "wf_ev (tc_event_init e s1) = wf_ev s1" using s1 by (intro wf_ev_cong_events) (auto simp: tc_event_init_def upd_defs calm_def)
  then have "calm tc e (tc_event_init e s1)"
    using s1 by (auto simp: calm_def tc_event_init_def upd_defs lists_unlocked_def signals_ok_def p2_ready_def free_lock_def)
  moreover have "same_objects s1 (tc_event_init e s1)" by (simp add: same_objects_def tc_event_init_def upd_defs)
  ultimately show ?thesis using wait_loop [OF _ assms(2-4) kept_objects [OF _ c(4)]] c(1,3,4) s1
    by (cases c) (auto simp: tc_waitq_wait_event_def tc_wait_event_def op_defs)
qed

end

end
