(* ===== verification/Mutex.thy ===== *)
theory Mutex
  imports Waiting
begin

text \<open>
  Mutexes (\<^verbatim>\<open>struct tc_mutex\<close>): an owner and a queue of waiting threads. Unlocking passes the mutex directly to the thread that has waited
  longest. \<^verbatim>\<open>tc_mutex_lock\<close> waits on the queue with a condition that is true when the mutex was passed on or can be
  taken.
\<close>

section \<open>Operations\<close>

definition tc_mutex_init :: "mid \<Rightarrow> tcr \<Rightarrow> tcr" where
  "tc_mutex_init m s = tc_waitq_init (Mutex_wq m) (s\<lparr>m_owner := (m_owner s)(m := None)\<rparr>)"

definition tc_mutex_change_owner :: "mid \<Rightarrow> tid option \<Rightarrow> tcr \<Rightarrow> tcr" where
  "tc_mutex_change_owner m who s = s\<lparr>m_owner := (m_owner s)(m := who)\<rparr>"

text \<open>\<^verbatim>\<open>__sync_bool_compare_and_swap(&m->m_owner, NULL, me)\<close>\<close>

definition cas_owner :: "mid \<Rightarrow> tid \<Rightarrow> bool tcop" where
  "cas_owner m me = (\<lambda>s. if m_owner s m = None then Inr (True, s\<lparr>m_owner := (m_owner s)(m \<mapsto> me)\<rparr>) else Inr (False, s))"

definition mutex_cond :: "mid \<Rightarrow> tid \<Rightarrow> bool tcop" where
  "mutex_cond m me = ifm (\<lambda>s. m_owner s m = Some me) (ret True) (cas_owner m me)"

definition tc_mutex_lock :: "nat \<Rightarrow> eid \<Rightarrow> mid \<Rightarrow> tc_rv bop" where
  "tc_mutex_lock n e m = rds (\<lambda>s. let me = tc_current s in
     if m_owner s m = Some me then lift (msg_exit ''mutex recursively locked in thread'')
     else bnd (lift (cas_owner m me)) (\<lambda>got_it.
       if got_it then ret RV_OK
       else tc_waitq_wait_event n (Mutex_wq m) e (mutex_cond m me)))"

definition tc_mutex_unlock :: "mid \<Rightarrow> unit tcop" where
  "tc_mutex_unlock m = ifm (\<lambda>s. m_owner s m = None)
     (msg_exit ''tc_mutex_unlocked() called on an unlocked mutex'')
     (tc_waitq_wakeup_one_owner (Mutex_wq m) (Some m))"

definition tc_mutex_trylock :: "mid \<Rightarrow> tc_rv tcop" where
  "tc_mutex_trylock m = rdm (\<lambda>s. bnd (cas_owner m (tc_current s)) (\<lambda>ok. ret (if ok then RV_OK else RV_FAILED)))"

definition tc_mutex_destroy :: "mid \<Rightarrow> unit tcop" where
  "tc_mutex_destroy m = tc_waitq_unregister (Mutex_wq m)"

lemmas mutex_defs = tc_mutex_lock_def tc_mutex_unlock_def tc_mutex_trylock_def mutex_cond_def cas_owner_def

section \<open>The condition of the lock\<close>

interpretation mutex_wait: wait_condition "mutex_cond m me" "\<lambda>s. m_owner s m = Some me" "\<lambda>s. m_owner s m \<noteq> Some me"
  "\<lambda>_. True" for m me
  by unfold_locales (auto simp: mutex_cond_def cas_owner_def op_defs quiet_def same_objects_def)

section \<open>The mutex as a transition system\<close>

text \<open>
  The state is the process and the set of threads that hold the mutex: those for which \<^verbatim>\<open>tc_mutex_lock\<close> or
  \<^verbatim>\<open>tc_mutex_trylock\<close> succeeded and which have not unlocked it since. A thread acquires it by the atomic operation
  of \<^verbatim>\<open>tc_mutex_trylock\<close> and of the fast path, or by evaluating the condition of its wait; only holders unlock; any other step leaves the
  owner alone.
\<close>

definition as_thread :: "tid \<Rightarrow> tcr \<Rightarrow> tcr" where
  "as_thread t s = s\<lparr>cr_current := t\<rparr>"

inductive mutex_step :: "mid \<Rightarrow> tcr \<times> tid set \<Rightarrow> tcr \<times> tid set \<Rightarrow> bool" for m where
  acquire: "tc_mutex_trylock m (as_thread t s) = Inr (RV_OK, s') \<Longrightarrow> mutex_step m (s, H) (s', insert t H)"
| busy: "tc_mutex_trylock m (as_thread t s) = Inr (RV_FAILED, s') \<Longrightarrow> mutex_step m (s, H) (s', H)"
| granted: "mutex_cond m t s = Inr (True, s') \<Longrightarrow> mutex_step m (s, H) (s', insert t H)"
| refused: "mutex_cond m t s = Inr (False, s') \<Longrightarrow> mutex_step m (s, H) (s', H)"
| release: "t \<in> H \<Longrightarrow> tc_mutex_unlock m (as_thread t s) = Inr ((), s') \<Longrightarrow> mutex_step m (s, H) (s', H - {t})"
| other: "m_owner s' m = m_owner s m \<Longrightarrow> mutex_step m (s, H) (s', H)"

definition mutex_inv :: "mid \<Rightarrow> tcr \<times> tid set \<Rightarrow> bool" where
  "mutex_inv m x \<longleftrightarrow> (\<forall>t \<in> snd x. m_owner (fst x) m = Some t)"

definition mutex_free :: "mid \<Rightarrow> tcr \<times> tid set \<Rightarrow> bool" where
  "mutex_free m x \<longleftrightarrow> m_owner (fst x) m = None \<and> snd x = {}"

lemma mutex_inv_unique: "mutex_inv m (s, H) \<Longrightarrow> t \<in> H \<Longrightarrow> u \<in> H \<Longrightarrow> t = u \<and> m_owner s m = Some t"
  unfolding mutex_inv_def by (metis fst_conv option.inject snd_conv)

lemma mutex_step_inv:
  assumes "mutex_inv m x" and "mutex_step m x y"
  shows "mutex_inv m y"
  using assms(2)
proof cases
  case (release t H s s')
  then have "H - {t} = {}" using mutex_inv_unique [of m s H] assms(1) by blast
  with release show ?thesis by (simp add: mutex_inv_def)
qed (use assms(1) in \<open>auto simp: mutex_inv_def tc_mutex_trylock_def mutex_cond_def cas_owner_def op_defs as_thread_def
       tc_current_def split: if_splits\<close>)

interpretation mutex_sys: inv_system "mutex_free m" "mutex_step m" "mutex_inv m" for m
  by unfold_locales (simp add: mutex_free_def mutex_inv_def, rule mutex_step_inv)

section \<open>Properties\<close>

text \<open>C5: Mutual exclusion: from a free mutex, however acquisitions, passed-on ownership, unlocking and other steps of the
  program are interleaved, at most one thread holds the mutex, and it is the one the owner field names.\<close>

theorem mutex_exclusive:
  assumes "reach (mutex_free m) (mutex_step m) (s, H)" and "t \<in> H" and "u \<in> H"
  shows "t = u \<and> m_owner s m = Some t"
  by (rule mutex_inv_unique [OF mutex_sys.reach_inv [OF assms(1)] assms(2,3)])

definition locked_by_one :: tcr where
  "locked_by_one = process_image\<lparr>cr_current := 1, m_owner := (\<lambda>_. None)(Mutex 0 \<mapsto> 1)\<rparr>"

theorem mutex_exclusive_witness: "1 = (1::tid) \<and> m_owner locked_by_one (Mutex 0) = Some 1"
proof -
  have "reach (mutex_free (Mutex 0)) (mutex_step (Mutex 0)) (process_image, {})"
    by (rule reach_init) (simp add: mutex_free_def)
  moreover have "tc_mutex_trylock (Mutex 0) (as_thread 1 process_image) = Inr (RV_OK, locked_by_one)"
    by (simp add: tc_mutex_trylock_def cas_owner_def op_defs as_thread_def tc_current_def locked_by_one_def)
  then have "mutex_step (Mutex 0) (process_image, {}) (locked_by_one, {1})" by (rule mutex_step.acquire)
  ultimately have "reach (mutex_free (Mutex 0)) (mutex_step (Mutex 0)) (locked_by_one, {1})" by (rule reach_step)
  from mutex_exclusive [OF this] show ?thesis by simp
qed



text \<open>Thread 0 between waits; the mutex belongs to thread 5. When thread 0 continues, it was passed the mutex with its event 9.\<close>

definition contender :: tcr where
  "contender = process_image\<lparr>thr := (\<lambda>_. zero_thread\<lparr>tc_cr := True\<rparr>), m_owner := (\<lambda>_. Some 5)\<rparr>"

definition handed_over :: tcr where
  "handed_over = process_image\<lparr>thr := (\<lambda>_. zero_thread\<lparr>tc_cr := True, event_stack := Some 9\<rparr>),
     wrk := (\<lambda>_. zero_worker\<lparr>woken_by_event := Some 9\<rparr>), m_owner := (\<lambda>_. Some 0)\<rparr>"

lemma calm_contender: "calm 0 9 contender"
  by (simp add: calm_def contender_def lists_unlocked_def signals_ok_def p2_ready_def free_lock_def wf_ev_def refs_def)

lemma continued_handed_over: "continued 0 9 handed_over"
  by (simp add: continued_def resumed_def handed_over_def lists_unlocked_def signals_ok_def expected_def wf_ev_def refs_def)

lemma env_handed_over: "env_ok 0 9 [\<lambda>_. handed_over]"
  using continued_handed_over
  by (simp add: env_ok_def p2_ready_def release_caller_def free_lock_def) (simp add: handed_over_def)


text \<open>Unlocking passes the mutex on without a gap: the first waiting thread becomes the owner in the same critical section
  that takes its event off the queue, so that no other thread can take the mutex in between (\<^verbatim>\<open>tc_mutex_trylock\<close> fails for everyone
  and for a third thread the condition of its wait is false) and the condition of the chosen
  thread is true; without a waiter the mutex is free for the next caller. Unlocking a free mutex ends the process.\<close>

lemma mutex_unlock_passes_on:
  assumes "wf_ev s" and "free_lock s (L_list Immediate)" and "free_lock s (L_list (Waiters (Mutex_wq m)))" and "eventfd_ok s"
  shows "(case m_owner s m of
      None \<Rightarrow> tc_mutex_unlock m s = Inl (Msg_exit ''tc_mutex_unlocked() called on an unlocked mutex'')
    | Some _ \<Rightarrow> \<exists>s'. tc_mutex_unlock m s = Inr ((), s') \<and> wf_ev s' \<and>
        (case evl s (Waiters (Mutex_wq m)) of
           [] \<Rightarrow> \<exists>s''. tc_mutex_trylock m s' = Inr (RV_OK, s'')
         | e # es \<Rightarrow> let u = ev_tc (evs s e) in
             evl s' = (evl s)(Waiters (Mutex_wq m) := es, Immediate := e # evl s Immediate) \<and>
             (\<forall>v. tc_mutex_trylock m (as_thread v s') = Inr (RV_FAILED, as_thread v s')) \<and>
             (\<forall>v. mutex_cond m v s' = Inr (v = u, s'))))"
proof (cases "m_owner s m")
  case None
  then show ?thesis by (simp add: tc_mutex_unlock_def op_defs)
next
  case (Some t)
  have u: "tc_mutex_unlock m s = tc_waitq_wakeup_one_owner (Mutex_wq m) (Some m) s"
    using Some by (simp add: tc_mutex_unlock_def op_defs)
  show ?thesis
  proof (cases "evl s (Waiters (Mutex_wq m))")
    case Nil
    then show ?thesis
      using u Some wakeup_one_empty [OF assms(2,3) Nil, of "Some m"] assms(1)
      by (simp add: tc_mutex_trylock_def cas_owner_def op_defs)
  next
    case (Cons e es)
    then have "ev_el (evs s e) = Some (Waiters (Mutex_wq m))" using wf_evD(2) [OF assms(1), of e "Waiters (Mutex_wq m)"] by simp
    then have "wf_ev (relink_hd e (Waiters (Mutex_wq m)) Immediate s)" using wf_ev_relink_hd assms(1) by simp
    with Cons show ?thesis
      using u Some wakeup_one_eq [OF assms(2,3,4) Cons, of "Some m"]
      by (auto simp: tc_mutex_trylock_def mutex_cond_def cas_owner_def op_defs as_thread_def evl_relink_hd Let_def)
  qed
qed

lemma mutex_unlock_passes_on_witness:
  "\<exists>s'. tc_mutex_unlock (Mutex 0) (one_waiter_ok\<lparr>m_owner := (\<lambda>_. Some 3)\<rparr>) = Inr ((), s') \<and>
     (\<exists>s''. tc_mutex_trylock (Mutex 0) s' = Inr (RV_OK, s''))"
proof -
  let ?s = "one_waiter_ok\<lparr>m_owner := (\<lambda>_. Some 3)\<rparr>"
  have "evl ?s (Waiters (Mutex_wq (Mutex 0))) = []" by (simp add: one_waiter_ok_def one_waiter_def link_def)
  moreover have "free_lock ?s l" "eventfd_ok ?s" for l
    using one_waiter_ok_simps(2,3) by (simp_all add: free_lock_def eventfd_ok_def)
  ultimately show ?thesis using mutex_unlock_passes_on [of ?s "Mutex 0"] by auto
qed

end
