(* ===== verification/Rwlock.thy ===== *)
theory Rwlock
  imports Mutex
begin

text \<open>
  Read/write locks (\<^verbatim>\<open>struct tc_rw_lock\<close>): a mutex, a counter of readers and a queue for the writer. A reader passes through the
  mutex and counts itself; a writer keeps the mutex and waits until no reader is left.
\<close>

section \<open>Operations\<close>

definition tc_rw_init :: "rwid \<Rightarrow> tcr \<Rightarrow> tcr" where
  "tc_rw_init l s = tc_waitq_init (Rw_wq l) ((tc_mutex_init (Rw_mutex l) s)\<lparr>readers := (readers s)(l := 0)\<rparr>)"

definition rw_add_readers :: "rwid \<Rightarrow> int \<Rightarrow> unit tcop" where
  "rw_add_readers l k = mdf (\<lambda>s. s\<lparr>readers := (readers s)(l := readers s l + k)\<rparr>)"

definition tc_rw_r_lock :: "nat \<Rightarrow> eid \<Rightarrow> rwid \<Rightarrow> tc_rv bop" where
  "tc_rw_r_lock n e l = bnd (tc_mutex_lock n e (Rw_mutex l)) (\<lambda>rv.
     if rv = RV_OK then thn (lift (block [rw_add_readers l 1, tc_mutex_unlock (Rw_mutex l)])) (ret rv)
     else ret rv)"

definition rw_w_cond :: "rwid \<Rightarrow> bool tcop" where
  "rw_w_cond l = gets (\<lambda>s. readers s l = 0)"

text \<open>\<open>e\<close> and \<open>e'\<close> are the local events of the two waits.\<close>

definition tc_rw_w_lock :: "nat \<Rightarrow> eid \<Rightarrow> eid \<Rightarrow> rwid \<Rightarrow> tc_rv bop" where
  "tc_rw_w_lock n e e' l = bnd (tc_mutex_lock n e (Rw_mutex l)) (\<lambda>rv.
     if rv = RV_OK then
       bnd (tc_waitq_wait_event n (Rw_wq l) e' (rw_w_cond l)) (\<lambda>rv.
         if rv \<noteq> RV_OK then thn (lift (tc_mutex_unlock (Rw_mutex l))) (ret rv) else ret rv)
     else ret rv)"

definition tc_rw_w_trylock :: "rwid \<Rightarrow> tc_rv tcop" where
  "tc_rw_w_trylock l = bnd (tc_mutex_trylock (Rw_mutex l)) (\<lambda>rv.
     if rv = RV_OK then
       ifm (\<lambda>s. readers s l \<noteq> 0) (thn (tc_mutex_unlock (Rw_mutex l)) (ret RV_FAILED)) (ret rv)
     else ret rv)"

definition tc_rw_r_unlock :: "rwid \<Rightarrow> unit tcop" where
  "tc_rw_r_unlock l = block [
     rw_add_readers l (-1),
     whn (\<lambda>s. readers s l = 0) (tc_waitq_wakeup_one (Rw_wq l))]"

definition tc_rw_w_unlock :: "rwid \<Rightarrow> unit tcop" where
  "tc_rw_w_unlock l = tc_mutex_unlock (Rw_mutex l)"

definition tc_rw_w2r_lock :: "rwid \<Rightarrow> unit tcop" where
  "tc_rw_w2r_lock l = block [rw_add_readers l 1, tc_mutex_unlock (Rw_mutex l)]"

definition tc_rw_get_readers :: "rwid \<Rightarrow> tcr \<Rightarrow> int" where
  "tc_rw_get_readers l s = readers s l"

text \<open>The writer's wait: it reaches no reader, and keeps the mutex throughout.\<close>

interpretation rw_wait: wait_condition "rw_w_cond l" "\<lambda>s. readers s l = 0 \<and> m_owner s (Rw_mutex l) = Some tc"
  "\<lambda>s. m_owner s (Rw_mutex l) = Some tc" "\<lambda>s. m_owner s (Rw_mutex l) = Some tc" for l tc
  by unfold_locales (auto simp: rw_w_cond_def op_defs quiet_def same_objects_def)

section \<open>The lock as a transition system\<close>

text \<open>
  Beside the process: the threads between acquiring and releasing the mutex, the threads that are readers (a thread may be one more than
  once), and the writers. \<^verbatim>\<open>tc_rw_r_lock\<close> is the steps \<open>enter\<close>, \<open>cnt\<close>, \<open>leave\<close>; \<^verbatim>\<open>tc_rw_w_lock\<close> is
  \<open>enter\<close> and \<open>wr\<close>; \<^verbatim>\<open>tc_rw_w_unlock\<close> is \<open>leave\<close>, \<^verbatim>\<open>tc_rw_w2r_lock\<close> is \<open>cnt\<close> and \<open>leave\<close>.
  The mutex changes only by \<open>mutex_step\<close>s.
\<close>

record rw_state =
  rw_proc :: tcr
  rw_in :: "tid set"
  rw_readers :: "tid multiset"
  rw_writers :: "tid set"

inductive rw_step :: "rwid \<Rightarrow> rw_state \<Rightarrow> rw_state \<Rightarrow> bool" for l where
  mutex: "mutex_step (Rw_mutex l) (rw_proc x, rw_in x) (s', M) \<Longrightarrow> readers s' l = readers (rw_proc x) l \<Longrightarrow> rw_in x \<subseteq> M \<Longrightarrow>
    rw_step l x (x\<lparr>rw_proc := s', rw_in := M\<rparr>)"
| leave: "t \<in> rw_in x \<Longrightarrow> tc_mutex_unlock (Rw_mutex l) (as_thread t (rw_proc x)) = Inr ((), s') \<Longrightarrow>
    rw_step l x (x\<lparr>rw_proc := s', rw_in := rw_in x - {t}, rw_writers := rw_writers x - {t}\<rparr>)"
| cnt: "t \<in> rw_in x \<Longrightarrow> rw_add_readers l 1 (rw_proc x) = Inr ((), s') \<Longrightarrow>
    rw_step l x (x\<lparr>rw_proc := s', rw_readers := add_mset t (rw_readers x), rw_writers := rw_writers x - {t}\<rparr>)"
| wr: "t \<in> rw_in x \<Longrightarrow> rw_w_cond l (rw_proc x) = Inr (True, s') \<Longrightarrow>
    rw_step l x (x\<lparr>rw_proc := s', rw_writers := insert t (rw_writers x)\<rparr>)"
| finish: "t \<in># rw_readers x \<Longrightarrow> tc_rw_r_unlock l (rw_proc x) = Inr ((), s') \<Longrightarrow>
    rw_step l x (x\<lparr>rw_proc := s', rw_readers := rw_readers x - {#t#}\<rparr>)"

definition rw_free :: "rwid \<Rightarrow> rw_state \<Rightarrow> bool" where
  "rw_free l x \<longleftrightarrow> mutex_free (Rw_mutex l) (rw_proc x, rw_in x) \<and> readers (rw_proc x) l = 0 \<and> rw_readers x = {#} \<and> rw_writers x = {}"

definition rw_inv :: "rwid \<Rightarrow> rw_state \<Rightarrow> bool" where
  "rw_inv l x \<longleftrightarrow> mutex_inv (Rw_mutex l) (rw_proc x, rw_in x) \<and> rw_writers x \<subseteq> rw_in x \<and>
     readers (rw_proc x) l = int (size (rw_readers x)) \<and> (rw_writers x \<noteq> {} \<longrightarrow> rw_readers x = {#})"


lemma wakeup_one_owner_frame:
  assumes "tc_waitq_wakeup_one_owner wq w s = Inr ((), s')"
  shows "readers s' = readers s" and "w = None \<Longrightarrow> m_owner s' = m_owner s"
  using assms
  by (auto simp: tc_waitq_wakeup_one_owner_def op_defs upd_defs set_el_def atomic_inc_immediate_def set_woken_def
      u_iwi_immediate_def split: option.splits list.splits if_splits)

lemma unlock_readers: "tc_mutex_unlock m s = Inr ((), s') \<Longrightarrow> readers s' = readers s"
  using wakeup_one_owner_frame(1) [of "Mutex_wq m" "Some m" s s']
  by (auto simp: tc_mutex_unlock_def op_defs split: if_splits)

lemma r_unlock_frame:
  assumes "tc_rw_r_unlock l s = Inr ((), s')"
  shows "m_owner s' = m_owner s" and "readers s' = (readers s)(l := readers s l - 1)"
proof -
  let ?s = "s\<lparr>readers := (readers s)(l := readers s l - 1)\<rparr>"
  have "s' = ?s \<or> tc_waitq_wakeup_one_owner (Rw_wq l) None ?s = Inr ((), s')"
    using assms by (auto simp: tc_rw_r_unlock_def rw_add_readers_def tc_waitq_wakeup_one_def op_defs split: if_splits sum.splits)
  then show "m_owner s' = m_owner s" "readers s' = (readers s)(l := readers s l - 1)"
    using wakeup_one_owner_frame [of "Rw_wq l" None ?s s'] by auto
qed

lemma rw_step_inv:
  assumes "rw_inv l x" and "rw_step l x y"
  shows "rw_inv l y"
proof -
  have mi: "mutex_inv (Rw_mutex l) (rw_proc x, rw_in x)" and wi: "rw_writers x \<subseteq> rw_in x"
    and rd: "readers (rw_proc x) l = int (size (rw_readers x))" and ex: "rw_writers x \<noteq> {} \<longrightarrow> rw_readers x = {#}"
    using assms(1) by (auto simp: rw_inv_def)
  have one: "rw_in x = {t}" if "t \<in> rw_in x" for t using mutex_inv_unique [OF mi] that by blast
  from assms(2) show ?thesis
  proof cases
    case (mutex s' M)
    then have "mutex_inv (Rw_mutex l) (s', M)" using mutex_step_inv [OF mi] by blast
    with mutex show ?thesis using wi rd ex by (auto simp: rw_inv_def)
  next
    case (leave t s')
    then have "rw_in x - {t} = {}" using one by blast
    moreover have "rw_writers x - {t} = {}" using calculation wi by blast
    moreover have "readers s' = readers (rw_proc x)" using unlock_readers [OF leave(3)] by (simp add: as_thread_def)
    ultimately show ?thesis using leave rd by (auto simp: rw_inv_def mutex_inv_def)
  next
    case (cnt t s')
    have "rw_writers x - {t} = {}" using one [OF cnt(2)] wi by blast
    moreover have "s' = (rw_proc x)\<lparr>readers := (readers (rw_proc x))(l := readers (rw_proc x) l + 1)\<rparr>"
      using cnt(3) by (simp add: rw_add_readers_def mdf_def)
    ultimately show ?thesis using cnt mi rd wi by (auto simp: rw_inv_def mutex_inv_def)
  next
    case (wr t s')
    then have "s' = rw_proc x" "readers (rw_proc x) l = 0" by (auto simp: rw_w_cond_def gets_def)
    with wr show ?thesis using mi wi rd by (simp add: rw_inv_def)
  next
    case (finish t s')
    have "rw_readers x \<noteq> {#}" using finish(2) by auto
    then have "rw_writers x = {}" and "0 < size (rw_readers x)" using ex by (auto simp: nonempty_has_size)
    with finish show ?thesis
      using r_unlock_frame [OF finish(3)] mi rd by (simp add: rw_inv_def mutex_inv_def size_Diff_singleton of_nat_diff)
  qed
qed

interpretation rw_sys: inv_system "rw_free l" "rw_step l" "rw_inv l" for l
  by unfold_locales (simp add: rw_free_def rw_inv_def mutex_free_def mutex_inv_def, rule rw_step_inv)

section \<open>What the lock promises\<close>

text \<open>The writers and the readers of an ideal lock: a reader enters while nobody writes, a writer while nobody is inside, a writer may become a reader. Steps
  of the program that neither admit nor dismiss anybody are not seen.\<close>

inductive rw_spec :: "tid set \<times> tid multiset \<Rightarrow> tid set \<times> tid multiset \<Rightarrow> bool" where
  r_enter: "rw_spec ({}, R) ({}, add_mset t R)"
| r_leave: "t \<in># R \<Longrightarrow> rw_spec ({}, R) ({}, R - {#t#})"
| w_enter: "rw_spec ({}, {#}) ({t}, {#})"
| w_leave: "rw_spec ({t}, {#}) ({}, {#})"
| downgrade: "rw_spec ({t}, {#}) ({}, {#t#})"
| unseen: "rw_spec v v"

definition rw_view :: "rw_state \<Rightarrow> tid set \<times> tid multiset" where
  "rw_view x = (rw_writers x, rw_readers x)"

lemma rw_step_spec:
  assumes "rw_inv l x" and "rw_step l x y"
  shows "rw_spec (rw_view x) (rw_view y)"
proof -
  have mi: "mutex_inv (Rw_mutex l) (rw_proc x, rw_in x)" and wi: "rw_writers x \<subseteq> rw_in x"
    and rd: "readers (rw_proc x) l = int (size (rw_readers x))" and ex: "rw_writers x \<noteq> {} \<longrightarrow> rw_readers x = {#}"
    using assms(1) by (auto simp: rw_inv_def)
  have one: "rw_writers x = {} \<or> rw_writers x = {t}" if "t \<in> rw_in x" for t using mutex_inv_unique [OF mi] that wi by blast
  from assms(2) show ?thesis
  proof cases
    case (mutex s' M)
    then show ?thesis by (simp add: rw_view_def unseen)
  next
    case (leave t s')
    then show ?thesis using one [of t] ex by (auto simp: rw_view_def intro: unseen w_leave)
  next
    case (cnt t s')
    then show ?thesis using one [of t] ex by (auto simp: rw_view_def intro: r_enter downgrade)
  next
    case (wr t s')
    then have "rw_readers x = {#}" using rd by (simp add: rw_w_cond_def gets_def)
    then show ?thesis using wr one [of t] by (auto simp: rw_view_def intro: w_enter unseen)
  next
    case (finish t s')
    then have "rw_writers x = {}" using ex by auto
    then show ?thesis using finish by (simp add: rw_view_def r_leave)
  qed
qed

interpretation rw_sim: simulation "rw_free l" "rw_step l" "rw_inv l" rw_view "\<lambda>v. v = ({}, {#})" rw_spec for l
  by unfold_locales (simp add: rw_free_def rw_view_def, rule rw_step_spec)

section \<open>Properties\<close>


text \<open>A free lock, and the same lock with thread 1 as writer.\<close>

definition rw_start :: rw_state where
  "rw_start = \<lparr>rw_proc = process_image, rw_in = {}, rw_readers = {#}, rw_writers = {}\<rparr>"

definition rw_one_writer :: rw_state where
  "rw_one_writer = \<lparr>rw_proc = process_image\<lparr>cr_current := 1, m_owner := (\<lambda>_. None)(Rw_mutex 0 \<mapsto> 1)\<rparr>, rw_in = {1},
     rw_readers = {#}, rw_writers = {1}\<rparr>"

lemma reach_one_writer: "reach (rw_free 0) (rw_step 0) rw_one_writer"
proof -
  let ?s = "process_image\<lparr>cr_current := 1, m_owner := (\<lambda>_. None)(Rw_mutex 0 \<mapsto> 1)\<rparr>"
  let ?x = "rw_start\<lparr>rw_proc := ?s, rw_in := {1}\<rparr>"
  have "rw_free 0 rw_start" by (simp add: rw_free_def rw_start_def mutex_free_def)
  then have r0: "reach (rw_free 0) (rw_step 0) rw_start" by (rule reach_init)
  have "tc_mutex_trylock (Rw_mutex 0) (as_thread 1 process_image) = Inr (RV_OK, ?s)"
    by (simp add: tc_mutex_trylock_def cas_owner_def op_defs as_thread_def tc_current_def)
  then have "mutex_step (Rw_mutex 0) (process_image, {}) (?s, insert 1 {})" by (rule mutex_step.acquire)
  then have "rw_step 0 rw_start ?x" by (intro rw_step.mutex) (simp_all add: rw_start_def)
  with r0 have r1: "reach (rw_free 0) (rw_step 0) ?x" by (rule reach_step)
  have "rw_step 0 ?x (?x\<lparr>rw_proc := ?s, rw_writers := insert 1 (rw_writers ?x)\<rparr>)"
    by (rule rw_step.wr) (simp_all add: rw_w_cond_def gets_def)
  with r1 have "reach (rw_free 0) (rw_step 0) (?x\<lparr>rw_proc := ?s, rw_writers := insert 1 (rw_writers ?x)\<rparr>)" by (rule reach_step)
  then show ?thesis by (simp add: rw_one_writer_def rw_start_def)
qed






end
