(* ===== verification/Signals.thy ===== *)
theory Signals
  imports Mutex
begin

text \<open>
  Signals (\<^verbatim>\<open>struct tc_signal\<close>): a wait queue on which the events of all subscriptions stay, and the list of the subscriptions. A
  subscription (\<^verbatim>\<open>struct tc_signal_sub\<close>) begins with its event; it is named by the address of that event. Firing a signal moves the
  events to the immediate list, the scheduler delivers them and puts them back on the queue.
\<close>

section \<open>Operations\<close>

definition tc_signal_init :: "sid \<Rightarrow> tcr \<Rightarrow> tcr" where
  "tc_signal_init g s = (tc_waitq_init (Sig_wq g) s)\<lparr>sss := (sss s)(g := [])\<rparr>"

definition sss_insert :: "sid \<Rightarrow> eid \<Rightarrow> tcr \<Rightarrow> tcr" where
  "sss_insert g ss s = s\<lparr>sss := (sss s)(g := ss # sss s g)\<rparr>"

definition sss_remove :: "sid \<Rightarrow> eid \<Rightarrow> tcr \<Rightarrow> tcr" where
  "sss_remove g ss s = s\<lparr>sss := (sss s)(g := remove1 ss (sss s g))\<rparr>"

definition signal_event :: "sid \<Rightarrow> eid \<Rightarrow> tcr \<Rightarrow> tcr" where
  "signal_event g ss s = tc_event_init ss (upd_ev ss (\<lambda>v. v\<lparr>ev_u := Signal g, ev_flags := EF_SIGNAL\<rparr>) s)"

definition tc_signal_subscribe_exist :: "sid \<Rightarrow> eid \<Rightarrow> eid tcop" where
  "tc_signal_subscribe_exist g ss = thn (block [
     mdf (signal_event g ss),
     rdm (\<lambda>s. u_tc_waitq_prepare_to_wait (Sig_wq g) ss (tc_current s)),
     spin_lock (L_list (Waiters (Sig_wq g))),
     mdf (sss_insert g ss),
     spin_unlock (L_list (Waiters (Sig_wq g)))]) (ret ss)"

text \<open>\<open>mem\<close> is what \<^verbatim>\<open>malloc\<close> returns.\<close>

definition tc_signal_subscribe :: "eid option \<Rightarrow> sid \<Rightarrow> eid tcop" where
  "tc_signal_subscribe mem g = (case mem of
      None \<Rightarrow> msg_exit ''malloc of tc_signal_sub failed in tc_signal_subscribe''
    | Some ss \<Rightarrow> tc_signal_subscribe_exist g ss)"

definition tc_signal_unsubscribe_nofree :: "sid \<Rightarrow> eid \<Rightarrow> unit tcop" where
  "tc_signal_unsubscribe_nofree g ss = block [
     spin_lock (L_list Immediate),
     rdm (\<lambda>s. let tc = ev_tc (evs s ss); w = Waiters (Sig_wq g) in block [
       spin_lock (L_list (Pending tc)),
       spin_lock (L_list w),
       mdf (sss_remove g ss),
       remove_event_holding_locks ss [w, Pending tc, Immediate],
       spin_unlock (L_list w),
       spin_unlock (L_list (Pending tc))]),
     spin_unlock (L_list Immediate)]"

definition tc_signal_unsubscribe :: "sid \<Rightarrow> eid \<Rightarrow> unit tcop" where
  "tc_signal_unsubscribe g ss = block [tc_signal_unsubscribe_nofree g ss, free_obj (O_sub ss)]"

definition u_cancel_signal :: "eid \<Rightarrow> elist \<Rightarrow> unit tcop" where
  "u_cancel_signal e el = block [
     u_remove_event e el,
     (\<lambda>s. case signal_of (evs s e) of None \<Rightarrow> Inl (Null_deref ''e->signal'') | Some g \<Rightarrow> block [
       spin_lock (L_list (Waiters (Sig_wq g))),
       mdf (sss_remove g e),
       spin_unlock (L_list (Waiters (Sig_wq g)))] s),
     free_obj (O_sub e)]"

text \<open>
  \<^verbatim>\<open>CIRCLEQ_FOREACH\<close> reads the link to the next element from the current one after the body has run.
\<close>

fun cancel_loop :: "(tcr \<Rightarrow> eid \<Rightarrow> bool) \<Rightarrow> elist \<Rightarrow> eid list \<Rightarrow> unit tcop" where
  "cancel_loop p el [] = ret ()"
| "cancel_loop p el (e # es) = thn
     (whn (\<lambda>s. p s e) (u_cancel_signal e el))
     (ifm (\<lambda>s. O_sub e \<in> freed s) (throw (Use_after_free (O_sub e))) (cancel_loop p el es))"

definition signal_cancel_pending :: "unit tcop" where
  "signal_cancel_pending = rdm (\<lambda>s0. let tc = tc_current s0 in block [
     spin_lock (L_list Immediate),
     rdm (\<lambda>s. cancel_loop (\<lambda>s e. ev_tc (evs s e) = tc \<and> ev_flags (evs s e) = EF_SIGNAL) Immediate (evl s Immediate)),
     spin_unlock (L_list Immediate),
     spin_lock (L_list (Pending tc)),
     rdm (\<lambda>s. cancel_loop (\<lambda>s e. ev_flags (evs s e) = EF_SIGNAL) (Pending tc) (evl s (Pending tc))),
     spin_unlock (L_list (Pending tc))])"

fun destroy_loop :: "sid \<Rightarrow> eid list \<Rightarrow> unit tcop" where
  "destroy_loop g [] = ret ()"
| "destroy_loop g (ss # sl) = thn (remove_event ss) (thn (mdf (sss_remove g ss)) (destroy_loop g sl))"

definition tc_signal_destroy :: "sid \<Rightarrow> unit tcop" where
  "tc_signal_destroy g = block [
     spin_lock (L_list (Waiters (Sig_wq g))),
     rdm (\<lambda>s. destroy_loop g (sss s g)),
     spin_unlock (L_list (Waiters (Sig_wq g))),
     tc_waitq_unregister (Sig_wq g)]"

definition tc_signal_fire :: "sid \<Rightarrow> unit tcop" where
  "tc_signal_fire g = tc_waitq_wakeup_all (Sig_wq g)"

definition tc_signals_since_last_call :: "int tcop" where
  "tc_signals_since_last_call = rdm (\<lambda>s. let tc = tc_current s; v = signals_since_last_query (thr s tc) in
     thn (mdf (upd_thr tc (signals_since_last_query_update (\<lambda>n. n - v)))) (ret v))"

section \<open>Effects\<close>

lemma sss_frame [simp]:
  "wf_ev (sss_remove g ss s) = wf_ev s" "wf_ev (sss_insert g ss s) = wf_ev s"
  "evs (sss_remove g ss s) = evs s" "evl (sss_remove g ss s) = evl s" "thr (sss_remove g ss s) = thr s"
  "locks (sss_remove g ss s) = locks s" "this_worker (sss_remove g ss s) = this_worker s" "freed (sss_remove g ss s) = freed s"
  "sss (sss_remove g ss s) = (sss s)(g := remove1 ss (sss s g))"
  by (simp_all add: sss_remove_def sss_insert_def)

lemma subscribe_eq:
  assumes "lists_unlocked s" and "O_thread (cr_current s) \<notin> freed s"
  shows "tc_signal_subscribe_exist g ss s =
    Inr (ss, sss_insert g ss (prepared (Sig_wq g) ss (cr_current s) (signal_event g ss s)))"
proof -
  have fr: "locks s (L_list x) = None" for x using assms(1) by (simp add: lists_unlocked_def)
  have "u_tc_waitq_prepare_to_wait (Sig_wq g) ss (cr_current s) (signal_event g ss s) =
      Inr ((), prepared (Sig_wq g) ss (cr_current s) (signal_event g ss s))"
    using fr assms(2) by (intro u_prepare_eq) (simp_all add: signal_event_def tc_event_init_def upd_defs free_lock_def)
  moreover have "locks (prepared (Sig_wq g) ss (cr_current s) (signal_event g ss s)) = locks s"
    by (simp add: prepared_def Let_def upd_defs clear_woken_def signal_event_def tc_event_init_def)
  moreover have "(locks s)(L_list (Waiters (Sig_wq g)) := None) = locks s" using fr by (simp add: fun_upd_idem)
  ultimately show ?thesis
    using fr by (simp add: tc_signal_subscribe_exist_def op_defs tc_current_def sss_insert_def)
      (simp add: signal_event_def tc_event_init_def upd_defs)
qed

lemma unsubscribe_nofree_eq:
  assumes wf: "wf_ev s" and un: "lists_unlocked s"
  shows "tc_signal_unsubscribe_nofree g ss s = Inr ((), off ss (sss_remove g ss s))"
proof -
  let ?tc = "ev_tc (evs s ss)" and ?w = "Waiters (Sig_wq g)" and ?me = "this_worker s"
  let ?k = "(locks s)(L_list Immediate := Some ?me, L_list (Pending ?tc) := Some ?me, L_list ?w := Some ?me)"
  have fr: "locks s (L_list x) = None" for x using un by (simp add: lists_unlocked_def)
  have k: "?k(L_list ?w := None, L_list (Pending ?tc) := None, L_list Immediate := None) = locks s"
    using fr by (simp add: fun_eq_iff)
  have "remove_event_holding_locks ss [?w, Pending ?tc, Immediate] ((sss_remove g ss s)\<lparr>locks := ?k\<rparr>) =
      Inr ((), (off ss (sss_remove g ss s))\<lparr>locks := ?k\<rparr>)"
    by (subst remove_holding_eq) (use wf fr in \<open>auto simp: push_locks holds_def free_lock_def\<close>)
  moreover have "sss_remove g ss (s\<lparr>locks := x\<rparr>) = (sss_remove g ss s)\<lparr>locks := x\<rparr>" for x
    by (simp add: sss_remove_def)
  moreover have "(off ss (sss_remove g ss s))\<lparr>locks := locks s\<rparr> = off ss (sss_remove g ss s)" by simp
  ultimately show ?thesis
    using fr k by (simp add: tc_signal_unsubscribe_nofree_def op_defs Let_def)
qed


text \<open>The first element that is cancelled ends the loop with a read of freed memory.\<close>

lemma cancel_loop_none:
  "\<forall>e \<in> set es. \<not> p s e \<and> O_sub e \<notin> freed s \<Longrightarrow> cancel_loop p el es s = Inr ((), s)"
  by (induction es) (simp_all add: op_defs)

lemma cancel_first:
  assumes wf: "wf_ev s" and h: "holds s (L_list el)" and e: "ev_el (evs s e) = Some el" and sg: "signal_of (evs s e) = Some g"
    and f: "free_lock s (L_list (Waiters (Sig_wq g)))" and nf: "O_sub e \<notin> freed s" and p: "p s e"
  shows "cancel_loop p el (e # es) s = Inl (Use_after_free (O_sub e))"
proof -
  have "u_remove_event e el s = Inr ((), unlink e el s)" by (rule u_remove_event_eq [OF wf e h])
  moreover have "signal_of (evs (unlink e el s) e) = Some g" using sg by (simp add: unlink_def signal_of_def)
  moreover have "freed (unlink e el s) = freed s" by (simp add: unlink_def)
  ultimately show ?thesis
    using f nf p by (simp add: u_cancel_signal_def op_defs free_lock_def sss_remove_def)
qed

section \<open>Properties\<close>

text \<open>\<^verbatim>\<open>tc_signal_unsubscribe\<close> takes the event of the subscription off whatever list it is on (the queue of the signal, the
  immediate list after a fire, the pending list of its thread), drops exactly one reference on the thread, removes the
  subscription from the list of the signal and frees it once; no lock is kept and the queue invariant holds.\<close>

lemma unsubscribe_correct:
  assumes "wf_ev s" and "lists_unlocked s" and "O_sub ss \<notin> freed s" and "ev_el (evs s ss) = Some l"
  shows "\<exists>s'. tc_signal_unsubscribe g ss s = Inr ((), s') \<and> wf_ev s' \<and> (\<forall>k. ss \<notin> set (evl s' k)) \<and>
    (\<forall>k. k \<noteq> l \<longrightarrow> evl s' k = evl s k) \<and>
    (\<forall>t. refcnt (thr s' t) = refcnt (thr s t) - (if t = ev_tc (evs s ss) then 1 else 0)) \<and>
    sss s' g = remove1 ss (sss s g) \<and> freed s' = insert (O_sub ss) (freed s) \<and> locks s' = locks s"
proof -
  let ?r = "off ss (sss_remove g ss s)"
  have "wf_ev ?r" using assms(1) by (intro wf_off) simp
  moreover have "ss \<notin> set (evl ?r k)" for k using off_notin [of "sss_remove g ss s" ss k] assms(1) by simp
  moreover have "tc_signal_unsubscribe g ss s = Inr ((), ?r\<lparr>freed := insert (O_sub ss) (freed s)\<rparr>)"
    using unsubscribe_nofree_eq [OF assms(1,2), of g ss] assms(3) by (simp add: tc_signal_unsubscribe_def op_defs)
  moreover have "sss ?r g = remove1 ss (sss s g)" "k \<noteq> l \<Longrightarrow> evl ?r k = evl s k"
    "refcnt (thr ?r t) = refcnt (thr s t) - (if t = ev_tc (evs s ss) then 1 else 0)" for k t
    using assms(4) by (simp_all add: off_def unlink_def)
  ultimately show ?thesis by simp
qed

text \<open>Subscription 9 of the current thread 0 to signal 2.\<close>

definition subscribed :: tcr where
  "subscribed = sss_insert 2 9 (prepared (Sig_wq 2) 9 0 (signal_event 2 9 one_waiter_ok))"

lemma subscribed_simps [simp]:
  "wf_ev subscribed" "lists_unlocked subscribed" "freed subscribed = {}" "ev_el (evs subscribed 9) = Some (Waiters (Sig_wq 2))"
  "sss subscribed 2 = [9]" "ev_tc (evs subscribed 9) = 0" "signal_of (evs subscribed 9) = Some 2"
  "ev_flags (evs subscribed 9) = EF_SIGNAL" "locks subscribed = locks one_waiter_ok" "this_worker subscribed = this_worker one_waiter_ok"
  "eventfd_ok subscribed" "evl subscribed (Waiters (Sig_wq 2)) = [9]" "cr_current subscribed = 0"
  "signals_since_last_query (thr subscribed 0) = 0"
proof -
  have "wf_ev (signal_event 2 9 one_waiter_ok) = wf_ev one_waiter_ok"
    by (rule wf_ev_cong_events) (auto simp: signal_event_def tc_event_init_def upd_defs)
  then show "wf_ev subscribed"
    by (simp add: subscribed_def) (intro wf_prepared, simp_all add: signal_event_def tc_event_init_def upd_defs)
  show "ev_el (evs subscribed 9) = Some (Waiters (Sig_wq 2))"
    "sss subscribed 2 = [9]" "ev_tc (evs subscribed 9) = 0" "signal_of (evs subscribed 9) = Some 2" "freed subscribed = {}"
    "ev_flags (evs subscribed 9) = EF_SIGNAL" "locks subscribed = locks one_waiter_ok" "this_worker subscribed = this_worker one_waiter_ok"
    "evl subscribed (Waiters (Sig_wq 2)) = [9]" "cr_current subscribed = 0" "signals_since_last_query (thr subscribed 0) = 0"
    by (simp_all add: subscribed_def sss_insert_def prepared_def Let_def signal_event_def tc_event_init_def upd_defs
        clear_woken_def link_def signal_of_def one_waiter_ok_def one_waiter_def)
  then show "lists_unlocked subscribed" using one_waiter_ok_simps(4) by (simp add: lists_unlocked_def)
  show "eventfd_ok subscribed"
    by (simp add: eventfd_ok_def subscribed_def sss_insert_def prepared_def Let_def signal_event_def tc_event_init_def upd_defs
        clear_woken_def link_def one_waiter_ok_def)
qed

lemma unsubscribe_correct_witness:
  "\<exists>s'. tc_signal_unsubscribe 2 9 subscribed = Inr ((), s') \<and> wf_ev s' \<and> sss s' 2 = [] \<and> freed s' = {O_sub 9}"
  using unsubscribe_correct [of subscribed 9 "Waiters (Sig_wq 2)" 2] by auto

text \<open>Fired signals are neither lost nor counted twice: after \<^verbatim>\<open>tc_signal_fire\<close> every subscription that was on the queue of the
  signal is on the immediate list, and \<^verbatim>\<open>tc_signals_since_last_call\<close> of a subscriber returns what it had outstanding plus the number of its
  own subscriptions fired; the next call returns 0.\<close>

lemma fire_then_query:
  assumes "wf_ev s" and "lists_unlocked s" and "eventfd_ok s"
    and "\<forall>e \<in> set (evl s (Waiters (Sig_wq g))). ev_flags (evs s e) = EF_SIGNAL"
  shows "\<exists>s1 s2 s3. tc_signal_fire g s = Inr ((), s1) \<and> wf_ev s1 \<and> evl s1 (Waiters (Sig_wq g)) = [] \<and>
    set (evl s (Waiters (Sig_wq g))) \<subseteq> set (evl s1 Immediate) \<and>
    tc_signals_since_last_call (as_thread t s1) =
      Inr (signals_since_last_query (thr s t) + int (length (filter (\<lambda>e. ev_tc (evs s e) = t) (evl s (Waiters (Sig_wq g))))), s2) \<and>
    tc_signals_since_last_call s2 = Inr (0, s3)"
proof -
  have f: "free_lock s (L_list x)" for x using assms(2) by (simp add: lists_unlocked_def free_lock_def)
  have n: "signals_for s (evl s (Waiters (Sig_wq g))) t = int (length (filter (\<lambda>e. ev_tc (evs s e) = t) (evl s (Waiters (Sig_wq g)))))"
    using assms(4) by (simp add: signals_for_def cong: filter_cong)
  obtain s1 where s1: "tc_waitq_wakeup_all (Sig_wq g) s = Inr ((), s1)" "wf_ev s1"
    "evl s1 = (evl s)(Waiters (Sig_wq g) := [], Immediate := rev (evl s (Waiters (Sig_wq g))) @ evl s Immediate)"
    "signals_since_last_query (thr s1 t) = signals_since_last_query (thr s t) + signals_for s (evl s (Waiters (Sig_wq g))) t"
    by (rule wakeup_all_result [OF assms(1) f f assms(3), of "Sig_wq g"]) blast
  then show ?thesis
    using n by (simp add: tc_signal_fire_def tc_signals_since_last_call_def op_defs upd_defs tc_current_def as_thread_def Let_def)
qed

lemma fire_then_query_witness:
  "\<exists>s1 s2. tc_signal_fire 2 subscribed = Inr ((), s1) \<and> tc_signals_since_last_call (as_thread 0 s1) = Inr (1, s2)"
  using fire_then_query [of subscribed 2 0] by auto

text \<open>C19: \<^verbatim>\<open>tc_signal_destroy\<close> of a signal with a subscription whose event waits on the queue ends the process: it calls \<^verbatim>\<open>remove_event\<close>, which takes
  the lock of the queue, while it holds that lock itself. Without subscriptions it returns and leaves no lock.\<close>

theorem signal_destroy_deadlock:
  assumes "lists_unlocked s" and "wf_ev s"
  shows "(case sss s g of
      [] \<Rightarrow> evl s (Waiters (Sig_wq g)) = [] \<longrightarrow> tc_signal_destroy g s = Inr ((), s)
    | ss # _ \<Rightarrow> ev_el (evs s ss) = Some (Waiters (Sig_wq g)) \<longrightarrow>
        tc_signal_destroy g s = Inl (Msg_exit ''Spinlock deadlock detected''))"
proof -
  have fr: "locks s (L_list x) = None" for x using assms(1) by (simp add: lists_unlocked_def)
  have "(locks s)(L_list (Waiters (Sig_wq g)) := None) = locks s" using fr by (simp add: fun_upd_idem)
  then show ?thesis
    using fr by (simp add: tc_signal_destroy_def remove_event_def tc_waitq_unregister_def op_defs split: list.split)
qed

theorem signal_destroy_deadlock_witness:
  "tc_signal_destroy 2 subscribed = Inl (Msg_exit ''Spinlock deadlock detected'')"
  using signal_destroy_deadlock [of subscribed 2] by simp

text \<open>C20: \<^verbatim>\<open>signal_cancel_pending\<close>, which \<^verbatim>\<open>tc_die\<close> calls for a thread that exits with a fired subscription, reads freed memory: when the first
  event of the immediate list is a signal of the thread, the loop frees the subscription and then follows
  the link to the next event out of it. When the thread has no fired signal it changes nothing.\<close>

theorem cancel_pending_use_after_free:
  assumes "wf_ev s" and "lists_unlocked s" and "signals_ok s" and "\<forall>e. O_sub e \<notin> freed s"
  shows "(\<forall>e es. evl s Immediate = e # es \<and> ev_tc (evs s e) = cr_current s \<and> ev_flags (evs s e) = EF_SIGNAL \<longrightarrow>
       signal_cancel_pending s = Inl (Use_after_free (O_sub e))) \<and>
    ((\<forall>e \<in> set (evl s Immediate). ev_tc (evs s e) = cr_current s \<longrightarrow> ev_flags (evs s e) \<noteq> EF_SIGNAL) \<and>
     (\<forall>e \<in> set (evl s (Pending (cr_current s))). ev_flags (evs s e) \<noteq> EF_SIGNAL) \<longrightarrow>
       signal_cancel_pending s = Inr ((), s))"
proof (intro conjI allI impI)
  have fr: "locks s (L_list x) = None" for x using assms(2) by (simp add: lists_unlocked_def)
  let ?k = "(locks s)(L_list Immediate := Some (this_worker s))"
  {
    fix e es
    assume a: "evl s Immediate = e # es \<and> ev_tc (evs s e) = cr_current s \<and> ev_flags (evs s e) = EF_SIGNAL"
    then have el: "ev_el (evs s e) = Some Immediate" using wf_evD(2) [OF assms(1), of e Immediate] by simp
    then obtain g where "signal_of (evs s e) = Some g" using assms(3) a by (auto simp: signals_ok_def)
    then have "cancel_loop (\<lambda>s x. ev_tc (evs s x) = cr_current s0 \<and> ev_flags (evs s x) = EF_SIGNAL) Immediate (e # es)
        (s\<lparr>locks := ?k\<rparr>) = Inl (Use_after_free (O_sub e))" if "cr_current s0 = cr_current s" for s0
      by (intro cancel_first [where g = g]) (use assms fr el a that in \<open>auto simp: holds_def free_lock_def\<close>)
    from this [of s] show "signal_cancel_pending s = Inl (Use_after_free (O_sub e))"
      using a fr by (simp add: signal_cancel_pending_def op_defs tc_current_def Let_def)
  }
  {
    let ?t = "cr_current s"
    let ?k2 = "(locks s)(L_list (Pending ?t) := Some (this_worker s))"
    assume a: "(\<forall>e \<in> set (evl s Immediate). ev_tc (evs s e) = ?t \<longrightarrow> ev_flags (evs s e) \<noteq> EF_SIGNAL) \<and>
      (\<forall>e \<in> set (evl s (Pending ?t)). ev_flags (evs s e) \<noteq> EF_SIGNAL)"
    have "cancel_loop (\<lambda>s x. ev_tc (evs s x) = ?t \<and> ev_flags (evs s x) = EF_SIGNAL) Immediate (evl s Immediate) (s\<lparr>locks := ?k\<rparr>) =
        Inr ((), s\<lparr>locks := ?k\<rparr>)"
      by (rule cancel_loop_none) (use a assms(4) in auto)
    moreover have "cancel_loop (\<lambda>s x. ev_flags (evs s x) = EF_SIGNAL) (Pending ?t) (evl s (Pending ?t)) (s\<lparr>locks := ?k2\<rparr>) =
        Inr ((), s\<lparr>locks := ?k2\<rparr>)"
      by (rule cancel_loop_none) (use a assms(4) in auto)
    moreover have "(locks s)(L_list x := None) = locks s" for x using fr by (simp add: fun_upd_idem)
    ultimately show "signal_cancel_pending s = Inr ((), s)"
      using fr by (simp add: signal_cancel_pending_def op_defs tc_current_def Let_def)
  }
qed

theorem cancel_pending_use_after_free_witness:
  "signal_cancel_pending (as_thread 0 (relink_hd 9 (Waiters (Sig_wq 2)) Immediate subscribed)) = Inl (Use_after_free (O_sub 9))"
proof -
  let ?s = "as_thread 0 (relink_hd 9 (Waiters (Sig_wq 2)) Immediate subscribed)"
  have "wf_ev ?s" by (simp add: as_thread_def wf_ev_relink_hd)
  moreover have "signals_ok ?s"
    by (auto simp: signals_ok_def as_thread_def relink_hd_def relink_to_def signal_of_def subscribed_def sss_insert_def prepared_def
        Let_def signal_event_def tc_event_init_def upd_defs clear_woken_def link_def one_waiter_ok_def one_waiter_def)
  moreover have "lists_unlocked ?s" "freed ?s = {}" using one_waiter_ok_simps(4) by (simp_all add: lists_unlocked_def as_thread_def)
  moreover have "evl ?s Immediate = [9]" "ev_tc (evs ?s 9) = cr_current ?s" "ev_flags (evs ?s 9) = EF_SIGNAL"
    by (simp_all add: as_thread_def evl_relink_hd)
       (simp add: subscribed_def sss_insert_def prepared_def Let_def signal_event_def tc_event_init_def upd_defs clear_woken_def link_def)
  ultimately show ?thesis using cancel_pending_use_after_free [of ?s] by simp
qed

end
