(* ===== verification/Fd.thy ===== *)
theory Fd
  imports Waiting
begin

text \<open>
  Descriptors (\<^verbatim>\<open>struct tc_fd\<close>): registering with epoll, unregistering and the deferred release of the structure.
\<close>

section \<open>Operations\<close>

definition O_NONBLOCK :: int where "O_NONBLOCK = 2048"

definition mark_dead :: "fdid \<Rightarrow> string \<Rightarrow> unit tcop" where
  "mark_dead tcfd t = block [mdf (upd_fd tcfd (err_hup_update (\<lambda>_. True))), msg t]"

definition u_tc_fd_init_keep_blocking :: "fdid \<Rightarrow> int \<Rightarrow> unit tcop" where
  "u_tc_fd_init_keep_blocking tcfd fd = thn (block [
     mdf (upd_fd tcfd (\<lambda>_. \<lparr>fd_fd = fd, err_hup = False, fd_ep_events = 0, was_allocated = True\<rparr>)),
     mdf (event_list_init (Fd_events tcfd))])
     (bnd (tcfd_epoll_ctl EPOLL_CTL_ADD tcfd 0) (\<lambda>r.
        if r = 0 then ret () else mark_dead tcfd ''epoll_ctl failed''))"

definition u_tc_fd_init :: "fdid \<Rightarrow> int \<Rightarrow> unit tcop" where
  "u_tc_fd_init tcfd fd = thn (u_tc_fd_init_keep_blocking tcfd fd)
     (ifm (\<lambda>s. err_hup (fds s tcfd)) (ret ())
       (bnd (sys_call (Fcntl_getfl fd)) (\<lambda>arg.
          if arg < 0 then mark_dead tcfd ''fcntl() failed''
          else bnd (sys_call (Fcntl_setfl fd (arg OR O_NONBLOCK))) (\<lambda>r.
            if r < 0 then mark_dead tcfd ''fcntl() failed'' else ret ()))))"

text \<open>\<open>mem\<close> is what \<^verbatim>\<open>malloc\<close> returns; the block it returns is not a freed one any more.\<close>

definition tc_register_fd :: "fdid option \<Rightarrow> int \<Rightarrow> fdid tcop" where
  "tc_register_fd mem fd = (case mem of
      None \<Rightarrow> msg_exit ''malloc() failed''
    | Some tcfd \<Rightarrow> thn (block [
        mdf (\<lambda>s. s\<lparr>freed := freed s - {O_fd tcfd}\<rparr>),
        u_tc_fd_init tcfd fd]) (ret tcfd))"

definition tc_register_fd_mem_still_blocking :: "int \<Rightarrow> fdid \<Rightarrow> bool tcop" where
  "tc_register_fd_mem_still_blocking fd tcfd = thn (block [
     u_tc_fd_init_keep_blocking tcfd fd,
     mdf (upd_fd tcfd (was_allocated_update (\<lambda>_. False)))]) (gets (\<lambda>s. err_hup (fds s tcfd)))"

definition u_tc_fd_unregister :: "fdid \<Rightarrow> bool \<Rightarrow> unit tcop" where
  "u_tc_fd_unregister tcfd free_later = block [
     rdm (\<lambda>s. sys_ignore (Epoll_ctl (d_efd (cur_domain s)) EPOLL_CTL_DEL (fd_fd (fds s tcfd)) 0)),
     spin_lock (L_list (Fd_events tcfd)),
     mdf (upd_fd tcfd (err_hup_update (\<lambda>_. True))),
     whn (\<lambda>s. evl s (Fd_events tcfd) \<noteq> []) (msg_exit ''event list not empty in tc_unregister_fd()''),
     spin_unlock (L_list (Fd_events tcfd)),
     whn (\<lambda>s. was_allocated (fds s tcfd))
       (if free_later then store_for_later_free tcfd else u_tc_fd_free tcfd)]"

definition tc_unregister_fd :: "fdid \<Rightarrow> unit tcop" where
  "tc_unregister_fd tcfd = u_tc_fd_unregister tcfd True"

definition tc_unregister_fd_mem :: "fdid \<Rightarrow> unit tcop" where
  "tc_unregister_fd_mem tcfd = u_tc_fd_unregister tcfd False"

definition tc_fd_of :: "fdid \<Rightarrow> tcr \<Rightarrow> int" where
  "tc_fd_of tcfd s = fd_fd (fds s tcfd)"

section \<open>Properties\<close>

lemma sync_inv_cong:
  "doms s' = doms s \<Longrightarrow> wrk s' = wrk s \<Longrightarrow> freed s' = freed s \<Longrightarrow> locks s' = locks s \<Longrightarrow> sync_inv d s' = sync_inv d s"
  unfolding sync_inv_def syncing_def by simp

text \<open>\<^verbatim>\<open>tc_register_fd\<close> always returns a structure for the descriptor, without waiters and with nothing armed; it is alive exactly when
  registering with epoll, reading and setting the flags of the descriptor all succeeded, and then \<^verbatim>\<open>O_NONBLOCK\<close> was added to the
  flags read. On a dead one every attempt to wait is refused with \<^verbatim>\<open>RV_FAILED\<close> without a system call.\<close>

lemma register_fd_correct:
  assumes "n = length (syslog s)"
  shows "\<exists>s'. tc_register_fd (Some f) fd s = Inr (f, s') \<and> evl s' (Fd_events f) = [] \<and> fd_ep_events (fds s' f) = 0 \<and>
    tc_fd_of f s' = fd \<and> O_fd f \<notin> freed s' \<and>
    (\<not> err_hup (fds s' f) \<longleftrightarrow> sysres s n = 0 \<and> 0 \<le> sysres s (n + 1) \<and> 0 \<le> sysres s (n + 2)) \<and>
    (\<not> err_hup (fds s' f) \<longrightarrow> Fcntl_setfl fd (sysres s (n + 1) OR O_NONBLOCK) \<in> set (syslog s')) \<and>
    (err_hup (fds s' f) \<longrightarrow> (\<exists>s''. add_event_fd e ep fl f s' = Inr (3, s'') \<and> syslog s'' = syslog s'))"
proof -
  have d: "err_hup (fds s' f) \<Longrightarrow> locks s' (L_list (Fd_events f)) = None \<Longrightarrow> syslog s' = sl \<Longrightarrow>
      \<exists>s''. add_event_fd e ep fl f s' = Inr (3, s'') \<and> syslog s'' = sl" for s' sl
    using add_event_fd_err [of s' f e ep fl] by (auto simp: free_lock_def)
  consider "sysres s n \<noteq> 0" | "sysres s n = 0" "sysres s (n + 1) < 0" | "sysres s n = 0" "0 \<le> sysres s (n + 1)" "sysres s (n + 2) < 0"
    | "sysres s n = 0" "0 \<le> sysres s (n + 1)" "0 \<le> sysres s (n + 2)" by linarith
  then show ?thesis
    by cases (use assms in \<open>simp_all add: tc_register_fd_def u_tc_fd_init_def u_tc_fd_init_keep_blocking_def mark_dead_def
        tcfd_epoll_ctl_def op_defs upd_defs event_list_init_def tc_fd_of_def numeral_2_eq_2\<close>, (rule d, simp_all)+)
qed

lemma register_fd_correct_witness:
  "\<exists>s'. tc_register_fd (Some 3) 17 process_image = Inr (3, s') \<and> \<not> err_hup (fds s' 3)"
  using register_fd_correct [of 0 process_image 3 17 0 0 EF_READY] by auto

text \<open>C26: \<^verbatim>\<open>tc_unregister_fd\<close> ends the process if a thread still waits on the descriptor. Otherwise it returns; the descriptor is removed from epoll
  and dead; the structure is released at once when no worker sleeps or still has to synchronise, and is kept
  for the last of them otherwise.\<close>

theorem unregister_fd_correct:
  assumes "sync_inv d s" and "this_domain s = d" and "f \<notin> set (free_list (doms s d))" and "O_fd f \<notin> freed s"
    and "was_allocated (fds s f)" and "free_lock s (L_list (Fd_events f))"
  shows "if evl s (Fd_events f) \<noteq> [] then tc_unregister_fd f s = Inl (Msg_exit ''event list not empty in tc_unregister_fd()'')
    else \<exists>s'. tc_unregister_fd f s = Inr ((), s') \<and> sync_inv d s' \<and> err_hup (fds s' f) \<and>
      Epoll_ctl (d_efd (doms s d)) EPOLL_CTL_DEL (fd_fd (fds s f)) 0 \<in> set (syslog s') \<and>
      (if sleeping_workers (doms s d) = [] \<and> syncing d s = {} then O_fd f \<in> freed s'
       else O_fd f \<notin> freed s' \<and> f \<in> set (free_list (doms s' d)))"
proof (cases "evl s (Fd_events f) = []")
  case False
  then show ?thesis
    using assms(6) by (simp add: tc_unregister_fd_def u_tc_fd_unregister_def op_defs upd_defs free_lock_def)
next
  case True
  let ?c = "Epoll_ctl (d_efd (doms s d)) EPOLL_CTL_DEL (fd_fd (fds s f)) 0"
  let ?s = "s\<lparr>syslog := syslog s @ [?c], fds := (fds s)(f := (fds s f)\<lparr>err_hup := True\<rparr>)\<rparr>"
  have a: "as_worker d (this_worker s) ?s = ?s" using assms(2) by (simp add: as_worker_def)
  have inv: "sync_inv d ?s" using assms(1) sync_inv_cong [of ?s s d] by simp
  have st: "store_for_later_free f ?s = Inr ((), store_state d f ?s)"
    using store_eq [OF inv, of f "this_worker s"] assms(3,4) unfolding a by simp
  have "tc_unregister_fd f s = store_for_later_free f ?s"
    using True assms(2,5,6) st by (simp add: tc_unregister_fd_def u_tc_fd_unregister_def op_defs upd_defs free_lock_def fun_upd_idem)
  moreover have "sync_inv d (store_state d f ?s)" by (rule store_inv [OF inv]) (use assms in simp_all)
  moreover have "sync_barrier (doms s d) + int (length (sleeping_workers (doms s d))) = 0 \<longleftrightarrow>
      sleeping_workers (doms s d) = [] \<and> syncing d s = {}"
    using sync_invD(5) [OF assms(1)] by (auto simp: add_nonneg_eq_0_iff)
  moreover have "f \<in> set (free_list (doms (store_state d f ?s) d)) \<or> O_fd f \<in> freed (store_state d f ?s)"
    "O_fd f \<in> freed (store_state d f ?s) \<longleftrightarrow> sync_barrier (doms s d) + int (length (sleeping_workers (doms s d))) = 0"
    "err_hup (fds (store_state d f ?s) f)" "?c \<in> set (syslog (store_state d f ?s))"
    using assms(4) by (auto simp: store_state_def Let_def marked_def upd_defs)
  ultimately show ?thesis using True st by auto
qed

theorem unregister_fd_correct_witness:
  "\<exists>s'. tc_unregister_fd 5 (one_asleep\<lparr>fds := (\<lambda>_. zero_fd\<lparr>was_allocated := True\<rparr>)\<rparr>) = Inr ((), s') \<and>
     O_fd 5 \<notin> freed s' \<and> err_hup (fds s' 5)"
proof -
  let ?s = "one_asleep\<lparr>fds := (\<lambda>_. zero_fd\<lparr>was_allocated := True\<rparr>)\<rparr>"
  have "sync_inv 0 ?s" using one_asleep_inv sync_inv_cong [of ?s one_asleep 0] by simp
  moreover have "this_domain ?s = 0" "5 \<notin> set (free_list (doms ?s 0))" "O_fd 5 \<notin> freed ?s" "was_allocated (fds ?s 5)"
    "free_lock ?s (L_list (Fd_events 5))" "evl ?s (Fd_events 5) = []" "sleeping_workers (doms ?s 0) \<noteq> []"
    by (simp_all add: one_asleep_def two_workers_def free_lock_def)
  ultimately show ?thesis using unregister_fd_correct [of 0 ?s 5] by auto
qed

end
