(* ===== verification/Aio.thy ===== *)
theory Aio
  imports Waiting
begin

text \<open>
  Asynchronous I/O: the eight request slots of every thread, submitting requests, waiting for them and the synchronous
  \<^verbatim>\<open>fsync\<close> wrapper. Completion by the kernel is \<open>handle_aio_event\<close> of theory \<open>Scheduler\<close>.

  \<^verbatim>\<open>io_prep_*\<close> of libaio clears the whole \<^verbatim>\<open>struct iocb\<close> before it fills it in, so that it also marks the request as not done
  (\<^verbatim>\<open>threaded_cr.h\<close> relies on this). The result of \<open>Sync_fd\<close> is 0 or what the call left in \<^verbatim>\<open>errno\<close>; in the time that \<open>Gettimeofday\<close> stores the
  second component counts microseconds.
\<close>

section \<open>Request slots\<close>

definition TC_AIO_REQUESTS_PER_TC_THREAD :: nat where "TC_AIO_REQUESTS_PER_TC_THREAD = 8"

definition tc_aio_data_done :: "adid \<Rightarrow> tcr \<Rightarrow> aio_state" where
  "tc_aio_data_done ad s = aio_done (aios s ad)"

definition tc_aio_set_data_done :: "adid \<Rightarrow> tcr \<Rightarrow> tcr" where
  "tc_aio_set_data_done ad = upd_aio ad (aio_done_update (\<lambda>_. Aio_done))"

definition tc_aio_set_data_free :: "adid \<Rightarrow> tcr \<Rightarrow> tcr" where
  "tc_aio_set_data_free ad = upd_aio ad (aio_done_update (\<lambda>_. Aio_free))"

definition tc_aio_set_data_pending :: "adid \<Rightarrow> tcr \<Rightarrow> tcr" where
  "tc_aio_set_data_pending ad = upd_aio ad (aio_done_update (\<lambda>_. Aio_pending))"

definition tc_aio_data_init :: "adid \<Rightarrow> tcr \<Rightarrow> tcr" where
  "tc_aio_data_init ad s = tc_aio_set_data_done ad
     (upd_aio ad (\<lambda>_. \<lparr>aio_cb = Io_none, aio_res = 0, aio_res2 = 0, aio_done = Aio_pending, aio_notify = None\<rparr>) s)"

definition io_prep :: "adid \<Rightarrow> iocb \<Rightarrow> tcr \<Rightarrow> tcr" where
  "io_prep ad cb = upd_aio ad (\<lambda>a. a\<lparr>aio_cb := cb, aio_done := Aio_pending\<rparr>)"

definition set_notify :: "adid \<Rightarrow> wqid option \<Rightarrow> tcr \<Rightarrow> tcr" where
  "set_notify ad wq = upd_aio ad (aio_notify_update (\<lambda>_. wq))"

lemmas aio_upd_defs [upd_defs] = tc_aio_set_data_done_def tc_aio_set_data_free_def tc_aio_set_data_pending_def
  io_prep_def set_notify_def

text \<open>An \<^verbatim>\<open>int64_t\<close> stored in an \<^verbatim>\<open>int\<close>.\<close>

definition c_int :: "int \<Rightarrow> int" where
  "c_int x = sint (word_of_int x :: 32 word)"

section \<open>Waiting for requests\<close>

text \<open>One iteration of \<^verbatim>\<open>tc_aio_wait\<close>; \<open>n\<close> bounds the rounds of the wait and \<open>e\<close> is its local event.\<close>

definition aio_wait_slot :: "nat \<Rightarrow> eid \<Rightarrow> tid \<Rightarrow> nat \<Rightarrow> int \<Rightarrow> int bop" where
  "aio_wait_slot n e tc i rv = (let ad = Aio tc i in
     rds (\<lambda>s. if aio_notify (aios s ad) \<noteq> None then ret rv
       else thn (lift (mdf (set_notify ad (Some (Aio_wq tc)))))
         (bnd (tc_waitq_wait_event n (Aio_wq tc) e (gets (\<lambda>s. tc_aio_data_done ad s \<noteq> Aio_pending))) (\<lambda>w.
            let rv1 = (if w \<noteq> RV_OK \<or> rv \<noteq> 0 then 1 else 0) in
            thn (lift (mdf (set_notify ad None)))
              (rds (\<lambda>s. let a = aios s ad in
                 if tc_aio_data_done ad s = Aio_free then ret rv1
                 else let rv2 = (if aio_res a < 0 \<and> rv1 = 0 then c_int (aio_res a) else rv1);
                          rv3 = (if aio_res2 a \<noteq> 0 \<and> rv2 = 0 then c_int (aio_res2 a) else rv2)
                      in thn (lift (mdf (tc_aio_set_data_free ad))) (ret rv3)))))))"

primrec aio_wait_loop :: "nat \<Rightarrow> eid \<Rightarrow> tid \<Rightarrow> nat list \<Rightarrow> int \<Rightarrow> int bop" where
  "aio_wait_loop n e tc [] rv = ret rv"
| "aio_wait_loop n e tc (i # is) rv = bnd (aio_wait_slot n e tc i rv) (aio_wait_loop n e tc is)"

definition tc_aio_wait :: "nat \<Rightarrow> eid \<Rightarrow> int bop" where
  "tc_aio_wait n e = rds (\<lambda>s. aio_wait_loop n e (tc_current s) [0..<TC_AIO_REQUESTS_PER_TC_THREAD] 0)"

definition free_slot :: "tid \<Rightarrow> tcr \<Rightarrow> nat option" where
  "free_slot tc s = List.find (\<lambda>i. tc_aio_data_done (Aio tc i) s = Aio_free) [0..<TC_AIO_REQUESTS_PER_TC_THREAD]"

text \<open>
  The loop of \<^verbatim>\<open>_tc_aio_get_aio_data\<close>, at most \<open>k\<close> rounds. The result is the returned value and what is stored through \<^verbatim>\<open>rad\<close>.
\<close>

fun u_tc_aio_get_aio_data :: "nat \<Rightarrow> nat \<Rightarrow> eid \<Rightarrow> (int \<times> adid option) bop" where
  "u_tc_aio_get_aio_data 0 n e = throw Out_of_fuel"
| "u_tc_aio_get_aio_data (Suc k) n e = rds (\<lambda>s. case free_slot (tc_current s) s of
      Some i \<Rightarrow> ret (0, Some (Aio (tc_current s) i))
    | None \<Rightarrow> bnd (tc_aio_wait n e) (\<lambda>rv. if rv \<noteq> 0 then ret (rv, None) else u_tc_aio_get_aio_data k n e))"

section \<open>Submitting requests\<close>

definition u_tc_aio_submit_keep_notify :: "adid \<Rightarrow> int tcop" where
  "u_tc_aio_submit_keep_notify ad = thn (mdf (upd_aio ad (\<lambda>a. a\<lparr>aio_res := 0, aio_res2 := 0\<rparr>)))
     (bnd (rdm (\<lambda>s. sys_call (Io_submit ad (aio_cb (aios s ad))))) (\<lambda>rv.
        if rv = 1 then ret 0
        else rdm (\<lambda>s. thn (block [
          mdf (tc_aio_set_data_done ad),
          (case aio_notify (aios s ad) of None \<Rightarrow> ret () | Some wq \<Rightarrow> tc_waitq_wakeup_all wq)]) (ret (- rv)))))"

definition u_tc_aio_submit :: "adid \<Rightarrow> int tcop" where
  "u_tc_aio_submit ad = thn (mdf (set_notify ad None)) (u_tc_aio_submit_keep_notify ad)"

text \<open>The caller's request, or one of the slots of the thread.\<close>

definition with_aio_data :: "nat \<Rightarrow> nat \<Rightarrow> eid \<Rightarrow> adid option \<Rightarrow> (int \<Rightarrow> int) \<Rightarrow> (adid \<Rightarrow> int bop) \<Rightarrow> int bop" where
  "with_aio_data k n e ad failed body = (case ad of
      Some ad \<Rightarrow> body ad
    | None \<Rightarrow> bnd (u_tc_aio_get_aio_data k n e) (\<lambda>(rv, slot).
        if rv \<noteq> 0 then ret (failed rv)
        else case slot of None \<Rightarrow> throw (Null_deref ''ad'') | Some ad \<Rightarrow> body ad))"

definition tc_aio_submit_sync_notify :: "nat \<Rightarrow> nat \<Rightarrow> eid \<Rightarrow> int \<Rightarrow> bool \<Rightarrow> adid option \<Rightarrow> wqid option \<Rightarrow> int bop" where
  "tc_aio_submit_sync_notify k n e fd data_only ad wq = with_aio_data k n e ad id (\<lambda>ad. lift (thn (block [
     whn (\<lambda>s. vars s Warned = 0) (block [
       mdf (\<lambda>s. s\<lparr>vars := (vars s)(Warned := 1)\<rparr>),
       msg ''#warning libtcr AIO: aio_sync not available, no kernel support'']),
     mdf (io_prep ad (if data_only then Io_fdsync fd else Io_fsync fd)),
     mdf (set_notify ad wq)]) (u_tc_aio_submit_keep_notify ad)))"

definition tc_aio_submit_write_notify ::
  "nat \<Rightarrow> nat \<Rightarrow> eid \<Rightarrow> int \<Rightarrow> nat \<Rightarrow> int \<Rightarrow> int \<Rightarrow> adid option \<Rightarrow> wqid option \<Rightarrow> int bop" where
  "tc_aio_submit_write_notify k n e fh buffer sz offset ad wq = with_aio_data k n e ad (\<lambda>_. RV_FAILED_int) (\<lambda>ad. lift (thn (block [
     mdf (io_prep ad (Io_pwrite fh buffer sz offset)),
     mdf (set_notify ad wq)]) (u_tc_aio_submit_keep_notify ad)))"

definition tc_aio_submit_write :: "nat \<Rightarrow> nat \<Rightarrow> eid \<Rightarrow> int \<Rightarrow> nat \<Rightarrow> int \<Rightarrow> int \<Rightarrow> int bop" where
  "tc_aio_submit_write k n e fh buffer sz offset = tc_aio_submit_write_notify k n e fh buffer sz offset None None"

definition tc_aio_read :: "nat \<Rightarrow> nat \<Rightarrow> eid \<Rightarrow> int \<Rightarrow> nat \<Rightarrow> int \<Rightarrow> int \<Rightarrow> int bop" where
  "tc_aio_read k n e fh buffer sz offset = with_aio_data k n e None (\<lambda>_. RV_FAILED_int) (\<lambda>ad.
     bnd (lift (thn (mdf (io_prep ad (Io_pread fh buffer sz offset))) (u_tc_aio_submit ad))) (\<lambda>rv.
       if rv \<noteq> 0 then ret rv
       else bnd (tc_aio_wait n e) (\<lambda>rv.
         if rv \<noteq> 0 then ret rv
         else rds (\<lambda>s. let r = aio_res (aios s ad) in
           ret (if 0 < r \<and> r = sz then 0 else if r \<noteq> 0 then c_int r else - 1)))))"

definition tc_aio_write :: "nat \<Rightarrow> nat \<Rightarrow> eid \<Rightarrow> int \<Rightarrow> nat \<Rightarrow> int \<Rightarrow> int \<Rightarrow> int bop" where
  "tc_aio_write k n e fh buffer sz offset = bnd (tc_aio_submit_write k n e fh buffer sz offset) (\<lambda>rv.
     if rv = 0 then tc_aio_wait n e else ret rv)"

section \<open>Synchronising\<close>

definition gettimeofday :: "timespec tcop" where
  "gettimeofday = (\<lambda>s. Inr (sysclk s (length (syslog s)), s\<lparr>syslog := syslog s @ [Gettimeofday]\<rparr>))"

definition uu_tc_aio_sync :: "int \<Rightarrow> bool \<Rightarrow> adid \<Rightarrow> wqid option \<Rightarrow> unit tcop" where
  "uu_tc_aio_sync fh data_only ad wq = thn (block [
     mdf (tc_aio_data_init ad),
     mdf (tc_aio_set_data_pending ad)])
     (bnd gettimeofday (\<lambda>tv1.
      bnd (sys_call (Sync_fd fh data_only)) (\<lambda>r.
      thn (mdf (upd_aio ad (aio_res_update (\<lambda>_. r))))
      (bnd gettimeofday (\<lambda>tv2. block [
        mdf (upd_aio ad (aio_res2_update (\<lambda>_. (tv_sec tv2 - tv_sec tv1) * 1000000 + (tv_nsec tv2 - tv_nsec tv1)))),
        mdf (tc_aio_set_data_done ad),
        (case wq of None \<Rightarrow> ret () | Some wq \<Rightarrow> tc_waitq_wakeup_all wq)])))))"

definition EINVAL :: int where "EINVAL = 22"

definition tc_aio_sync_notify :: "int \<Rightarrow> bool \<Rightarrow> adid option \<Rightarrow> wqid option \<Rightarrow> int tcop" where
  "tc_aio_sync_notify fd data_only ad wq = (case ad of
      None \<Rightarrow> ret EINVAL
    | Some ad \<Rightarrow> thn (uu_tc_aio_sync fd data_only ad wq) (gets (\<lambda>s. c_int (aio_res (aios s ad)))))"

text \<open>\<open>ad\<close>, \<open>wq\<close>, \<open>v\<close> and \<open>e\<close> are the local variables of \<^verbatim>\<open>tc_aio_sync\<close>; the condition of its wait starts the request.\<close>

definition aio_sync_cond :: "int \<Rightarrow> bool \<Rightarrow> adid \<Rightarrow> wqid \<Rightarrow> nat \<Rightarrow> bool tcop" where
  "aio_sync_cond fd data_only ad wq v = thn
     (whn (\<lambda>s. vars s (Local v) \<noteq> 0) (bnd (tc_aio_sync_notify fd data_only (Some ad) (Some wq)) (\<lambda>r.
        mdf (\<lambda>s. s\<lparr>vars := (vars s)(Local v := r)\<rparr>))))
     (gets (\<lambda>s. vars s (Local v) \<noteq> 0 \<or> tc_aio_data_done ad s \<noteq> Aio_pending))"

definition tc_aio_sync :: "nat \<Rightarrow> eid \<Rightarrow> adid \<Rightarrow> wqid \<Rightarrow> nat \<Rightarrow> int \<Rightarrow> bool \<Rightarrow> bool bop" where
  "tc_aio_sync n e ad wq v fd data_only = thn (lift (block [
     mdf (tc_waitq_init wq),
     mdf (tc_aio_data_init ad),
     mdf (tc_aio_set_data_pending ad),
     mdf (\<lambda>s. s\<lparr>vars := (vars s)(Local v := 1)\<rparr>)]))
     (bnd (tc_waitq_wait_event n wq e (aio_sync_cond fd data_only ad wq v)) (\<lambda>rv.
        rds (\<lambda>s. ret (rv \<noteq> RV_OK \<or> vars s (Local v) \<noteq> 0))))"

section \<open>What happens elsewhere is used up in order\<close>

definition sheds :: "'a bop \<Rightarrow> bool" where
  "sheds m \<longleftrightarrow> (\<forall>s env x s' env'. m (s, env) = Inr (x, (s', env')) \<longrightarrow> (\<exists>k. env' = drop k env))"

lemma shedsD: "sheds m \<Longrightarrow> m (s, env) = Inr (x, (s', env')) \<Longrightarrow> \<exists>k. env' = drop k env"
  unfolding sheds_def by blast

lemma sheds_lift: "sheds (lift m)"
  by (auto simp: sheds_def lift_def split: sum.splits intro: exI [of _ 0])

lemma sheds_ret: "sheds (ret x)"
  by (auto simp: sheds_def ret_def intro: exI [of _ 0])

lemma sheds_throw: "sheds (throw f)"
  by (simp add: sheds_def throw_def)

lemma sheds_cr_call: "sheds (cr_call cr)"
  by (auto simp: sheds_def cr_call_def Let_def split: list.splits intro: exI [of _ 1])

lemma sheds_bnd:
  assumes m: "sheds m" and k: "\<And>x. sheds (k x)"
  shows "sheds (bnd m k)"
  unfolding sheds_def
proof (intro allI impI)
  fix s env x s' env'
  assume "bnd m k (s, env) = Inr (x, (s', env'))"
  then obtain y t env1 where "m (s, env) = Inr (y, (t, env1))" "k y (t, env1) = Inr (x, (s', env'))"
    by (auto simp: bnd_def split: sum.splits)
  then obtain a b where "env1 = drop a env" "env' = drop b env1" using shedsD [OF m] shedsD [OF k] by blast
  then show "\<exists>k. env' = drop k env" by auto
qed

lemma sheds_thn: "sheds m \<Longrightarrow> sheds k \<Longrightarrow> sheds (thn m k)"
  by (simp add: thn_def sheds_bnd)

lemma sheds_rds: "(\<And>s. sheds (m s)) \<Longrightarrow> sheds (rds m)"
  unfolding sheds_def rds_def by auto

lemma sheds_block: "(\<And>m. m \<in> set ms \<Longrightarrow> sheds m) \<Longrightarrow> sheds (block ms)"
proof (induction ms)
  case Nil
  then show ?case using sheds_ret [of "()"] by (simp add: ret_def)
next
  case (Cons m ms)
  then have "sheds (thn m (block ms))" by (intro sheds_thn) simp_all
  then show ?case by (simp add: thn_def bnd_def)
qed

lemmas sheds_intros = sheds_lift sheds_ret sheds_throw sheds_cr_call sheds_bnd sheds_thn sheds_rds

lemma sheds_scheduler: "sheds tc_scheduler"
proof -
  have "sheds (u_switch_to t)" for t
    unfolding u_switch_to_def by (rule sheds_block) (auto intro: sheds_intros)
  then show ?thesis
    unfolding tc_scheduler_def by (auto intro!: sheds_intros split: option.splits)
qed

lemma sheds_wait_event: "sheds (tc_waitq_wait_event n wq e cond)"
proof -
  have "sheds (wait_event_loop n wq e cond)"
  proof (induction n)
    case 0
    show ?case by (simp add: sheds_throw)
  next
    case (Suc n)
    have "sheds (if b then ret RV_INTR else wait_event_loop n wq e cond)" for b using Suc by (simp add: sheds_ret)
    moreover have "sheds (if c then thn (lift (tc_waitq_finish_wait (Some wq) e)) (ret RV_OK) else thn tc_scheduler
          (bnd (lift (tc_waitq_finish_wait (Some wq) e)) (\<lambda>b. if b then ret RV_INTR else wait_event_loop n wq e cond)))" for c
      using calculation by (auto intro: sheds_intros sheds_scheduler)
    ultimately show ?case by (auto intro: sheds_intros)
  qed
  then have "sheds (if c then ret RV_OK else tc_wait_event n wq e cond)" for c
    by (auto simp: tc_wait_event_def intro: sheds_intros)
  then show ?thesis by (auto simp: tc_waitq_wait_event_def intro: sheds_intros)
qed

section \<open>Waiting for all requests of a thread\<close>

text \<open>The slots of a thread as \<open>A\<close>, where \<open>F\<close> are the free ones; the requests in flight may complete.\<close>

definition aio_kept :: "tid \<Rightarrow> (nat \<Rightarrow> tc_aio_data) \<Rightarrow> tcr \<Rightarrow> bool" where
  "aio_kept tc A s \<longleftrightarrow> (\<forall>i. aio_notify (aios s (Aio tc i)) = aio_notify (A i) \<and>
     (if aio_done (A i) = Aio_free then aios s (Aio tc i) = A i else aio_done (aios s (Aio tc i)) \<noteq> Aio_free))"

text \<open>While a thread is switched out its free slots do not change, none becomes free, and nobody changes who is notified.\<close>

definition aio_env :: "tid \<Rightarrow> env \<Rightarrow> bool" where
  "aio_env tc env \<longleftrightarrow> (\<forall>g \<in> set env. \<forall>u. aio_kept tc (\<lambda>i. aios u (Aio tc i)) (g u))"

interpretation aio_wait: wait_condition "gets (\<lambda>s. tc_aio_data_done (Aio tc i) s \<noteq> Aio_pending)"
  "\<lambda>s. tc_aio_data_done (Aio tc i) s \<noteq> Aio_pending" "\<lambda>_. True" "aio_kept tc A" for tc i A
  by unfold_locales (auto simp: tc_aio_data_done_def op_defs quiet_def same_objects_def aio_kept_def)

lemma aio_env_keeps: "aio_env tc env \<Longrightarrow> env_keeps tc e (aio_kept tc A) (\<lambda>_. True) env"
  unfolding aio_env_def env_keeps_def aio_kept_def by (smt (verit))

definition slot_ok :: "tc_aio_data \<Rightarrow> bool" where
  "slot_ok a \<longleftrightarrow> (0 \<le> aio_res a \<or> c_int (aio_res a) = 0) \<and> c_int (aio_res2 a) = 0"

text \<open>The effect of one iteration on the slots and on the result.\<close>

definition slot_done :: "tid \<Rightarrow> nat \<Rightarrow> int \<Rightarrow> int \<Rightarrow> tcr \<Rightarrow> tcr \<Rightarrow> bool" where
  "slot_done tc i rv rv' s s' \<longleftrightarrow>
     (\<forall>j. aio_notify (aios s' (Aio tc j)) = aio_notify (aios s (Aio tc j)) \<and>
        (aio_done (aios s (Aio tc j)) = Aio_free \<longrightarrow> aios s' (Aio tc j) = aios s (Aio tc j)) \<and>
        (j \<noteq> i \<longrightarrow> aio_done (aios s' (Aio tc j)) = Aio_free \<longrightarrow> aio_done (aios s (Aio tc j)) = Aio_free)) \<and>
     (aio_notify (aios s (Aio tc i)) = None \<longrightarrow> aio_done (aios s' (Aio tc i)) = Aio_free) \<and>
     (rv' = 0 \<longrightarrow> rv = 0 \<and> (aio_notify (aios s (Aio tc i)) = None \<longrightarrow> aio_done (aios s (Aio tc i)) \<noteq> Aio_free \<longrightarrow>
        slot_ok (aios s' (Aio tc i))))"

lemma calm_upd_aio: "calm tc e (upd_aio ad f s) = calm tc e s"
  by (rule quiet_keeps(7)) (simp add: quiet_def upd_defs)

lemma slot_doneI:
  assumes "\<And>j. j \<noteq> i \<Longrightarrow> aio_notify (aios s' (Aio tc j)) = aio_notify (aios s (Aio tc j)) \<and>
      (aio_done (aios s (Aio tc j)) = Aio_free \<longrightarrow> aios s' (Aio tc j) = aios s (Aio tc j)) \<and>
      (aio_done (aios s' (Aio tc j)) = Aio_free \<longrightarrow> aio_done (aios s (Aio tc j)) = Aio_free)"
    and "aio_notify (aios s (Aio tc i)) = None" and "aio_notify (aios s' (Aio tc i)) = None" and "aio_done (aios s' (Aio tc i)) = Aio_free"
    and "aio_done (aios s (Aio tc i)) = Aio_free \<Longrightarrow> aios s' (Aio tc i) = aios s (Aio tc i)"
    and "rv' = 0 \<Longrightarrow> rv = 0 \<and> (aio_done (aios s (Aio tc i)) \<noteq> Aio_free \<longrightarrow> slot_ok (aios s' (Aio tc i)))"
  shows "slot_done tc i rv rv' s s'"
  using assms unfolding slot_done_def by metis

lemma notify_idem: "aio_notify a = None \<Longrightarrow> a\<lparr>aio_notify := None\<rparr> = a"
  by (cases a) simp

lemma aio_wait_slot_result:
  assumes "calm tc e s" and "env_ok tc e env" and "aio_env tc env" and "length env < n"
  shows "(\<exists>rv' s' k. aio_wait_slot n e tc i rv (s, env) = Inr (rv', (s', drop k env)) \<and> calm tc e s' \<and> slot_done tc i rv rv' s s') \<or>
    aio_wait_slot n e tc i rv (s, env) = Inl Suspended"
proof (cases "aio_notify (aios s (Aio tc i)) = None")
  case False
  then have "aio_wait_slot n e tc i rv (s, env) = Inr (rv, (s, drop 0 env))" by (simp add: aio_wait_slot_def Let_def op_defs)
  moreover have "slot_done tc i rv rv s s" using False by (auto simp: slot_done_def)
  ultimately show ?thesis using assms(1) by blast
next
  case True
  let ?ad = "Aio tc i" and ?c = "gets (\<lambda>s. tc_aio_data_done (Aio tc i) s \<noteq> Aio_pending) :: bool tcop"
  let ?s0 = "set_notify ?ad (Some (Aio_wq tc)) s"
  let ?w = "tc_waitq_wait_event n (Aio_wq tc) e ?c (?s0, env)" and ?A = "\<lambda>i. aios ?s0 (Aio tc i)"
  have c0: "calm tc e ?s0" using assms(1) by (simp add: set_notify_def calm_upd_aio)
  have k0: "aio_kept tc ?A ?s0" by (simp add: aio_kept_def)
  consider w s1 k where "?w = Inr (w, (s1, drop k env))" "calm tc e s1" "aio_kept tc ?A s1" | "?w = Inl Suspended"
    using aio_wait.wait_event [OF c0 assms(2) aio_env_keeps [OF assms(3)] assms(4) k0] shedsD [OF sheds_wait_event] by metis
  then show ?thesis
  proof cases
    case 1
    let ?a = "aios s1 ?ad" and ?s2 = "set_notify ?ad None s1"
    have kA: "aio_notify (aios s1 (Aio tc j)) = aio_notify (?A j)"
      "aio_done (?A j) = Aio_free \<Longrightarrow> aios s1 (Aio tc j) = ?A j"
      "aio_done (?A j) \<noteq> Aio_free \<Longrightarrow> aio_done (aios s1 (Aio tc j)) \<noteq> Aio_free" for j
      using 1(3) unfolding aio_kept_def by metis+
    have A: "?A j = (if j = i then (aios s ?ad)\<lparr>aio_notify := Some (Aio_wq tc)\<rparr> else aios s (Aio tc j))" for j
      by (simp add: upd_defs)
    have k: "j \<noteq> i \<Longrightarrow> aio_notify (aios s1 (Aio tc j)) = aio_notify (aios s (Aio tc j))"
      "aio_done (aios s (Aio tc j)) = Aio_free \<Longrightarrow> aios s1 (Aio tc j) = ?A j"
      "aio_done (aios s1 (Aio tc j)) = Aio_free \<Longrightarrow> aio_done (aios s (Aio tc j)) = Aio_free" for j
      using kA [of j] by (auto simp: A split: if_splits)
    have kj: "j \<noteq> i \<Longrightarrow> aio_notify (aios s1 (Aio tc j)) = aio_notify (aios s (Aio tc j)) \<and>
        (aio_done (aios s (Aio tc j)) = Aio_free \<longrightarrow> aios s1 (Aio tc j) = aios s (Aio tc j)) \<and>
        (aio_done (aios s1 (Aio tc j)) = Aio_free \<longrightarrow> aio_done (aios s (Aio tc j)) = Aio_free)" for j
      using k [of j] A [of j] by metis
    have r: "j \<noteq> i \<Longrightarrow> aios ?s2 (Aio tc j) = aios s1 (Aio tc j)"
      "j \<noteq> i \<Longrightarrow> aios (tc_aio_set_data_free ?ad ?s2) (Aio tc j) = aios s1 (Aio tc j)" for j
      by (simp_all add: upd_defs)
    let ?rv1 = "if w \<noteq> RV_OK \<or> rv \<noteq> 0 then 1 else 0 :: int"
    let ?rv2 = "if aio_res ?a < 0 \<and> ?rv1 = 0 then c_int (aio_res ?a) else ?rv1"
    let ?rv3 = "if aio_res2 ?a \<noteq> 0 \<and> ?rv2 = 0 then c_int (aio_res2 ?a) else ?rv2"
    have c2: "calm tc e ?s2" "calm tc e (tc_aio_set_data_free ?ad ?s2)"
      using 1(2) by (simp_all add: set_notify_def tc_aio_set_data_free_def calm_upd_aio)
    have c00: "c_int 0 = 0" by (simp add: c_int_def)
    show ?thesis
    proof (cases "aio_done ?a = Aio_free")
      case f: True
      then have "aio_wait_slot n e tc i rv (s, env) = Inr (?rv1, (?s2, drop k env))"
        using True 1(1) by (simp add: aio_wait_slot_def op_defs upd_defs tc_aio_data_done_def Let_def)
      moreover have "slot_done tc i rv ?rv1 s ?s2"
      proof (rule slot_doneI)
        show "aios ?s2 ?ad = aios s ?ad"
          using k(2,3) [of i] f True by (simp add: A set_notify_def upd_aio_def notify_idem)
        show "aio_notify (aios ?s2 (Aio tc j)) = aio_notify (aios s (Aio tc j)) \<and>
            (aio_done (aios s (Aio tc j)) = Aio_free \<longrightarrow> aios ?s2 (Aio tc j) = aios s (Aio tc j)) \<and>
            (aio_done (aios ?s2 (Aio tc j)) = Aio_free \<longrightarrow> aio_done (aios s (Aio tc j)) = Aio_free)" if "j \<noteq> i" for j
          unfolding r(1) [OF that] by (rule kj [OF that])
      qed (use f True k(3) [of i] in \<open>simp_all add: upd_defs split: if_splits\<close>)
      ultimately show ?thesis using c2(1) by blast
    next
      case f: False
      then have "aio_wait_slot n e tc i rv (s, env) = Inr (?rv3, (tc_aio_set_data_free ?ad ?s2, drop k env))"
        using True 1(1) by (simp add: aio_wait_slot_def op_defs upd_defs tc_aio_data_done_def Let_def)
      moreover have "slot_done tc i rv ?rv3 s (tc_aio_set_data_free ?ad ?s2)"
      proof (rule slot_doneI)
        show "?rv3 = 0 \<Longrightarrow> rv = 0 \<and> (aio_done (aios s ?ad) \<noteq> Aio_free \<longrightarrow> slot_ok (aios (tc_aio_set_data_free ?ad ?s2) ?ad))"
          using c00 by (auto simp: slot_ok_def upd_defs split: if_splits)
        show "aio_done (aios s ?ad) = Aio_free \<Longrightarrow> aios (tc_aio_set_data_free ?ad ?s2) ?ad = aios s ?ad"
          using k(2) [of i] f by (simp add: A)
        show "aio_notify (aios (tc_aio_set_data_free ?ad ?s2) (Aio tc j)) = aio_notify (aios s (Aio tc j)) \<and>
            (aio_done (aios s (Aio tc j)) = Aio_free \<longrightarrow> aios (tc_aio_set_data_free ?ad ?s2) (Aio tc j) = aios s (Aio tc j)) \<and>
            (aio_done (aios (tc_aio_set_data_free ?ad ?s2) (Aio tc j)) = Aio_free \<longrightarrow> aio_done (aios s (Aio tc j)) = Aio_free)" if "j \<noteq> i" for j
          unfolding r(2) [OF that] by (rule kj [OF that])
      qed (use f True in \<open>simp_all add: upd_defs\<close>)
      ultimately show ?thesis using c2(2) by blast
    qed
  next
    case 2
    then show ?thesis using True by (simp add: aio_wait_slot_def Let_def op_defs)
  qed
qed

lemma env_drop: "env_ok tc e env \<Longrightarrow> env_ok tc e (drop k env)" "aio_env tc env \<Longrightarrow> aio_env tc (drop k env)"
  using set_drop_subset [of k env] by (auto simp: env_ok_def aio_env_def)

definition slots_done :: "tid \<Rightarrow> nat list \<Rightarrow> int \<Rightarrow> int \<Rightarrow> tcr \<Rightarrow> tcr \<Rightarrow> bool" where
  "slots_done tc is rv rv' s s' \<longleftrightarrow>
     (\<forall>j. aio_notify (aios s' (Aio tc j)) = aio_notify (aios s (Aio tc j)) \<and>
        (aio_done (aios s (Aio tc j)) = Aio_free \<longrightarrow> aios s' (Aio tc j) = aios s (Aio tc j)) \<and>
        (j \<notin> set is \<longrightarrow> aio_done (aios s' (Aio tc j)) = Aio_free \<longrightarrow> aio_done (aios s (Aio tc j)) = Aio_free)) \<and>
     (\<forall>j \<in> set is. aio_notify (aios s (Aio tc j)) = None \<longrightarrow> aio_done (aios s' (Aio tc j)) = Aio_free) \<and>
     (rv' = 0 \<longrightarrow> rv = 0 \<and> (\<forall>j \<in> set is. aio_notify (aios s (Aio tc j)) = None \<longrightarrow> aio_done (aios s (Aio tc j)) \<noteq> Aio_free \<longrightarrow>
        slot_ok (aios s' (Aio tc j))))"

lemma slots_done_Cons:
  assumes i: "slot_done tc i rv rv1 s s1" and l: "slots_done tc is rv1 rv' s1 s'" and d: "i \<notin> set is"
  shows "slots_done tc (i # is) rv rv' s s'"
proof -
  let ?a = "\<lambda>s j. aios s (Aio tc j)"
  have i': "aio_notify (?a s1 j) = aio_notify (?a s j)" "aio_done (?a s j) = Aio_free \<Longrightarrow> ?a s1 j = ?a s j"
    "j \<noteq> i \<Longrightarrow> aio_done (?a s1 j) = Aio_free \<Longrightarrow> aio_done (?a s j) = Aio_free"
    "aio_notify (?a s i) = None \<Longrightarrow> aio_done (?a s1 i) = Aio_free" "rv1 = 0 \<Longrightarrow> rv = 0"
    "rv1 = 0 \<Longrightarrow> aio_notify (?a s i) = None \<Longrightarrow> aio_done (?a s i) \<noteq> Aio_free \<Longrightarrow> slot_ok (?a s1 i)" for j
    using i unfolding slot_done_def by blast+
  have l': "aio_notify (?a s' j) = aio_notify (?a s1 j)" "aio_done (?a s1 j) = Aio_free \<Longrightarrow> ?a s' j = ?a s1 j"
    "j \<notin> set is \<Longrightarrow> aio_done (?a s' j) = Aio_free \<Longrightarrow> aio_done (?a s1 j) = Aio_free"
    "j \<in> set is \<Longrightarrow> aio_notify (?a s1 j) = None \<Longrightarrow> aio_done (?a s' j) = Aio_free" "rv' = 0 \<Longrightarrow> rv1 = 0"
    "rv' = 0 \<Longrightarrow> j \<in> set is \<Longrightarrow> aio_notify (?a s1 j) = None \<Longrightarrow> aio_done (?a s1 j) \<noteq> Aio_free \<Longrightarrow> slot_ok (?a s' j)" for j
    using l unfolding slots_done_def by blast+
  show ?thesis
    unfolding slots_done_def
  proof (intro conjI allI impI ballI)
    fix j
    show "aio_notify (?a s' j) = aio_notify (?a s j)" using i'(1) l'(1) by simp
    show "?a s' j = ?a s j" if "aio_done (?a s j) = Aio_free" using that i'(2) l'(2) by simp
    show "aio_done (?a s j) = Aio_free" if "j \<notin> set (i # is)" "aio_done (?a s' j) = Aio_free"
      using that i'(3) l'(3) by simp
    show "aio_done (?a s' j) = Aio_free" if "j \<in> set (i # is)" "aio_notify (?a s j) = None"
      using that i'(1,4) l'(2,4) by auto
    show "slot_ok (?a s' j)" if "rv' = 0" "j \<in> set (i # is)" "aio_notify (?a s j) = None" "aio_done (?a s j) \<noteq> Aio_free"
      using that d i'(1,3,4,6) l'(2,5,6) by (cases "j = i") auto
    show "rv = 0" if "rv' = 0" using that i'(5) l'(5) by simp
  qed
qed

lemma aio_wait_loop_result:
  "calm tc e s \<Longrightarrow> env_ok tc e env \<Longrightarrow> aio_env tc env \<Longrightarrow> length env < n \<Longrightarrow> distinct is \<Longrightarrow>
    (\<exists>rv' s' env'. aio_wait_loop n e tc is rv (s, env) = Inr (rv', (s', env')) \<and> calm tc e s' \<and> slots_done tc is rv rv' s s') \<or>
    aio_wait_loop n e tc is rv (s, env) = Inl Suspended"
proof (induction "is" arbitrary: s env rv)
  case Nil
  then show ?case by (auto simp: op_defs slots_done_def)
next
  case (Cons i "is")
  from aio_wait_slot_result [OF Cons.prems(1-4), of i rv] show ?case
  proof (elim disjE exE conjE)
    fix rv1 s1 k
    assume 1: "aio_wait_slot n e tc i rv (s, env) = Inr (rv1, (s1, drop k env))" "calm tc e s1" "slot_done tc i rv rv1 s s1"
    have "length (drop k env) < n" using Cons.prems(4) by simp
    from Cons.IH [OF 1(2) env_drop(1) [OF Cons.prems(2)] env_drop(2) [OF Cons.prems(3)] this, of rv1] Cons.prems(5) show ?case
      using 1 by (auto simp: op_defs intro: slots_done_Cons [OF 1(3)])
  qed (simp add: op_defs)
qed


text \<open>Thread 0 has a request in slot 0 that is in flight; while it is switched out all requests complete, and its event 9 continues it.\<close>

definition in_flight :: tcr where
  "in_flight = process_image\<lparr>thr := (\<lambda>_. zero_thread\<lparr>tc_cr := True\<rparr>)\<rparr>"

definition all_complete :: "tcr \<Rightarrow> tcr" where
  "all_complete u = process_image\<lparr>thr := (\<lambda>_. zero_thread\<lparr>tc_cr := True, event_stack := Some 9\<rparr>),
     wrk := (\<lambda>_. zero_worker\<lparr>woken_by_event := Some 9\<rparr>),
     aios := (\<lambda>ad. if aio_done (aios u ad) = Aio_pending then (aios u ad)\<lparr>aio_done := Aio_done, aio_res := 512\<rparr> else aios u ad)\<rparr>"


text \<open>When all eight slots of a thread were given a wait queue to notify, none of them is ever free again: \<^verbatim>\<open>tc_aio_wait\<close> skips
  them and returns 0 at once, and \<^verbatim>\<open>_tc_aio_get_aio_data\<close> loops forever without ever switching to another thread. No number of
  rounds is enough, even after all requests are done.\<close>

lemma aio_get_data_livelock:
  assumes "\<And>i. i < 8 \<Longrightarrow> aio_notify (aios s (Aio (cr_current s) i)) \<noteq> None"
    and "\<And>i. i < 8 \<Longrightarrow> tc_aio_data_done (Aio (cr_current s) i) s \<noteq> Aio_free"
  shows "u_tc_aio_get_aio_data k n e (s, env) = Inl Out_of_fuel"
proof -
  have "aio_wait_loop n e (cr_current s) is rv (s, env) = Inr (rv, (s, env))" if "set is \<subseteq> {0..<8}" for "is" rv
    using that assms(1) by (induction "is") (simp_all add: aio_wait_slot_def Let_def op_defs)
  then have w: "tc_aio_wait n e (s, env) = Inr (0, (s, env))"
    by (simp add: tc_aio_wait_def op_defs tc_current_def TC_AIO_REQUESTS_PER_TC_THREAD_def)
  have "free_slot (cr_current s) s = None"
    using assms(2) by (auto simp: free_slot_def find_None_iff TC_AIO_REQUESTS_PER_TC_THREAD_def)
  with w show ?thesis by (induction k) (simp_all add: op_defs tc_current_def)
qed

lemma aio_get_data_livelock_witness:
  "u_tc_aio_get_aio_data 1000 5 0 (process_image\<lparr>aios := (\<lambda>_. \<lparr>aio_cb = Io_none, aio_res = 0, aio_res2 = 0,
     aio_done = Aio_done, aio_notify = Some (Wq 1)\<rparr>)\<rparr>, []) = Inl Out_of_fuel"
  by (rule aio_get_data_livelock) (simp_all add: tc_aio_data_done_def)

text \<open>A wait that a signal interrupts hands the slot of a request that is still in flight out again.\<close>

lemma aio_wait_interrupted_frees:
  assumes "aio_notify (aios s (Aio tc i)) = None"
    and "tc_waitq_wait_event n (Aio_wq tc) e (gets (\<lambda>s. tc_aio_data_done (Aio tc i) s \<noteq> Aio_pending))
      (set_notify (Aio tc i) (Some (Aio_wq tc)) s, env) = Inr (RV_INTR, (s1, env'))"
    and "tc_aio_data_done (Aio tc i) s1 = Aio_pending"
  shows "\<exists>s'. aio_wait_slot n e tc i rv (s, env) = Inr (1, (s', env')) \<and> tc_aio_data_done (Aio tc i) s' = Aio_free"
  using assms by (simp add: aio_wait_slot_def op_defs upd_defs tc_aio_data_done_def Let_def)

text \<open>The error of a request is replaced by 1 as soon as another slot is looked at.\<close>

lemma aio_wait_error_lost:
  assumes "aio_notify (aios s (Aio tc i)) = None" and "tc_aio_data_done (Aio tc i) s = Aio_free" and "rv \<noteq> 0"
  shows "\<exists>s'. aio_wait_slot n e tc i rv (s, env) = Inr (1, (s', env))"
  using assms by (simp add: aio_wait_slot_def op_defs upd_defs tc_aio_data_done_def Let_def tc_waitq_wait_event_def)

end
