(* ===== verification/Timer.thy ===== *)
theory Timer
  imports Mutex "HOL-Library.Product_Lexorder"
begin

text \<open>
  Timers: the sorted list of sleeping threads of a domain, programming of the one timer descriptor, and \<^verbatim>\<open>tc_sleep\<close>, in which one of the
  sleepers is the master that waits for the descriptor and wakes the others.

  \<^verbatim>\<open>LIST_NEXT(tw, tl) == NOT_ON_TIMERLIST\<close> is the flag \<open>on_timerlist\<close>; the list itself is a list of waiters. \<^verbatim>\<open>1e9\<close> is a
  double, but all values compared with it are exact as doubles.
\<close>

section \<open>Times\<close>

definition compare_ts_times :: "timespec \<Rightarrow> timespec \<Rightarrow> int" where
  "compare_ts_times ts1 ts2 =
     (if tv_sec ts1 < tv_sec ts2 then - 1
      else if tv_sec ts1 > tv_sec ts2 then 1
      else if tv_nsec ts1 < tv_nsec ts2 then - 1
      else if tv_nsec ts1 > tv_nsec ts2 then 1
      else 0)"

text \<open>The loop of \<^verbatim>\<open>timer_delta\<close>.\<close>

function borrow :: "timespec \<Rightarrow> timespec" where
  "borrow t = (if tv_nsec t < 0 then borrow \<lparr>tv_sec = tv_sec t - 1, tv_nsec = tv_nsec t + 1000000000\<rparr> else t)"
  by pat_completeness auto
termination
  by (relation "measure (\<lambda>t. nat (- tv_nsec t))") auto

text \<open>\<^verbatim>\<open>timer_delta\<close> returns whether the difference is not positive; the second component is \<^verbatim>\<open>*dest\<close>.\<close>

definition timer_delta :: "timespec \<Rightarrow> timespec \<Rightarrow> bool \<times> timespec" where
  "timer_delta later earlier = (let t = borrow \<lparr>tv_sec = tv_sec later - tv_sec earlier, tv_nsec = tv_nsec later - tv_nsec earlier\<rparr>
     in (tv_sec t < 0 \<or> tv_sec t = 0 \<and> tv_nsec t \<le> 0, t))"

text \<open>The loop of \<^verbatim>\<open>tc_sleep\<close> that normalises the end of the sleep.\<close>

function carry :: "timespec \<Rightarrow> timespec" where
  "carry t = (if tv_nsec t > 1000000000 then carry \<lparr>tv_sec = tv_sec t + 1, tv_nsec = tv_nsec t - 1000000000\<rparr> else t)"
  by pat_completeness auto
termination
  by (relation "measure (\<lambda>t. nat (tv_nsec t))") auto

definition sleep_end :: "timespec \<Rightarrow> int \<Rightarrow> int \<Rightarrow> timespec" where
  "sleep_end now sec nsec = carry \<lparr>tv_sec = tv_sec now + sec, tv_nsec = tv_nsec now + nsec\<rparr>"

declare borrow.simps [simp del] carry.simps [simp del]

section \<open>The timer list\<close>

abbreviation cur_timer_list :: "tcr \<Rightarrow> twid list" where
  "cur_timer_list s \<equiv> timer_list (cur_domain s)"

definition set_timer_list :: "(twid list \<Rightarrow> twid list) \<Rightarrow> tcr \<Rightarrow> tcr" where
  "set_timer_list f s = upd_dom (this_domain s) (timer_list_update f) s"

definition lock_timers :: "unit tcop" where
  "lock_timers = rdm (\<lambda>s. spin_lock (L_timer (this_domain s)))"

definition unlock_timers :: "unit tcop" where
  "unlock_timers = rdm (\<lambda>s. spin_unlock (L_timer (this_domain s)))"

lemmas timer_op_defs [op_defs] = lock_timers_def unlock_timers_def
lemmas timer_upd_defs [upd_defs] = set_timer_list_def

definition remove_from_timer_list_wakeup :: "twid \<Rightarrow> unit tcop" where
  "remove_from_timer_list_wakeup to_remove = block [
     lock_timers,
     whn (\<lambda>s. on_timerlist (timers s to_remove)) (mdf (set_timer_list (remove1 to_remove))),
     rdm (\<lambda>s. case cur_timer_list s of [] \<Rightarrow> ret () | tw # _ \<Rightarrow> tc_waitq_wakeup_all (Timer_wq tw)),
     unlock_timers]"

definition timerfd_reprogram_valid :: "timespec option \<Rightarrow> bool tcop" where
  "timerfd_reprogram_valid ts = bnd (case ts of None \<Rightarrow> clock_gettime | Some t \<Rightarrow> ret t) (\<lambda>now.
     rdm (\<lambda>s. case cur_timer_list s of
         [] \<Rightarrow> throw (Null_deref ''LIST_FIRST(&timer_list)->abs_end'')
       | tw # _ \<Rightarrow> (case timer_delta (abs_end (timers s tw)) now of (passed, delta) \<Rightarrow>
           if passed then ret False
           else let make_abs = (tv_sec delta > 0) in
             bnd (sys_call (Timerfd_settime (fd_fd (fds s (timer_tcfd (cur_domain s)))) make_abs
                    (if make_abs then abs_end (timers s tw) else delta)))
               (\<lambda>r. if r \<noteq> 0 then msg_exit ''timerfd_settime failed'' else ret True))))"

text \<open>The search for the place in the list; \<open>None\<close> is the failed assertion that an element is not its own successor.\<close>

fun timer_walk :: "(twid \<Rightarrow> timespec) \<Rightarrow> twid \<Rightarrow> twid list \<Rightarrow> twid list option" where
  "timer_walk f w [] = Some [w]"
| "timer_walk f w (c # cs) =
     (if compare_ts_times (f w) (f c) < 0 then Some (w # c # cs)
      else if cs \<noteq> [] \<and> hd cs = c then None
      else map_option (Cons c) (timer_walk f w cs))"

definition insert_into_timer_list :: "twid \<Rightarrow> unit tcop" where
  "insert_into_timer_list to_insert = block [
     lock_timers,
     rdm (\<lambda>s. case timer_walk (\<lambda>w. abs_end (timers s w)) to_insert (cur_timer_list s) of
        None \<Rightarrow> throw (Assertion ''cur != LIST_NEXT(cur, tl)'')
      | Some l \<Rightarrow> block [
          mdf (set_timer_list (\<lambda>_. l)),
          mdf (upd_tw to_insert (on_timerlist_update (\<lambda>_. True)))]),
     whn (\<lambda>s. hd (cur_timer_list s) = to_insert) (thn (timerfd_reprogram_valid None) (ret ())),
     unlock_timers]"

text \<open>The second component is what \<^verbatim>\<open>*ts\<close> holds when the first is false.\<close>

definition waiting_done :: "twid \<Rightarrow> (bool \<times> timespec option) tcop" where
  "waiting_done tw = ifm (\<lambda>s. \<not> on_timerlist (timers s tw)) (ret (True, None))
     (bnd clock_gettime (\<lambda>ts. gets (\<lambda>s. (compare_ts_times ts (abs_end (timers s tw)) \<ge> 0, Some ts))))"

section \<open>Sleeping\<close>

text \<open>Waking those whose time has come: the loop under the lock, and the whole critical section.\<close>

fun expire_loop :: "timespec \<Rightarrow> twid list \<Rightarrow> unit tcop" where
  "expire_loop ts [] = ret ()"
| "expire_loop ts (two # ws) = ifm (\<lambda>s. compare_ts_times ts (abs_end (timers s two)) < 0) (ret ())
     (block [
        assertm ''two != two2'' (\<lambda>_. ws = [] \<or> hd ws \<noteq> two),
        mdf (set_timer_list (remove1 two)),
        mdf (upd_tw two (on_timerlist_update (\<lambda>_. False))),
        tc_waitq_wakeup_all (Timer_wq two),
        expire_loop ts ws])"

definition expire_timers :: "unit tcop" where
  "expire_timers = block [
     lock_timers,
     bnd clock_gettime (\<lambda>ts. rdm (\<lambda>s. expire_loop ts (cur_timer_list s))),
     unlock_timers]"

text \<open>The loop of the master, at most \<open>k\<close> rounds; \<open>e\<close> is the local event of \<^verbatim>\<open>tc_wait_fd\<close>.\<close>

fun sleep_master :: "nat \<Rightarrow> eid \<Rightarrow> twid \<Rightarrow> tc_rv bop" where
  "sleep_master 0 e tw = throw Out_of_fuel"
| "sleep_master (Suc k) e tw = bnd (lift (waiting_done tw)) (\<lambda>(fin, ts).
     if fin then ret RV_OK
     else bnd (lift (thn lock_timers (bnd (timerfd_reprogram_valid ts) (\<lambda>v. thn unlock_timers (ret v))))) (\<lambda>v.
       if v then rds (\<lambda>s. let tcfd = timer_tcfd (cur_domain s) in
         bnd (tc_wait_fd e EPOLLIN tcfd) (\<lambda>rv.
           if rv \<noteq> RV_OK then ret rv
           else thn (block [lift (rdm (\<lambda>s. sys_ignore (Timerfd_read (fd_fd (fds s tcfd))))), lift expire_timers]) (sleep_master k e tw)))
       else thn (lift expire_timers) (sleep_master k e tw)))"

text \<open>\<open>hl\<close> and \<open>wd\<close> are the local variables \<^verbatim>\<open>have_lock\<close> and \<^verbatim>\<open>wait_done\<close>, which the condition of the wait assigns.\<close>

definition set_local :: "nat \<Rightarrow> bool \<Rightarrow> tcr \<Rightarrow> tcr" where
  "set_local v b s = s\<lparr>vars := (vars s)(Local v := (if b then 1 else 0))\<rparr>"

definition get_local :: "nat \<Rightarrow> tcr \<Rightarrow> bool" where
  "get_local v s \<longleftrightarrow> vars s (Local v) \<noteq> 0"

definition sleep_cond :: "nat \<Rightarrow> nat \<Rightarrow> twid \<Rightarrow> bool tcop" where
  "sleep_cond hl wd tw = bnd (waiting_done tw) (\<lambda>(fin, _). thn (block [
     mdf (set_local wd fin),
     (if fin then ret () else bnd (rdm (\<lambda>s. tc_mutex_trylock (Timer_mutex (this_domain s)))) (\<lambda>r. mdf (set_local hl (r = RV_OK))))])
     (gets (\<lambda>s. get_local wd s \<or> get_local hl s)))"

definition sleep_quit :: "nat \<Rightarrow> twid \<Rightarrow> tc_rv \<Rightarrow> tc_rv tcop" where
  "sleep_quit hl tw rv = thn (block [
     whn (get_local hl) (rdm (\<lambda>s. tc_mutex_unlock (Timer_mutex (this_domain s)))),
     remove_from_timer_list_wakeup tw,
     mdf (\<lambda>s. upd_dom (this_domain s) (timer_sleepers_update (\<lambda>n. n - 1)) s)]) (ret rv)"

definition CLOCK_MONOTONIC :: int where "CLOCK_MONOTONIC = 1"

definition sleep_begin :: "nat \<Rightarrow> nat \<Rightarrow> twid \<Rightarrow> int \<Rightarrow> int \<Rightarrow> int \<Rightarrow> unit tcop" where
  "sleep_begin hl wd tw clockid sec nsec = block [
     assertm ''clockid == CLOCK_MONOTONIC'' (\<lambda>_. clockid = CLOCK_MONOTONIC),
     mdf (set_local hl False),
     mdf (set_local wd False),
     bnd clock_gettime (\<lambda>now. mdf (upd_tw tw (abs_end_update (\<lambda>_. sleep_end now sec nsec)))),
     rdm (\<lambda>s. mdf (upd_tw tw (\<lambda>t. t\<lparr>tw_tc := tc_current s, on_timerlist := False\<rparr>))),
     mdf (tc_waitq_init (Timer_wq tw)),
     mdf (\<lambda>s. upd_dom (this_domain s) (timer_sleepers_update (\<lambda>n. n + 1)) s)]"

text \<open>\<open>k\<close> and \<open>n\<close> bound the rounds of the master and of the wait; \<open>e\<close> is the event of the waits, one after the other, of this call.\<close>

definition tc_sleep :: "nat \<Rightarrow> nat \<Rightarrow> eid \<Rightarrow> nat \<Rightarrow> nat \<Rightarrow> twid \<Rightarrow> int \<Rightarrow> int \<Rightarrow> int \<Rightarrow> tc_rv bop" where
  "tc_sleep k n e hl wd tw clockid sec nsec = thn (lift (sleep_begin hl wd tw clockid sec nsec))
     (bnd (tc_sched_yield e) (\<lambda>rv.
        if rv \<noteq> RV_OK then lift (sleep_quit hl tw rv)
        else thn (lift (block [insert_into_timer_list tw, mdf (set_local hl False), mdf (set_local wd False)]))
          (bnd (tc_wait_event n (Timer_wq tw) e (sleep_cond hl wd tw)) (\<lambda>rv.
             rds (\<lambda>s. if rv \<noteq> RV_OK \<or> get_local wd s then lift (sleep_quit hl tw rv)
               else thn (lift (assertm ''have_lock'' (get_local hl)))
                 (bnd (sleep_master k e tw) (\<lambda>rv. lift (sleep_quit hl tw rv))))))))"

section \<open>Arithmetic on times\<close>

text \<open>A time in nanoseconds.\<close>

definition ns :: "timespec \<Rightarrow> int" where
  "ns t = tv_sec t * 1000000000 + tv_nsec t"

text \<open>What the comparison compares.\<close>

definition ts_key :: "timespec \<Rightarrow> int \<times> int" where
  "ts_key t = (tv_sec t, tv_nsec t)"

lemma compare_key:
  "compare_ts_times a b < 0 \<longleftrightarrow> ts_key a < ts_key b" "0 \<le> compare_ts_times a b \<longleftrightarrow> ts_key b \<le> ts_key a"
  by (auto simp: compare_ts_times_def ts_key_def)

lemma borrow_correct:
  "ns (borrow t) = ns t \<and> 0 \<le> tv_nsec (borrow t) \<and> (tv_nsec t \<le> 1000000000 \<longrightarrow> tv_nsec (borrow t) \<le> 1000000000) \<and>
    (tv_nsec t < 1000000000 \<longrightarrow> tv_nsec (borrow t) < 1000000000)"
proof (induction t rule: borrow.induct)
  case (1 t)
  show ?case
  proof (cases "tv_nsec t < 0")
    case True
    then show ?thesis using "1.IH" by (subst (1 2 3 4) borrow.simps) (auto simp: ns_def)
  next
    case False
    then show ?thesis by (simp add: borrow.simps [of t])
  qed
qed

lemma carry_correct:
  "ns (carry t) = ns t \<and> tv_nsec (carry t) \<le> 1000000000 \<and> (0 \<le> tv_nsec t \<longrightarrow> 0 \<le> tv_nsec (carry t)) \<and>
    (tv_nsec t > 0 \<longrightarrow> tv_nsec (carry t) > 0)"
proof (induction t rule: carry.induct)
  case (1 t)
  show ?case
  proof (cases "tv_nsec t > 1000000000")
    case True
    then show ?thesis using "1.IH" by (subst (1 2 3 4) carry.simps) (auto simp: ns_def)
  next
    case False
    then show ?thesis by (simp add: carry.simps [of t])
  qed
qed



section \<open>The list is sorted\<close>

text \<open>A reference for the insertion: behind everything that is not later.\<close>

definition insert_after :: "('a \<Rightarrow> 'k::linorder) \<Rightarrow> 'a \<Rightarrow> 'a list \<Rightarrow> 'a list" where
  "insert_after key w l = takeWhile (\<lambda>c. key c \<le> key w) l @ w # dropWhile (\<lambda>c. key c \<le> key w) l"

lemma timer_walk_eq:
  "distinct l \<Longrightarrow> timer_walk f w l = Some (insert_after (\<lambda>w. ts_key (f w)) w l)"
proof (induction l)
  case (Cons c cs)
  then show ?case by (cases cs) (auto simp: insert_after_def compare_key)
qed (simp add: insert_after_def)

lemma mset_insert_after [simp]: "mset (insert_after key w l) = add_mset w (mset l)"
  by (simp add: insert_after_def) (metis mset_append takeWhile_dropWhile_id)

lemma set_insert_after [simp]: "set (insert_after key w l) = insert w (set l)"
  by (metis mset_insert_after set_mset_add_mset_insert set_mset_mset)

lemma distinct_insert_after: "distinct l \<Longrightarrow> w \<notin> set l \<Longrightarrow> distinct (insert_after key w l)"
  by (metis mset_insert_after distinct.simps(2) mset.simps(2) mset_eq_imp_distinct_iff)

lemma sorted_insert_after:
  "sorted (map key l) \<Longrightarrow> sorted (map key (insert_after key w l))"
proof (induction l)
  case (Cons c cs)
  then show ?case by (cases "key c \<le> key w") (auto simp: insert_after_def dest: set_takeWhileD set_dropWhileD)
qed (simp add: insert_after_def)

lemma filter_insert_after:
  assumes "sorted (map key l)"
  shows "filter (\<lambda>x. k = key x) (insert_after key w l) = filter (\<lambda>x. k = key x) (l @ [w])"
  using assms
proof (induction l)
  case (Cons c cs)
  show ?case
  proof (cases "key c \<le> key w")
    case True
    then show ?thesis using Cons by (auto simp: insert_after_def)
  next
    case False
    then have "filter (\<lambda>x. key w = key x) (c # cs) = []" using Cons.prems by (auto simp: filter_empty_conv)
    then show ?thesis using False by (auto simp: insert_after_def)
  qed
qed (simp add: insert_after_def)

lemma insert_after_sort: "insert_after key w (sort_key key ws) = sort_key key (ws @ [w])"
proof (rule properties_for_sort_key [symmetric])
  fix k
  have "filter (\<lambda>x. key k = key x) (insert_after key w (sort_key key ws)) = filter (\<lambda>x. key k = key x) (sort_key key ws @ [w])"
    by (rule filter_insert_after) simp
  then show "filter (\<lambda>x. key k = key x) (insert_after key w (sort_key key ws)) = filter (\<lambda>x. key k = key x) (ws @ [w])"
    using sort_key_stable [of key "key k" ws] by (simp add: eq_commute)
qed (simp_all add: sorted_insert_after)

text \<open>C29: Inserting sleepers one after the other into an empty timer list is a stable sort by the end of their sleep, whatever the
  times are; the assertion in the loop never fails.\<close>

theorem timer_list_sorts:
  assumes "distinct ws"
  shows "foldl (\<lambda>l w. Option.bind l (timer_walk f w)) (Some []) ws = Some (sort_key (\<lambda>w. ts_key (f w)) ws)"
  using assms
proof (induction ws rule: rev_induct)
  case (snoc w ws)
  then show ?case by (simp add: timer_walk_eq insert_after_sort)
qed simp

theorem timer_list_sorts_witness:
  "foldl (\<lambda>l w. Option.bind l (timer_walk (\<lambda>w. \<lparr>tv_sec = int w mod 3, tv_nsec = 5\<rparr>) w)) (Some []) [1, 2, 3, 4] = Some [3, 1, 4, 2 :: nat]"
  using timer_list_sorts [of "[1, 2, 3, 4]" "\<lambda>w. \<lparr>tv_sec = int w mod 3, tv_nsec = 5\<rparr>"] by (simp add: ts_key_def)

section \<open>Programming the timer\<close>

definition timers_sorted :: "did \<Rightarrow> tcr \<Rightarrow> bool" where
  "timers_sorted d s \<longleftrightarrow> distinct (timer_list (doms s d)) \<and> sorted (map (\<lambda>w. ts_key (abs_end (timers s w))) (timer_list (doms s d))) \<and>
     (\<forall>w \<in> set (timer_list (doms s d)). on_timerlist (timers s w))"

text \<open>The calls that program the timer for a waiter, when the time is \<open>now\<close>.\<close>

definition program_calls :: "tcr \<Rightarrow> twid \<Rightarrow> timespec \<Rightarrow> syscall list" where
  "program_calls s w now = (case timer_delta (abs_end (timers s w)) now of (passed, delta) \<Rightarrow>
     if passed then []
     else [Timerfd_settime (fd_fd (fds s (timer_tcfd (cur_domain s)))) (tv_sec delta > 0)
       (if tv_sec delta > 0 then abs_end (timers s w) else delta)])"

lemma reprogram_eq:
  assumes "cur_timer_list s = w # l" and "\<And>n. sysres s n = 0"
  shows "timerfd_reprogram_valid (Some now) s =
      Inr (program_calls s w now \<noteq> [], s\<lparr>syslog := syslog s @ program_calls s w now\<rparr>)"
    and "timerfd_reprogram_valid None s = (let now = sysclk s (length (syslog s)) in
      Inr (program_calls s w now \<noteq> [], s\<lparr>syslog := syslog s @ Clock_gettime # program_calls s w now\<rparr>))"
  using assms by (simp_all add: timerfd_reprogram_valid_def op_defs program_calls_def Let_def split: prod.splits)

text \<open>\<^verbatim>\<open>insert_into_timer_list\<close> puts the sleeper behind all that do not end later and keeps the list sorted; it looks at the clock and
  programs the timer exactly when the sleeper is the new first one and its time has not come, with an absolute time when it is at
  least a second away and a relative one otherwise; all other fields of the process are as before.\<close>

lemma insert_timer_correct:
  assumes "timers_sorted (this_domain s) s" and "w \<notin> set (cur_timer_list s)" and "free_lock s (L_timer (this_domain s))"
    and "\<And>n. sysres s n = 0"
    and l_def: "l = insert_after (\<lambda>w. ts_key (abs_end (timers s w))) w (cur_timer_list s)"
  shows "insert_into_timer_list w s = Inr ((), (upd_tw w (on_timerlist_update (\<lambda>_. True)) (set_timer_list (\<lambda>_. l) s))
      \<lparr>syslog := syslog s @ (if hd l = w then Clock_gettime # program_calls s w (sysclk s (length (syslog s))) else [])\<rparr>) \<and>
    timers_sorted (this_domain s) (upd_tw w (on_timerlist_update (\<lambda>_. True)) (set_timer_list (\<lambda>_. l) s))" (is "?A \<and> ?B")
proof
  let ?s1 = "upd_tw w (on_timerlist_update (\<lambda>_. True)) (set_timer_list (\<lambda>_. l) s)"
  let ?k = "(locks s)(L_timer (this_domain s) := Some (this_worker s))"
  have d: "distinct (cur_timer_list s)" "sorted (map (\<lambda>w. ts_key (abs_end (timers s w))) (cur_timer_list s))"
    "\<forall>w \<in> set (cur_timer_list s). on_timerlist (timers s w)"
    using assms(1) by (simp_all add: timers_sorted_def)
  have walk: "timer_walk (\<lambda>w. abs_end (timers s w)) w (cur_timer_list s) = Some l"
    using timer_walk_eq [OF d(1), of "\<lambda>w. abs_end (timers s w)" w] by (simp add: l_def)
  have ends: "abs_end (timers ?s1 x) = abs_end (timers s x)" for x by (simp add: upd_defs)
  have l: "cur_timer_list (?s1\<lparr>locks := ?k\<rparr>) = l" by (simp add: upd_defs)
  have "l \<noteq> []" by (simp add: l_def insert_after_def)
  then obtain x l' where xl: "l = x # l'" by (cases l) auto
  have pc: "program_calls (?s1\<lparr>locks := ?k\<rparr>) w = program_calls s w" by (simp add: program_calls_def upd_defs fun_eq_iff split: prod.splits)
  have r: "timerfd_reprogram_valid None (?s1\<lparr>locks := ?k\<rparr>) = (let now = sysclk s (length (syslog s)) in
      Inr (program_calls s w now \<noteq> [], ?s1\<lparr>locks := ?k, syslog := syslog s @ Clock_gettime # program_calls s w now\<rparr>))" if "x = w"
    using reprogram_eq(2) [of "?s1\<lparr>locks := ?k\<rparr>" w l'] l xl that assms(4) pc by (simp add: Let_def upd_defs)
  have comm: "set_timer_list g (u\<lparr>locks := k\<rparr>) = (set_timer_list g u)\<lparr>locks := k\<rparr>"
    "upd_tw v h (u\<lparr>locks := k\<rparr>) = (upd_tw v h u)\<lparr>locks := k\<rparr>"
    "locks ?s1 = locks s" "this_domain ?s1 = this_domain s" "syslog ?s1 = syslog s" "sysclk ?s1 = sysclk s"
    "timer_list (doms ?s1 (this_domain s)) = l" for g u k v h
    by (simp_all add: upd_defs)
  have k: "(locks s)(L_timer (this_domain s) := None) = locks s" using assms(3) by (simp add: free_lock_def fun_upd_idem)
  have "insert_into_timer_list w s = block [whn (\<lambda>s. hd (cur_timer_list s) = w) (thn (timerfd_reprogram_valid None) (ret ())), unlock_timers]
      (?s1\<lparr>locks := ?k\<rparr>)"
    using assms(3) walk by (simp add: insert_into_timer_list_def op_defs comm free_lock_def)
  also have "\<dots> = Inr ((), ?s1\<lparr>locks := locks s,
      syslog := syslog s @ (if x = w then Clock_gettime # program_calls s w (sysclk s (length (syslog s))) else [])\<rparr>)"
    using r k comm(3-7) xl by (cases "x = w") (simp_all add: op_defs Let_def)
  finally show ?A using comm(3) xl by simp
  show ?B
    unfolding timers_sorted_def ends using d assms(2)
    by (auto simp: upd_defs l_def distinct_insert_after sorted_insert_after)
qed

lemma insert_timer_correct_witness:
  "insert_into_timer_list 7 (process_image\<lparr>timers := (\<lambda>_. \<lparr>abs_end = \<lparr>tv_sec = 5, tv_nsec = 3\<rparr>, tw_tc = 0, on_timerlist = False\<rparr>)\<rparr>) =
    Inr ((), (upd_tw 7 (on_timerlist_update (\<lambda>_. True)) (set_timer_list (\<lambda>_. [7])
      (process_image\<lparr>timers := (\<lambda>_. \<lparr>abs_end = \<lparr>tv_sec = 5, tv_nsec = 3\<rparr>, tw_tc = 0, on_timerlist = False\<rparr>)\<rparr>)))
      \<lparr>syslog := [Clock_gettime, Timerfd_settime 0 True \<lparr>tv_sec = 5, tv_nsec = 3\<rparr>]\<rparr>)"
proof -
  let ?s = "process_image\<lparr>timers := (\<lambda>_. \<lparr>abs_end = \<lparr>tv_sec = 5, tv_nsec = 3\<rparr>, tw_tc = 0, on_timerlist = False\<rparr>)\<rparr>"
  have "sysclk ?s n = \<lparr>tv_sec = 0, tv_nsec = 0\<rparr>" for n by (simp add: process_image_def)
  then have "program_calls ?s 7 (sysclk ?s (length (syslog ?s))) = [Timerfd_settime 0 True \<lparr>tv_sec = 5, tv_nsec = 3\<rparr>]"
    by (simp add: program_calls_def timer_delta_def borrow.simps Let_def)
  then show ?thesis
    using insert_timer_correct [of ?s 7 "[7]"] by (simp add: timers_sorted_def free_lock_def insert_after_def)
qed

section \<open>Waking the sleepers\<close>

text \<open>What \<^verbatim>\<open>tc_waitq_wakeup_all\<close> leaves alone.\<close>

definition wake_frame :: "tcr \<Rightarrow> tcr \<Rightarrow> bool" where
  "wake_frame s0 s \<longleftrightarrow> timers s = timers s0 \<and> doms s = doms s0 \<and> sysres s = sysres s0 \<and> this_domain s = this_domain s0 \<and>
     this_worker s = this_worker s0 \<and> fds s = fds s0 \<and> m_owner s = m_owner s0 \<and> freed s = freed s0 \<and> cr_current s = cr_current s0 \<and>
     (\<forall>t. tc_e (thr s t) = tc_e (thr s0 t))"

lemma wakeup_all_frame: "tc_waitq_wakeup_all wq s = Inr (x, s') \<Longrightarrow> wake_frame s s'"
proof -
  have iwi: "preserves (wake_frame s) (u_iwi_immediate d)" for d
    unfolding u_iwi_immediate_def
    by (intro preserves_intros) (clarsimp simp: preserves_def op_defs wake_frame_def)+
  have lk: "preserves (wake_frame s) (spin_lock k)" "preserves (wake_frame s) (spin_unlock k)" for k
    by (clarsimp simp: preserves_def op_defs wake_frame_def split: option.splits if_splits)+
  have body: "preserves (wake_frame s) (wakeup_all_body wq e al)" for e al
    unfolding wakeup_all_body_def Let_def set_el_def atomic_inc_immediate_def
    by (intro preserves_rdm preserves_thn preserves_block preserves_ret)
      (auto intro!: preserves_mdf preserves_whn preserves_rdm iwi simp: wake_frame_def upd_defs)
  have loop: "preserves (wake_frame s) (wakeup_all_loop wq es al)" for es al
  proof (induction es arbitrary: al)
    case Nil
    show ?case by (auto simp: preserves_def op_defs)
  next
    case (Cons e es)
    then show ?case by (simp add: preserves_bnd [OF body])
  qed
  have "preserves (wake_frame s) (tc_waitq_wakeup_all wq)"
    unfolding tc_waitq_wakeup_all_def
  proof (rule preserves_bnd)
    show "preserves (wake_frame s) (thn (block [spin_lock (L_list Immediate), spin_lock (L_list (Waiters wq))])
        (rdm (\<lambda>s. wakeup_all_loop wq (evl s (Waiters wq)) [])))"
      by (intro preserves_thn preserves_rdm loop preserves_block) (auto intro: lk)
    show "preserves (wake_frame s) (block [spin_unlock (L_list (Waiters wq)), spin_unlock (L_list Immediate), formap u_iwi_immediate al])" for al
      by (rule preserves_block) (auto intro: preserves_formap iwi lk)
  qed
  moreover assume "tc_waitq_wakeup_all wq s = Inr (x, s')"
  moreover have "wake_frame s s" by (simp add: wake_frame_def)
  ultimately show ?thesis by (blast dest: preservesD)
qed

definition due :: "tcr \<Rightarrow> timespec \<Rightarrow> twid \<Rightarrow> bool" where
  "due s now w \<longleftrightarrow> ts_key (abs_end (timers s w)) \<le> ts_key now"

text \<open>The state of a timer list from which the sleepers \<open>ws\<close> have been removed and woken.\<close>

definition woken_up :: "twid list \<Rightarrow> tcr \<Rightarrow> tcr \<Rightarrow> bool" where
  "woken_up ws s s' \<longleftrightarrow> wf_ev s' \<and> locks s' = locks s \<and> this_domain s' = this_domain s \<and>
     (\<forall>w. timers s' w = (if w \<in> set ws then (timers s w)\<lparr>on_timerlist := False\<rparr> else timers s w)) \<and>
     set (evl s' Immediate) = set (evl s Immediate) \<union> (\<Union>w \<in> set ws. set (evl s (Waiters (Timer_wq w)))) \<and>
     (\<forall>q. q \<noteq> Immediate \<longrightarrow> evl s' q = (if q \<in> (\<lambda>w. Waiters (Timer_wq w)) ` set ws then [] else evl s q))"

lemma woken_up_Cons:
  assumes w: "wake_frame s1 s2" "wf_ev s2" "locks s2 = locks s1"
      "evl s2 = (evl s1)(Waiters (Timer_wq w) := [], Immediate := rev (evl s1 (Waiters (Timer_wq w))) @ evl s1 Immediate)"
    and s1: "s1 = upd_tw w (on_timerlist_update (\<lambda>_. False)) (set_timer_list g s)"
    and r: "woken_up ws s2 s'"
  shows "woken_up (w # ws) s s'"
proof -
  have e: "evl s1 = evl s" "locks s1 = locks s" "this_domain s1 = this_domain s"
    "timers s1 x = (if x = w then (timers s w)\<lparr>on_timerlist := False\<rparr> else timers s x)" for x
    by (simp_all add: s1 upd_defs)
  have f: "timers s2 = timers s1" "this_domain s2 = this_domain s1" using w(1) by (simp_all add: wake_frame_def)
  show ?thesis
    using r w(3,4) e f unfolding woken_up_def by (auto split: if_splits)
qed

lemma expire_loop_result:
  assumes "wf_ev s" and "lists_unlocked s" and "eventfd_ok s" and "distinct l" and "cur_timer_list s = l"
  shows "\<exists>s'. expire_loop now l s = Inr ((), s') \<and> woken_up (takeWhile (due s now) l) s s' \<and>
    cur_timer_list s' = dropWhile (due s now) l"
  using assms
proof (induction l arbitrary: s)
  case Nil
  then show ?case by (auto simp: op_defs woken_up_def)
next
  case (Cons w ws)
  show ?case
  proof (cases "due s now w")
    case False
    then have "compare_ts_times now (abs_end (timers s w)) < 0" by (simp add: due_def compare_key)
    then show ?thesis using False Cons.prems by (auto simp: op_defs woken_up_def)
  next
    case True
    let ?s1 = "upd_tw w (on_timerlist_update (\<lambda>_. False)) (set_timer_list (remove1 w) s)"
    have c: "\<not> compare_ts_times now (abs_end (timers s w)) < 0" using True by (simp add: due_def compare_key)
    have 1: "wf_ev ?s1" "lists_unlocked ?s1" "eventfd_ok ?s1" "evl ?s1 = evl s" "cur_timer_list ?s1 = ws"
      using Cons.prems by (simp_all add: upd_defs lists_unlocked_def eventfd_ok_def)
    obtain s2 where 2: "tc_waitq_wakeup_all (Timer_wq w) ?s1 = Inr ((), s2)" "wf_ev s2" "locks s2 = locks ?s1"
      "evl s2 = (evl ?s1)(Waiters (Timer_wq w) := [], Immediate := rev (evl ?s1 (Waiters (Timer_wq w))) @ evl ?s1 Immediate)"
      by (rule wakeup_all_result [OF 1(1) _ _ 1(3), of "Timer_wq w"])
        (use 1(2) that in \<open>auto simp: lists_unlocked_def free_lock_def\<close>)
    have fr: "wake_frame ?s1 s2" by (rule wakeup_all_frame [OF 2(1)])
    then have s2: "lists_unlocked s2" "eventfd_ok s2" "cur_timer_list s2 = ws"
      using 1(2,3,5) 2(3) by (simp_all add: lists_unlocked_def eventfd_ok_def wake_frame_def)
    have d: "due s2 now = due s now" using fr by (auto simp: due_def wake_frame_def upd_defs fun_eq_iff)
    obtain s' where 3: "expire_loop now ws s2 = Inr ((), s')" "woken_up (takeWhile (due s now) ws) s2 s'"
      "cur_timer_list s' = dropWhile (due s now) ws"
      using Cons.IH [OF 2(2) s2(1,2) _ s2(3)] Cons.prems(4) unfolding d by auto
    have "expire_loop now (w # ws) s = Inr ((), s')"
      using c 2(1) 3(1) Cons.prems(4) by (cases ws) (auto simp: op_defs)
    moreover have "woken_up (w # takeWhile (due s now) ws) s s'" by (rule woken_up_Cons [OF fr 2(2-4) refl 3(2)])
    ultimately show ?thesis using True 3(3) by simp
  qed
qed

lemma sorted_takeWhile_filter:
  "sorted (map key l) \<Longrightarrow> takeWhile (\<lambda>w. key w \<le> k) l = filter (\<lambda>w. key w \<le> k) l \<and>
    dropWhile (\<lambda>w. key w \<le> k) l = filter (\<lambda>w. \<not> key w \<le> k) l"
proof (induction l)
  case (Cons c cs)
  show ?case
  proof (cases "key c \<le> k")
    case True
    then show ?thesis using Cons by simp
  next
    case False
    then have "\<forall>x \<in> set cs. \<not> key x \<le> k" using Cons.prems by fastforce
    then show ?thesis using False by (simp add: filter_empty_conv filter_id_conv)
  qed
qed simp

text \<open>One round of the master removes and wakes exactly the sleepers whose time has come, at the time it reads inside the critical section:
  every event that waited on their queues is on the immediate list, no other queue changes, the others stay
  on the list in their order, and the list stays sorted.\<close>

lemma expire_timers_correct:
  assumes "timers_sorted (this_domain s) s" and "wf_ev s" and "lists_unlocked s" and "eventfd_ok s"
    and "free_lock s (L_timer (this_domain s))" and now: "now = sysclk s (length (syslog s))"
  shows "\<exists>s'. expire_timers s = Inr ((), s') \<and> woken_up (filter (due s now) (cur_timer_list s)) s s' \<and>
    cur_timer_list s' = filter (\<lambda>w. \<not> due s now w) (cur_timer_list s) \<and> timers_sorted (this_domain s') s'"
proof -
  let ?k = "(locks s)(L_timer (this_domain s) := Some (this_worker s))"
  let ?s = "s\<lparr>locks := ?k, syslog := syslog s @ [Clock_gettime]\<rparr>" and ?l = "cur_timer_list s"
  have l: "distinct ?l" "sorted (map (\<lambda>w. ts_key (abs_end (timers s w))) ?l)" "\<forall>w \<in> set ?l. on_timerlist (timers s w)"
    using assms(1) by (simp_all add: timers_sorted_def)
  have "wf_ev ?s" "lists_unlocked ?s" "eventfd_ok ?s" using assms(2-4) by (simp_all add: lists_unlocked_def eventfd_ok_def)
  moreover have d: "due ?s now = due s now" by (simp add: due_def fun_eq_iff)
  ultimately obtain s1 where 1: "expire_loop now ?l ?s = Inr ((), s1)" "woken_up (takeWhile (due s now) ?l) ?s s1"
    "cur_timer_list s1 = dropWhile (due s now) ?l"
    using expire_loop_result [of ?s ?l now] l(1) by auto
  have tw: "takeWhile (due s now) ?l = filter (due s now) ?l" "dropWhile (due s now) ?l = filter (\<lambda>w. \<not> due s now w) ?l"
    using sorted_takeWhile_filter [OF l(2), of "ts_key now"] by (simp_all add: due_def [abs_def])
  let ?s' = "s1\<lparr>locks := locks s\<rparr>"
  have w1: "locks s1 = ?k" "this_domain s1 = this_domain s" using 1(2) by (simp_all add: woken_up_def)
  then have "expire_timers s = Inr ((), ?s')"
    using 1(1) assms(5) now by (simp add: expire_timers_def op_defs free_lock_def fun_upd_idem)
  moreover have "woken_up (filter (due s now) ?l) s ?s'"
    using 1(2) unfolding tw by (simp add: woken_up_def)
  moreover have "timers_sorted (this_domain ?s') ?s'"
  proof -
    have t: "timers s1 w = timers s w" if "w \<in> set (filter (\<lambda>w. \<not> due s now w) ?l)" for w
      using 1(2) that unfolding tw by (simp add: woken_up_def)
    then have m: "map (\<lambda>w. ts_key (abs_end (timers s1 w))) (filter (\<lambda>w. \<not> due s now w) ?l) =
        map (\<lambda>w. ts_key (abs_end (timers s w))) (filter (\<lambda>w. \<not> due s now w) ?l)" by simp
    have "sorted (map (\<lambda>w. ts_key (abs_end (timers s1 w))) (filter (\<lambda>w. \<not> due s now w) ?l))"
      unfolding m using l(2) by (rule sorted_filter)
    then show ?thesis using t l 1(3) tw(2) w1(2) by (simp add: timers_sorted_def)
  qed
  ultimately show ?thesis using 1(3) tw(2) w1(2) by auto
qed

lemma expire_timers_correct_witness:
  "\<exists>s'. expire_timers (process_image\<lparr>sysres := (\<lambda>_. 8), timers := (\<lambda>w. \<lparr>abs_end = \<lparr>tv_sec = int w, tv_nsec = 0\<rparr>, tw_tc = 0, on_timerlist = True\<rparr>),
      doms := (\<lambda>_. zero_domain\<lparr>timer_list := [0, 7]\<rparr>)\<rparr>) = Inr ((), s') \<and> cur_timer_list s' = [7]"
proof -
  let ?s = "process_image\<lparr>sysres := (\<lambda>_. 8), timers := (\<lambda>w. \<lparr>abs_end = \<lparr>tv_sec = int w, tv_nsec = 0\<rparr>, tw_tc = 0, on_timerlist = True\<rparr>),
      doms := (\<lambda>_. zero_domain\<lparr>timer_list := [0, 7]\<rparr>)\<rparr>"
  have "timers_sorted (this_domain ?s) ?s" "wf_ev ?s" "lists_unlocked ?s" "eventfd_ok ?s" "free_lock ?s (L_timer (this_domain ?s))"
    "sysclk ?s (length (syslog ?s)) = \<lparr>tv_sec = 0, tv_nsec = 0\<rparr>"
    by (simp_all add: timers_sorted_def ts_key_def wf_ev_def refs_def lists_unlocked_def eventfd_ok_def SIZEOF_EVENTFD_def free_lock_def)
      (simp add: process_image_def)
  then show ?thesis using expire_timers_correct [of ?s "\<lparr>tv_sec = 0, tv_nsec = 0\<rparr>"] by (auto simp: due_def ts_key_def)
qed

section \<open>Leaving the sleep\<close>

text \<open>The timer list without one sleeper.\<close>

definition without :: "twid \<Rightarrow> tcr \<Rightarrow> twid list" where
  "without tw s = (if on_timerlist (timers s tw) then remove1 tw (cur_timer_list s) else cur_timer_list s)"

lemma timer_list_update_eq: "timer_list_update f x = x\<lparr>timer_list := f (timer_list x)\<rparr>"
  by (rule tc_domain.equality) simp_all

lemma remove_timer_result:
  assumes "wf_ev s" and "lists_unlocked s" and "eventfd_ok s" and "free_lock s (L_timer (this_domain s))"
  obtains s' where "remove_from_timer_list_wakeup tw s = Inr ((), s')" and "wf_ev s'" and "locks s' = locks s"
    and "evl s' = (case without tw s of [] \<Rightarrow> evl s
      | w # _ \<Rightarrow> (evl s)(Waiters (Timer_wq w) := [], Immediate := rev (evl s (Waiters (Timer_wq w))) @ evl s Immediate))"
    and "doms s' = (doms s)(this_domain s := (cur_domain s)\<lparr>timer_list := without tw s\<rparr>)"
    and "timers s' = timers s" and "m_owner s' = m_owner s" and "this_domain s' = this_domain s"
proof -
  let ?k = "(locks s)(L_timer (this_domain s) := Some (this_worker s))"
  let ?u = "(set_timer_list (\<lambda>_. without tw s) s)\<lparr>locks := ?k\<rparr>"
  have 0: "set_timer_list (remove1 tw) (s\<lparr>locks := ?k\<rparr>) = ?u" if "on_timerlist (timers s tw)"
    using that by (simp add: upd_defs without_def) (subst timer_list_update_eq, simp)
  have 00: "s\<lparr>locks := ?k\<rparr> = ?u" if "\<not> on_timerlist (timers s tw)"
    using that by (simp add: upd_defs without_def)
  have u: "wf_ev ?u" "eventfd_ok ?u" "evl ?u = evl s" "cur_timer_list ?u = without tw s" "timers ?u = timers s" "m_owner ?u = m_owner s"
    "this_domain ?u = this_domain s" "doms ?u = (doms s)(this_domain s := (cur_domain s)\<lparr>timer_list := without tw s\<rparr>)"
    using assms(1,3) by (simp_all add: upd_defs eventfd_ok_def)
  have k: "?k(L_timer (this_domain s) := None) = locks s" using assms(4) by (simp add: free_lock_def fun_upd_idem)
  have tm: "timers (set_timer_list h x) = timers x" for h x by (simp add: upd_defs)
  have r: "remove_from_timer_list_wakeup tw s = block [rdm (\<lambda>s. case cur_timer_list s of [] \<Rightarrow> ret () | tw # _ \<Rightarrow> tc_waitq_wakeup_all (Timer_wq tw)), unlock_timers] ?u"
    using assms(4) 0 00 by (cases "on_timerlist (timers s tw)") (simp_all add: remove_from_timer_list_wakeup_def op_defs free_lock_def tm)
  show thesis
  proof (cases "without tw s")
    case Nil
    then have "remove_from_timer_list_wakeup tw s = Inr ((), ?u\<lparr>locks := locks s\<rparr>)"
      unfolding r using u(4,7) k by (simp add: op_defs)
    then show ?thesis by (rule that) (use u Nil in simp_all)
  next
    case (Cons w ws)
    obtain s2 where 2: "tc_waitq_wakeup_all (Timer_wq w) ?u = Inr ((), s2)" "wf_ev s2" "locks s2 = locks ?u"
      "evl s2 = (evl ?u)(Waiters (Timer_wq w) := [], Immediate := rev (evl ?u (Waiters (Timer_wq w))) @ evl ?u Immediate)"
      by (rule wakeup_all_result [OF u(1) _ _ u(2), of "Timer_wq w"])
        (use assms(2) that in \<open>auto simp: lists_unlocked_def free_lock_def upd_defs\<close>)
    have fr: "wake_frame ?u s2" by (rule wakeup_all_frame [OF 2(1)])
    have "remove_from_timer_list_wakeup tw s = Inr ((), s2\<lparr>locks := locks s\<rparr>)"
      unfolding r using u(4,7) k Cons 2(1,3) fr by (simp add: op_defs wake_frame_def)
    then show ?thesis by (rule that) (use u Cons 2 fr in \<open>simp_all add: wake_frame_def\<close>)
  qed
qed

text \<open>C37: Leaving \<^verbatim>\<open>tc_sleep\<close>, at the end of the time or when interrupted, as the master or not, at the label \<^verbatim>\<open>quit\<close>: the sleeper is off the timer list, which stays sorted, and is not counted any
  more; the next one on the list is woken whatever its time is, and when the leaving thread was the master, which watches the timer for all, the mutex is free, so that the
  one that was woken can become the master; nothing else is woken and no lock is kept.\<close>

theorem sleep_quit_hands_over:
  assumes "timers_sorted (this_domain s) s" and "wf_ev s" and "lists_unlocked s" and "eventfd_ok s" and "free_lock s (L_timer (this_domain s))"
    and "get_local hl s \<longrightarrow> m_owner s (Timer_mutex (this_domain s)) \<noteq> None \<and> evl s (Waiters (Mutex_wq (Timer_mutex (this_domain s)))) = []"
  shows "\<exists>s'. sleep_quit hl tw rv s = Inr (rv, s') \<and> cur_timer_list s' = without tw s \<and> timers_sorted (this_domain s) s' \<and>
    timer_sleepers (cur_domain s') = timer_sleepers (cur_domain s) - 1 \<and> this_domain s' = this_domain s \<and> locks s' = locks s \<and> wf_ev s' \<and>
    evl s' = (case without tw s of [] \<Rightarrow> evl s
      | w # _ \<Rightarrow> (evl s)(Waiters (Timer_wq w) := [], Immediate := rev (evl s (Waiters (Timer_wq w))) @ evl s Immediate)) \<and>
    (if get_local hl s then \<forall>v. \<exists>s''. tc_mutex_trylock (Timer_mutex (this_domain s)) (as_thread v s') = Inr (RV_OK, s'')
     else m_owner s' = m_owner s)"
proof -
  let ?m = "Timer_mutex (this_domain s)"
  define s1 where "s1 = (if get_local hl s then s\<lparr>m_owner := (m_owner s)(?m := None)\<rparr> else s)"
  have "wf_ev s1" "lists_unlocked s1" "eventfd_ok s1" "free_lock s1 (L_timer (this_domain s1))" and w: "without tw s1 = without tw s"
    using assms(2-5) by (simp_all add: s1_def lists_unlocked_def eventfd_ok_def free_lock_def without_def)
  note ok = this(1-4)
  obtain s2 where 2: "remove_from_timer_list_wakeup tw s1 = Inr ((), s2)" "wf_ev s2" "locks s2 = locks s1"
    "evl s2 = (case without tw s1 of [] \<Rightarrow> evl s1
      | w # _ \<Rightarrow> (evl s1)(Waiters (Timer_wq w) := [], Immediate := rev (evl s1 (Waiters (Timer_wq w))) @ evl s1 Immediate))"
    "doms s2 = (doms s1)(this_domain s1 := (cur_domain s1)\<lparr>timer_list := without tw s1\<rparr>)"
    "timers s2 = timers s1" "m_owner s2 = m_owner s1" "this_domain s2 = this_domain s1"
    by (rule remove_timer_result [OF ok, of tw])
  define s' where "s' = upd_dom (this_domain s2) (timer_sleepers_update (\<lambda>n. n - 1)) s2"
  have f: "evl s1 = evl s" "doms s1 = doms s" "timers s1 = timers s" "this_domain s1 = this_domain s" "locks s1 = locks s"
    by (simp_all add: s1_def)
  have "whn (get_local hl) (rdm (\<lambda>s. tc_mutex_unlock (Timer_mutex (this_domain s)))) s = Inr ((), s1)"
    using assms(3,6) wakeup_one_empty [of s "Mutex_wq ?m" "Some ?m"]
    by (auto simp: s1_def op_basic_defs tc_mutex_unlock_def free_lock_def lists_unlocked_def)
  with 2(1) have r: "sleep_quit hl tw rv s = Inr (rv, s')"
    by (simp add: sleep_quit_def s'_def thn_def bnd_def) (simp add: mdf_def ret_def)
  have s': "evl s' = evl s2" "timers s' = timers s2" "m_owner s' = m_owner s2" "locks s' = locks s2" "this_domain s' = this_domain s2"
    "cur_domain s' = (cur_domain s)\<lparr>timer_list := without tw s, timer_sleepers := timer_sleepers (cur_domain s) - 1\<rparr>"
    using 2(5,8) f w by (simp_all add: s'_def upd_defs)
  have "wf_ev s'" using 2(2) by (simp add: s'_def upd_defs)
  moreover have "timers_sorted (this_domain s) s'"
    using assms(1) s' 2(6,8) f
    by (auto simp: timers_sorted_def without_def sorted_map_remove1 notin_set_remove1 dest: in_set_remove1 set_remove1_subset [THEN subsetD])
  moreover have "m_owner s' = (if get_local hl s then (m_owner s)(?m := None) else m_owner s)"
    using s'(3) 2(7) by (simp add: s1_def)
  ultimately show ?thesis
    using r s' 2(3,8) 2(4) [unfolded w f(1)] f(4,5)
    by (intro exI [of _ s']) (simp add: tc_mutex_trylock_def cas_owner_def op_defs as_thread_def)
qed

text \<open>The master of two sleepers leaves; the other one, with event 5 on its queue, is woken.\<close>

definition two_sleepers :: tcr where
  "two_sleepers = (link 5 (Waiters (Timer_wq 7)) 1 (process_image\<lparr>sysres := (\<lambda>_. 8), m_owner := (\<lambda>_. Some 0), vars := (\<lambda>_. 1),
     timers := (\<lambda>w. \<lparr>abs_end = \<lparr>tv_sec = int w, tv_nsec = 0\<rparr>, tw_tc = 0, on_timerlist = True\<rparr>),
     doms := (\<lambda>_. zero_domain\<lparr>timer_list := [3, 7], timer_sleepers := 2\<rparr>)\<rparr>))"

theorem sleep_quit_hands_over_witness:
  "\<exists>s'. sleep_quit 0 3 RV_INTR two_sleepers = Inr (RV_INTR, s') \<and> cur_timer_list s' = [7] \<and> evl s' Immediate = [5] \<and>
     (\<exists>s''. tc_mutex_trylock (Timer_mutex 0) (as_thread 1 s') = Inr (RV_OK, s''))"
proof -
  let ?s = two_sleepers
  have "wf_ev (process_image\<lparr>sysres := (\<lambda>_. 8), m_owner := (\<lambda>_. Some 0), vars := (\<lambda>_. 1),
     timers := (\<lambda>w. \<lparr>abs_end = \<lparr>tv_sec = int w, tv_nsec = 0\<rparr>, tw_tc = 0, on_timerlist = True\<rparr>),
     doms := (\<lambda>_. zero_domain\<lparr>timer_list := [3, 7], timer_sleepers := 2\<rparr>)\<rparr>)" by (simp add: wf_ev_def refs_def)
  then have "wf_ev ?s" unfolding two_sleepers_def by (rule wf_ev_link) simp_all
  moreover have d: "this_domain ?s = 0" "timer_list (doms ?s 0) = [3, 7]" "evl ?s (Waiters (Timer_wq 7)) = [5]" "evl ?s Immediate = []"
    "on_timerlist (timers ?s w)" "abs_end (timers ?s w) = \<lparr>tv_sec = int w, tv_nsec = 0\<rparr>" "locks ?s = (\<lambda>_. None)" "sysres ?s = (\<lambda>_. 8)" "m_owner ?s m = Some 0" "get_local 0 ?s"
    "evl ?s (Waiters (Mutex_wq m)) = []" for w m
    by (simp_all add: two_sleepers_def link_def upd_defs get_local_def)
  moreover have "without 3 ?s = [7]" using d by (simp add: without_def)
  moreover have "timers_sorted 0 ?s" "lists_unlocked ?s" "eventfd_ok ?s"
    using d by (simp_all add: timers_sorted_def ts_key_def lists_unlocked_def eventfd_ok_def SIZEOF_EVENTFD_def)
  ultimately show ?thesis
    using sleep_quit_hands_over [of ?s 0 3 RV_INTR] by (auto simp: free_lock_def)
qed

end
