(* ===== verification/Timerfd_Emulation.thy ===== *)
theory Timerfd_Emulation
  imports Timer
begin

text \<open>
  The replacement for timer descriptors on systems without them (\<^verbatim>\<open>HAVE__RHEL5\<close>): \<^verbatim>\<open>timerfd_settime\<close> sends the new setting through a pair of sockets
  to a helper pthread, which waits in \<^verbatim>\<open>ppoll\<close> and writes one byte back when the time has come.

  The state is that of the helper and of the sockets; \<open>emu_round\<close> is one round of the loop of \<^verbatim>\<open>_timerfd_pthread\<close>, with the results of \<^verbatim>\<open>ppoll\<close> and \<^verbatim>\<open>write\<close> and
  the time \<^verbatim>\<open>clock_gettime\<close> stores as parameters. Its \<^verbatim>\<open>_worker_initialize(0, -1)\<close> is \<open>u_worker_initialize\<close> of theory \<open>Domains\<close>.
\<close>

unbundle bit_operations_syntax

section \<open>State and operations\<close>

record itimerspec =
  it_interval :: timespec
  it_value :: timespec

definition TFD_TIMER_ABSTIME :: int where "TFD_TIMER_ABSTIME = 1"

record emu =
  emu_invalid :: bool
  emu_delta :: timespec
  emu_in :: "itimerspec list"   \<comment> \<open>settings on their way to the helper\<close>
  emu_out :: nat                \<comment> \<open>bytes written by the helper\<close>

datatype emu_result = Round emu | Blocks | Aborts string
  \<comment> \<open>the round is over, the helper stays in \<^verbatim>\<open>read\<close> until a setting arrives, or an assertion fails\<close>

text \<open>The descriptor for the caller, after \<^verbatim>\<open>socketpair\<close> gave \<open>pair\<close> or failed; the second component lists the descriptors closed again.\<close>

definition timerfd_create_emu :: "int \<Rightarrow> (int \<times> int) option \<Rightarrow> int \<Rightarrow> (int \<times> int list) option" where
  "timerfd_create_emu clockid pair created = (if clockid \<noteq> CLOCK_MONOTONIC then None
     else Some (case pair of None \<Rightarrow> (-1, [])
       | Some (a, b) \<Rightarrow> if created \<noteq> 0 then (-1, [a, b]) else (b, [])))"

definition timerfd_settime_emu :: "int \<Rightarrow> itimerspec \<Rightarrow> bool \<Rightarrow> emu \<Rightarrow> (int \<times> emu) option" where
  "timerfd_settime_emu flags new written s =
     (if tv_sec (it_interval new) \<noteq> 0 \<or> tv_nsec (it_interval new) \<noteq> 0 then None
      else let ts = new\<lparr>it_interval := \<lparr>tv_sec = (if flags AND TFD_TIMER_ABSTIME \<noteq> 0 then TFD_TIMER_ABSTIME else 0), tv_nsec = 0\<rparr>\<rparr> in
        Some (if written then (0, s\<lparr>emu_in := emu_in s @ [ts]\<rparr>) else (-1, s)))"

text \<open>How long to wait for a setting that was read at the time \<open>now\<close>.\<close>

definition emu_wait :: "itimerspec \<Rightarrow> timespec \<Rightarrow> timespec" where
  "emu_wait ts now = (if tv_sec (it_interval ts) AND TFD_TIMER_ABSTIME \<noteq> 0
     then (case timer_delta (it_value ts) now of (passed, delta) \<Rightarrow> if passed then \<lparr>tv_sec = 0, tv_nsec = 1\<rparr> else delta)
     else it_value ts)"

definition emu_round :: "int \<Rightarrow> int \<Rightarrow> timespec \<Rightarrow> emu \<Rightarrow> emu_result" where
  "emu_round polled written now s =
     (let s1 = (if emu_invalid s then s\<lparr>emu_delta := \<lparr>tv_sec = 100000, tv_nsec = 0\<rparr>\<rparr> else s);
          fires = (polled = 0 \<and> \<not> emu_invalid s);
          rv = (if fires then written else polled);
          s2 = (if fires \<and> written = 1 then s1\<lparr>emu_out := emu_out s1 + 1\<rparr> else s1)
      in if rv > 0 then
           (case emu_in s2 of [] \<Rightarrow> Blocks
            | ts # q \<Rightarrow> if tv_nsec (it_interval ts) \<noteq> 0 then Aborts ''ts.it_interval.tv_nsec == 0''
                else if tv_sec (it_interval ts) AND NOT TFD_TIMER_ABSTIME \<noteq> 0 then Aborts ''(ts.it_interval.tv_sec & ~TFD_TIMER_ABSTIME) == 0''
                else Round (s2\<lparr>emu_in := q, emu_invalid := False, emu_delta := emu_wait ts now\<rparr>))
         else Round (s2\<lparr>emu_invalid := True\<rparr>))"

section \<open>What the emulation guarantees\<close>

lemma settime_message:
  assumes "timerfd_settime_emu flags new True s = Some (r, s')" and "emu_in s = []"
  obtains ts where "emu_in s' = [ts]" and "it_value ts = it_value new" and "tv_nsec (it_interval ts) = 0"
    and "tv_sec (it_interval ts) = (if flags AND TFD_TIMER_ABSTIME \<noteq> 0 then TFD_TIMER_ABSTIME else 0)"
    and "r = 0" and "emu_out s' = emu_out s"
  using assms
  by (intro that [of "new\<lparr>it_interval := \<lparr>tv_sec = (if flags AND TFD_TIMER_ABSTIME \<noteq> 0 then TFD_TIMER_ABSTIME else 0), tv_nsec = 0\<rparr>\<rparr>"])
    (auto simp: timerfd_settime_emu_def Let_def split: if_splits)

lemma flag_bits: "TFD_TIMER_ABSTIME AND TFD_TIMER_ABSTIME = 1" "TFD_TIMER_ABSTIME AND NOT TFD_TIMER_ABSTIME = 0"
  by (simp_all add: TFD_TIMER_ABSTIME_def)

text \<open>
  A setting that the helper reads makes it wait until the time that was set, at least one nanosecond for an absolute time that has passed, and nothing is written
  before. When the wait is over, exactly one byte is written, and the helper waits for the next setting.
\<close>

lemma emulation_fires_on_time:
  assumes set: "timerfd_settime_emu flags new True s = Some (r, s1)" and e: "emu_in s = []"
    and now: "0 \<le> tv_nsec now" and v: "tv_nsec (it_value new) \<le> 1000000000"
  shows "\<exists>s2. emu_round 1 w now s1 = Round s2 \<and> \<not> emu_invalid s2 \<and> emu_out s2 = emu_out s \<and>
    (if flags AND TFD_TIMER_ABSTIME \<noteq> 0 then ns now + ns (emu_delta s2) = max (ns (it_value new)) (ns now + 1)
     else emu_delta s2 = it_value new) \<and>
    emu_round 0 1 now' s2 = Blocks \<and>
    (\<forall>t t'. emu_round 0 1 now' (s2\<lparr>emu_in := [t]\<rparr>) = Round t' \<longrightarrow> emu_out t' = emu_out s + 1)"
proof -
  obtain ts where ts: "emu_in s1 = [ts]" "it_value ts = it_value new" "tv_nsec (it_interval ts) = 0" "emu_out s1 = emu_out s"
    "tv_sec (it_interval ts) = (if flags AND TFD_TIMER_ABSTIME \<noteq> 0 then TFD_TIMER_ABSTIME else 0)"
    by (rule settime_message [OF set e])
  have d: "ns now + ns (emu_wait ts now) = max (ns (it_value new)) (ns now + 1)" if "flags AND TFD_TIMER_ABSTIME \<noteq> 0"
  proof -
    obtain passed delta where td: "timer_delta (it_value new) now = (passed, delta)" by force
    have b: "ns delta = ns (it_value new) - ns now \<and> 0 \<le> tv_nsec delta \<and> tv_nsec delta \<le> 1000000000"
      using td borrow_correct [of "\<lparr>tv_sec = tv_sec (it_value new) - tv_sec now, tv_nsec = tv_nsec (it_value new) - tv_nsec now\<rparr>"] now v
      by (auto simp: timer_delta_def Let_def ns_def algebra_simps)
    have "passed \<longleftrightarrow> tv_sec delta < 0 \<or> tv_sec delta = 0 \<and> tv_nsec delta \<le> 0" using td by (auto simp: timer_delta_def Let_def)
    then have "passed \<longleftrightarrow> ns delta \<le> 0" using b by (auto simp: ns_def)
    then show ?thesis using b that td ts(2,5) by (auto simp: emu_wait_def flag_bits ns_def)
  qed
  have r: "emu_round 1 w now s1 = Round (s1\<lparr>emu_in := [], emu_invalid := False,
      emu_delta := emu_wait ts now\<rparr>)"
    using ts by (auto simp: emu_round_def Let_def flag_bits)
  have rel: "\<not> flags AND TFD_TIMER_ABSTIME \<noteq> 0 \<Longrightarrow> emu_wait ts now = it_value new" using ts by (simp add: emu_wait_def)
  show ?thesis
    unfolding r using d rel ts(4) by (auto simp: emu_round_def Let_def split: if_splits)
qed

text \<open>
  A signal that interrupts \<^verbatim>\<open>ppoll\<close> cancels the setting: no byte will be written for it, whatever the later rounds answer,
  until the caller sets the timer again.
\<close>

lemma emulation_loses_setting:
  assumes "polled < 0" and "emu_in s = []"
  shows "\<exists>s1. emu_round polled w now s = Round s1 \<and> emu_out s1 = emu_out s \<and>
    (\<forall>p w' now'. p \<le> 0 \<longrightarrow> (\<exists>s2. emu_round p w' now' s1 = Round s2 \<and> emu_out s2 = emu_out s \<and> emu_invalid s2))"
  using assms by (auto simp: emu_round_def Let_def)

end
