(* ===== verification/Threads.thy ===== *)
theory Threads
  imports Timer Aio Signals
begin

text \<open>
  Threads: creating them (alone, by reference, as a pool, in another domain), the start and the end of a thread, and waiting for the end of
  another one. A reference carries an id next to the address, because the address may be used again.

  \<open>mem\<close> is what \<^verbatim>\<open>malloc\<close> returns for the structure, as its address and that of the event embedded in it; \<open>cr_ok\<close> tells whether
  \<^verbatim>\<open>cr_create\<close> succeeded. The function a thread runs and its argument are handed to the coroutine (theory \<open>Coroutine\<close>); here the
  function is the parameter of \<open>tc_setup\<close>.
\<close>

section \<open>Creating threads\<close>

definition u_tc_thread_setup :: "(tid \<times> eid) option \<Rightarrow> bool \<Rightarrow> string \<Rightarrow> tid option tcop" where
  "u_tc_thread_setup mem cr_ok name = (case mem of
      None \<Rightarrow> ret None
    | Some (tc, ea) \<Rightarrow> thn (block [
        mdf (\<lambda>s. s\<lparr>freed := freed s - {O_thread tc}\<rparr>),
        mdf (upd_thr tc (\<lambda>_. zero_thread\<lparr>tc_e := ea\<rparr>)),
        mdf (upd_ev ea (\<lambda>_. zero_event))])
      (if \<not> cr_ok then thn (free_obj (O_thread tc)) (ret None)
       else thn (block [
         mdf (\<lambda>s. s\<lparr>freed := freed s - {O_cr tc}\<rparr>),
         mdf (upd_thr tc (\<lambda>t. t\<lparr>tc_cr := True, tc_name := name\<rparr>)),
         whn has_tc (rdm (\<lambda>s. mdf (upd_thr tc (per_thread_data_update (\<lambda>_. tc_thread_var_get s))))),
         mdf (tc_waitq_init (Exit_wq tc)),
         mdf (upd_thr tc (refcnt_update (\<lambda>_. 0))),
         spin_unlock (L_running tc),
         mdf (upd_thr tc (tc_flags_update (\<lambda>_. {}))),
         mdf (tc_event_init ea),
         mdf (event_list_init (Pending tc)),
         rdm (\<lambda>s. mdf (upd_thr tc (\<lambda>t. t\<lparr>worker_nr := FREE_WORKER, signals_since_last_query := 0, event_stack := None,
           tc_dom := this_domain s, last_worker := this_worker s\<rparr>))),
         formap (\<lambda>i. mdf (tc_aio_data_init (Aio tc i))) [0..<TC_AIO_REQUESTS_PER_TC_THREAD],
         mdf (tc_waitq_init (Aio_wq tc))])
       (ret (Some tc))))"

definition next_thread_id :: "u32 \<Rightarrow> u32" where
  "next_thread_id i = (if i + 1 = 0 then 1 else i + 1)"

definition u_tc_thread_insert :: "tid \<Rightarrow> unit tcop" where
  "u_tc_thread_insert tc = rdm (\<lambda>s0. let d = this_domain s0 in block [
     spin_lock (L_domain d),
     mdf (upd_dom d (d_threads_domain_update (\<lambda>_. d))),
     mdf (upd_dom d (d_threads_update (Cons tc))),
     mdf (upd_dom d (last_thread_id_update next_thread_id)),
     rdm (\<lambda>s. mdf (upd_thr tc (tc_id_update (\<lambda>_. last_thread_id (doms s d))))),
     spin_unlock (L_domain d)])"

definition u_tc_thread_new :: "(tid \<times> eid) option \<Rightarrow> bool \<Rightarrow> string \<Rightarrow> tid option tcop" where
  "u_tc_thread_new mem cr_ok name = bnd (u_tc_thread_setup mem cr_ok name) (\<lambda>tc.
     case tc of None \<Rightarrow> ret None | Some t \<Rightarrow> thn (u_tc_thread_insert t) (ret (Some t)))"

text \<open>\<^verbatim>\<open>WITH_OTHER_DOMAIN_BEGIN\<close> and \<^verbatim>\<open>WITH_OTHER_DOMAIN_END\<close> around a body.\<close>

definition with_other_domain :: "did \<Rightarrow> 'a tcop \<Rightarrow> 'a tcop" where
  "with_other_domain d body = rdm (\<lambda>s0. thn (mdf (\<lambda>s. s\<lparr>this_domain := d, has_domain := True\<rparr>))
     (bnd body (\<lambda>x. thn (mdf (\<lambda>s. s\<lparr>this_domain := this_domain s0, has_domain := has_domain s0\<rparr>)) (ret x))))"

definition tc_thread_new_ref_in_domain :: "(tid \<times> eid) option \<Rightarrow> bool \<Rightarrow> string \<Rightarrow> did \<Rightarrow> tc_thread_ref tcop" where
  "tc_thread_new_ref_in_domain mem cr_ok name d = with_other_domain d (bnd (u_tc_thread_new mem cr_ok name) (\<lambda>tc.
     case tc of
       None \<Rightarrow> ret \<lparr>r_thr = None, r_domain = d, r_id = 0\<rparr>
     | Some t \<Rightarrow> rdm (\<lambda>s. thn (block [
         add_event_cr (tc_e (thr s t)) 0 EF_READY t,
         u_iwi_immediate (this_domain s)]) (ret \<lparr>r_thr = Some t, r_domain = d, r_id = tc_id (thr s t)\<rparr>))))"

definition tc_thread_new_ref :: "(tid \<times> eid) option \<Rightarrow> bool \<Rightarrow> string \<Rightarrow> tc_thread_ref tcop" where
  "tc_thread_new_ref mem cr_ok name = rdm (\<lambda>s. tc_thread_new_ref_in_domain mem cr_ok name (this_domain s))"

definition tc_thread_new :: "(tid \<times> eid) option \<Rightarrow> bool \<Rightarrow> string \<Rightarrow> tid option tcop" where
  "tc_thread_new mem cr_ok name = bnd (tc_thread_new_ref mem cr_ok name) (\<lambda>r. ret (r_thr r))"

text \<open>
  A pool: \<open>mem i\<close>, \<open>cr_ok i\<close> and \<open>ename i\<close> are the outcomes of \<^verbatim>\<open>malloc\<close>, \<^verbatim>\<open>cr_create\<close> and \<^verbatim>\<open>asprintf\<close> in iteration \<open>i\<close>.
\<close>

definition pool_thread :: "nat \<Rightarrow> (int \<Rightarrow> (tid \<times> eid) option) \<Rightarrow> (int \<Rightarrow> bool) \<Rightarrow> (int \<Rightarrow> string option) \<Rightarrow> did \<Rightarrow> int \<Rightarrow> unit tcop" where
  "pool_thread p mem cr_ok ename d i = (case ename i of
      None \<Rightarrow> msg_exit ''allocation in asprintf() failed''
    | Some nm \<Rightarrow> bnd (u_tc_thread_new (mem i) (cr_ok i) nm) (\<lambda>tc. case tc of
        None \<Rightarrow> ret ()
      | Some t \<Rightarrow> block [
          mdf (upd_thr t (tc_flags_update (\<lambda>f. f \<union> {TF_THREADS, TF_FREE_NAME}))),
          whn (\<lambda>s. i < nr_of_workers (doms s d)) (mdf (upd_thr t (\<lambda>v. v\<lparr>worker_nr := i, tc_flags := insert TF_AFFINE (tc_flags v)\<rparr>))),
          rdm (\<lambda>s. spin_lock (L_domain (this_domain s))),
          mdf (\<lambda>s. s\<lparr>pools := (pools s)(p := t # pools s p)\<rparr>),
          rdm (\<lambda>s. spin_unlock (L_domain (this_domain s))),
          rdm (\<lambda>s. add_event_cr (tc_e (thr s t)) 0 EF_READY t)]))"

definition tc_thread_pool_new_in_domain ::
  "nat \<Rightarrow> (int \<Rightarrow> (tid \<times> eid) option) \<Rightarrow> (int \<Rightarrow> bool) \<Rightarrow> (int \<Rightarrow> string option) \<Rightarrow> int \<Rightarrow> did \<Rightarrow> unit tcop" where
  "tc_thread_pool_new_in_domain p mem cr_ok ename excess d = with_other_domain d (block [
     mdf (\<lambda>s. s\<lparr>pool_domain := (pool_domain s)(p := d), pools := (pools s)(p := [])\<rparr>),
     rdm (\<lambda>s. formap (pool_thread p mem cr_ok ename d) (map int [0..<nat (nr_of_workers (doms s d) + excess)])),
     u_iwi_immediate d])"

definition tc_thread_pool_new ::
  "nat \<Rightarrow> (int \<Rightarrow> (tid \<times> eid) option) \<Rightarrow> (int \<Rightarrow> bool) \<Rightarrow> (int \<Rightarrow> string option) \<Rightarrow> int \<Rightarrow> unit tcop" where
  "tc_thread_pool_new p mem cr_ok ename excess = rdm (\<lambda>s. tc_thread_pool_new_in_domain p mem cr_ok ename excess (this_domain s))"

section \<open>The life of a thread\<close>

text \<open>The part of \<^verbatim>\<open>tc_die\<close> before it leaves its stack for good; \<open>n\<close> and \<open>e\<close> are for the wait in \<^verbatim>\<open>tc_aio_wait\<close>.\<close>

definition tc_die_unlist :: "tid \<Rightarrow> unit tcop" where
  "tc_die_unlist tc = block [
     rdm (\<lambda>s. spin_lock (L_domain (this_domain s))),
     mdf (\<lambda>s. upd_dom (this_domain s) (d_threads_update (remove1 tc)) s),
     whn (\<lambda>s. TF_THREADS \<in> tc_flags (thr s tc)) (mdf (\<lambda>s. s\<lparr>pools := (\<lambda>p. remove1 tc (pools s p))\<rparr>)),
     rdm (\<lambda>s. spin_unlock (L_domain (this_domain s)))]"

definition tc_die_leave :: "nat \<Rightarrow> eid \<Rightarrow> unit bop" where
  "tc_die_leave n e = rds (\<lambda>s0. let tc = tc_current s0 in block [
     lift (tc_die_unlist tc),
     thn (tc_aio_wait n e) (ret ()),
     lift (whn (\<lambda>s. refcnt (thr s tc) > 0) (block [
       signal_cancel_pending,
       whn (\<lambda>s. refcnt (thr s tc) > 0) (msg_exit ''tc_die: refcnt. Signals still enabled?'')])),
     lift (tc_waitq_wakeup_all (Exit_wq tc)),
     lift (rdm (\<lambda>s. add_event_cr (tc_e (thr s tc)) 0 EF_EXITING tc)),
     lift (rdm (\<lambda>s. u_iwi_immediate (this_domain s)))])"

definition tc_die :: "nat \<Rightarrow> eid \<Rightarrow> unit bop" where
  "tc_die n e = block [
     tc_die_leave n e,
     rds (\<lambda>s. u_switch_to (sched_p2 (cur_worker s))),
     lift (msg_exit ''tc_scheduler() returned in tc_die()'')]"

definition tc_setup :: "nat \<Rightarrow> eid \<Rightarrow> unit bop \<Rightarrow> unit bop" where
  "tc_setup n e func = block [
     lift (rdm (\<lambda>s. spin_unlock (L_running (cr_caller s)))),
     lift (mdf (upd_cur_worker (woken_by_event_update (\<lambda>_. None)))),
     func,
     tc_die n e]"

section \<open>Waiting for the end of a thread\<close>

definition u_thread_valid :: "did \<Rightarrow> tid \<Rightarrow> tcr \<Rightarrow> tc_rv" where
  "u_thread_valid d look_for s = (if look_for \<in> set (d_threads (doms s d)) then RV_OK else RV_THREAD_NA)"

text \<open>The critical section of \<^verbatim>\<open>tc_thread_wait_ref\<close>.\<close>

definition wait_ref_enter :: "eid \<Rightarrow> tid \<Rightarrow> did \<Rightarrow> u32 \<Rightarrow> tc_rv tcop" where
  "wait_ref_enter e t d i = thn (block [mdf (tc_event_init e), spin_lock (L_domain d)])
     (rdm (\<lambda>s. let rv = (if u_thread_valid d t s = RV_OK \<and> i \<noteq> 0 \<and> tc_id (thr s t) \<noteq> i then RV_THREAD_NA else u_thread_valid d t s) in
        thn (block [
          (if rv = RV_OK then tc_waitq_prepare_to_wait (Exit_wq t) e else ret ()),
          spin_unlock (L_domain d)]) (ret rv)))"

definition tc_thread_wait_ref :: "eid \<Rightarrow> tc_thread_ref \<Rightarrow> tc_rv bop" where
  "tc_thread_wait_ref e ref = (case r_thr ref of
      None \<Rightarrow> ret RV_OK
    | Some t \<Rightarrow> bnd (lift (wait_ref_enter e t (r_domain ref) (r_id ref))) (\<lambda>rv.
        if rv = RV_THREAD_NA then ret rv
        else thn tc_scheduler (bnd (lift (tc_waitq_finish_wait None e)) (\<lambda>intr.
          ret (if intr then RV_INTR else rv)))))"

definition tc_thread_wait_domain :: "eid \<Rightarrow> tid \<Rightarrow> did \<Rightarrow> tc_rv bop" where
  "tc_thread_wait_domain e tc d = tc_thread_wait_ref e \<lparr>r_thr = Some tc, r_domain = d, r_id = 0\<rparr>"

definition tc_thread_wait :: "eid \<Rightarrow> tid \<Rightarrow> tc_rv bop" where
  "tc_thread_wait e tc = rds (\<lambda>s. tc_thread_wait_domain e tc (this_domain s))"

text \<open>
  The loop of \<^verbatim>\<open>tc_thread_pool_wait\<close>, at most \<open>j\<close> rounds; the remaining parameters are those of \<open>tc_sleep\<close>. The variable \<open>rv\<close> is computed as
  the code computes it, and like there it is not what is returned.
\<close>

fun pool_wait_loop :: "nat \<Rightarrow> nat \<Rightarrow> nat \<Rightarrow> eid \<Rightarrow> nat \<Rightarrow> nat \<Rightarrow> twid \<Rightarrow> nat \<Rightarrow> did \<Rightarrow> tc_rv \<Rightarrow> tc_rv bop" where
  "pool_wait_loop 0 k n e hl wd tw p d rv = throw Out_of_fuel"
| "pool_wait_loop (Suc j) k n e hl wd tw p d rv = rds (\<lambda>s. case pools s p of
      [] \<Rightarrow> thn (lift (spin_unlock (L_domain d))) (ret RV_OK)
    | tc # _ \<Rightarrow> thn (lift (spin_unlock (L_domain d)))
        (bnd (tc_thread_wait_domain e tc d) (\<lambda>r.
          if r = RV_INTR then ret r
          else let rv' = (if r = RV_OK \<and> rv = RV_THREAD_NA \<or> r = RV_FAILED then r else rv) in
            thn (tc_sleep k n e hl wd tw CLOCK_MONOTONIC 0 1000000)
            (thn (lift (spin_lock (L_domain d))) (pool_wait_loop j k n e hl wd tw p d rv')))))"

definition tc_thread_pool_wait :: "nat \<Rightarrow> nat \<Rightarrow> nat \<Rightarrow> eid \<Rightarrow> nat \<Rightarrow> nat \<Rightarrow> twid \<Rightarrow> nat \<Rightarrow> tc_rv bop" where
  "tc_thread_pool_wait j k n e hl wd tw p = rds (\<lambda>s. let d = pool_domain s p in
     thn (lift (spin_lock (L_domain d))) (pool_wait_loop j k n e hl wd tw p d RV_THREAD_NA))"

section \<open>Thread ids\<close>

lemma unat_next_thread_id: "unat (next_thread_id i) = unat i mod 4294967295 + 1"
proof (cases "i = - 1")
  case True
  then show ?thesis by (simp add: next_thread_id_def unsigned_minus_1_eq_mask mask_eq_exp_minus_1)
next
  case False
  then have "i + 1 \<noteq> 0" by (simp add: eq_neg_iff_add_eq_0)
  then have n: "unat (i + 1) = unat i + 1" by (simp add: unat_plus_simple unat_eq_zero add.commute unatSuc)
  have "unat i + 1 < 4294967296" using unsigned_less [where ?'a = nat, of "i + 1"] n by simp
  then show ?thesis using n \<open>i + 1 \<noteq> 0\<close> by (simp add: next_thread_id_def)
qed

lemma unat_nth_thread_id: "unat ((next_thread_id ^^ Suc k) i) = (unat i + k) mod 4294967295 + 1"
proof (induction k)
  case 0
  show ?case by (simp add: unat_next_thread_id)
next
  case (Suc k)
  have "unat ((next_thread_id ^^ Suc (Suc k)) i) = unat ((next_thread_id ^^ Suc k) i) mod 4294967295 + 1"
    by (simp only: funpow.simps(2) o_apply unat_next_thread_id)
  also have "\<dots> = (unat i + Suc k) mod 4294967295 + 1" unfolding Suc by (simp add: mod_Suc_eq)
  finally show ?case .
qed

lemma nth_thread_id_inj:
  assumes "(next_thread_id ^^ Suc j) i = (next_thread_id ^^ Suc k) i" and "j < 4294967295" and "k < 4294967295"
  shows "j = k"
proof -
  have "(unat i + j) mod 4294967295 = (unat i + k) mod 4294967295"
    using assms(1) unat_nth_thread_id [of j i] unat_nth_thread_id [of k i] by simp
  then have "j mod 4294967295 = k mod 4294967295" by (simp add: mod_add_cong nat_mod_eq_iff)
  then show ?thesis using assms(2,3) by simp
qed

lemma nth_thread_id_nonzero: "(next_thread_id ^^ Suc k) i \<noteq> 0"
  using unat_nth_thread_id [of k i] by (metis add_is_0 one_neq_zero unat_0)

definition inserted :: "tid \<Rightarrow> tcr \<Rightarrow> tcr" where
  "inserted t s = (let d = this_domain s; i = next_thread_id (last_thread_id (doms s d)) in
     upd_thr t (tc_id_update (\<lambda>_. i)) (upd_dom d (\<lambda>x. last_thread_id_update next_thread_id
       (d_threads_update (Cons t) (x\<lparr>d_threads_domain := d\<rparr>))) s))"

lemma insert_eq: "free_lock s (L_domain (this_domain s)) \<Longrightarrow> u_tc_thread_insert t s = Inr ((), inserted t s)"
  by (simp add: u_tc_thread_insert_def inserted_def op_defs upd_defs free_lock_def Let_def fun_upd_idem)

lemma inserted_frame [simp]:
  "this_domain (inserted t s) = this_domain s" "free_lock (inserted t s) = free_lock s"
  "d_threads (doms (inserted t s) (this_domain s)) = t # d_threads (doms s (this_domain s))"
  "last_thread_id (doms (inserted t s) (this_domain s)) = next_thread_id (last_thread_id (doms s (this_domain s)))"
  "tc_id (thr (inserted t s) u) = (if u = t then next_thread_id (last_thread_id (doms s (this_domain s))) else tc_id (thr s u))"
  by (simp_all add: inserted_def Let_def upd_defs free_lock_def [abs_def])

lemma insert_all:
  "free_lock s (L_domain (this_domain s)) \<Longrightarrow> distinct ts \<Longrightarrow>
    \<exists>s'. formap u_tc_thread_insert ts s = Inr ((), s') \<and>
      d_threads (doms s' (this_domain s)) = rev ts @ d_threads (doms s (this_domain s)) \<and>
      (\<forall>k < length ts. tc_id (thr s' (ts ! k)) = (next_thread_id ^^ Suc k) (last_thread_id (doms s (this_domain s)))) \<and>
      (\<forall>t. t \<notin> set ts \<longrightarrow> tc_id (thr s' t) = tc_id (thr s t))"
proof (induction ts arbitrary: s)
  case (Cons t ts)
  let ?s = "inserted t s"
  obtain s' where s': "formap u_tc_thread_insert ts ?s = Inr ((), s')"
    "d_threads (doms s' (this_domain s)) = rev ts @ t # d_threads (doms s (this_domain s))"
    "\<forall>k < length ts. tc_id (thr s' (ts ! k)) = (next_thread_id ^^ Suc k) (next_thread_id (last_thread_id (doms s (this_domain s))))"
    "\<forall>u. u \<notin> set ts \<longrightarrow> tc_id (thr s' u) = tc_id (thr ?s u)"
    using Cons.IH [of ?s] Cons.prems by auto
  have "formap u_tc_thread_insert (t # ts) s = Inr ((), s')" using Cons.prems(1) s'(1) by (simp add: insert_eq)
  moreover have "\<forall>k < length (t # ts). tc_id (thr s' ((t # ts) ! k)) = (next_thread_id ^^ Suc k) (last_thread_id (doms s (this_domain s)))"
    using s'(3,4) Cons.prems(2) by (auto simp: nth_Cons funpow_swap1 split: nat.splits)
  ultimately show ?case using s'(2,4) by (intro exI [of _ s']) simp
qed simp

text \<open>C31: The ids of up to 4294967295 threads that a domain creates one after the other are pairwise different and never 0, from every
  value of the counter, whose 32 bits wrap around; each new thread is entered at the head of the list of threads.\<close>

theorem thread_ids_unique:
  assumes "free_lock s (L_domain (this_domain s))" and "distinct ts" and "length ts \<le> 4294967295"
  shows "\<exists>s'. formap u_tc_thread_insert ts s = Inr ((), s') \<and> inj_on (\<lambda>t. tc_id (thr s' t)) (set ts) \<and>
    (\<forall>t \<in> set ts. tc_id (thr s' t) \<noteq> 0) \<and> d_threads (doms s' (this_domain s)) = rev ts @ d_threads (doms s (this_domain s))"
proof -
  obtain s' where s': "formap u_tc_thread_insert ts s = Inr ((), s')"
    "d_threads (doms s' (this_domain s)) = rev ts @ d_threads (doms s (this_domain s))"
    and id: "\<And>k. k < length ts \<Longrightarrow> tc_id (thr s' (ts ! k)) = (next_thread_id ^^ Suc k) (last_thread_id (doms s (this_domain s)))"
    using insert_all [OF assms(1,2)] by blast
  have "inj_on (\<lambda>t. tc_id (thr s' t)) (set ts)"
  proof (rule inj_onI)
    fix x y
    assume "x \<in> set ts" "y \<in> set ts" and eq: "tc_id (thr s' x) = tc_id (thr s' y)"
    then obtain j k where jk: "j < length ts" "x = ts ! j" "k < length ts" "y = ts ! k" by (metis in_set_conv_nth)
    have "j = k" by (rule nth_thread_id_inj) (use eq jk assms(3) id [of j] id [of k] in \<open>simp_all del: funpow.simps\<close>)
    then show "x = y" using jk by simp
  qed
  moreover have "tc_id (thr s' t) \<noteq> 0" if t: "t \<in> set ts" for t
  proof -
    obtain k where k: "k < length ts" "t = ts ! k" using t by (metis in_set_conv_nth)
    show ?thesis unfolding k(2) id [OF k(1)] by (rule nth_thread_id_nonzero)
  qed
  ultimately show ?thesis using s' by blast
qed

theorem thread_ids_unique_witness:
  "\<exists>s'. formap u_tc_thread_insert [3, 8] (process_image\<lparr>doms := (\<lambda>_. zero_domain\<lparr>last_thread_id := 4294967294\<rparr>)\<rparr>) = Inr ((), s') \<and>
    tc_id (thr s' 3) \<noteq> tc_id (thr s' 8) \<and> tc_id (thr s' 8) \<noteq> 0"
  using thread_ids_unique [of "process_image\<lparr>doms := (\<lambda>_. zero_domain\<lparr>last_thread_id := 4294967294\<rparr>)\<rparr>" "[3, 8]"]
  by (auto simp: free_lock_def)

section \<open>A new thread\<close>

definition queued :: "eid \<Rightarrow> u32 \<Rightarrow> tc_event_flag \<Rightarrow> tid \<Rightarrow> tcr \<Rightarrow> tcr" where
  "queued e ep fl t s = (link e Immediate t (upd_ev e (\<lambda>v. v\<lparr>ev_u := Ep_events ep, ev_flags := fl\<rparr>) s))\<lparr>immediate_count := immediate_count s + 1\<rparr>"

lemma add_event_cr_eq:
  assumes "ev_el (evs s e) = None" and "free_lock s (L_list Immediate)"
  shows "add_event_cr e ep fl t s = Inr ((), queued e ep fl t s)"
proof -
  let ?u = "(upd_ev e (\<lambda>v. v\<lparr>ev_u := Ep_events ep, ev_flags := fl\<rparr>) s)\<lparr>locks := (locks s)(L_list Immediate := Some (this_worker s))\<rparr>"
  have "u_add_event e Immediate t ?u = Inr ((), link e Immediate t ?u)"
    by (rule u_add_event_eq) (use assms in \<open>simp_all add: upd_defs holds_def\<close>)
  then show ?thesis
    using assms by (simp add: add_event_cr_def op_defs queued_def atomic_inc_immediate_def link_def upd_defs free_lock_def fun_upd_idem)
qed

lemma wf_queued:
  assumes "wf_ev s" and "ev_el (evs s e) = None"
  shows "wf_ev (queued e ep fl t s)"
proof -
  let ?u = "upd_ev e (\<lambda>v. v\<lparr>ev_u := Ep_events ep, ev_flags := fl\<rparr>) s"
  have "wf_ev ?u = wf_ev s" by (rule wf_ev_cong_events) (auto simp: upd_defs)
  then show ?thesis
    using wf_ev_link_immediate [of ?u e t] assms by (simp add: queued_def upd_defs)
qed

definition aio_reset :: "tid \<Rightarrow> nat list \<Rightarrow> (adid \<Rightarrow> tc_aio_data) \<Rightarrow> adid \<Rightarrow> tc_aio_data" where
  "aio_reset t is A ad = (if \<exists>i \<in> set is. ad = Aio t i
     then \<lparr>aio_cb = Io_none, aio_res = 0, aio_res2 = 0, aio_done = Aio_done, aio_notify = None\<rparr> else A ad)"

lemma aio_init_all:
  "formap (\<lambda>i. mdf (tc_aio_data_init (Aio t i))) is s = Inr ((), s\<lparr>aios := aio_reset t is (aios s)\<rparr>)"
proof (induction "is" arbitrary: s)
  case Nil
  have "aio_reset t [] (aios s) = aios s" by (simp add: aio_reset_def fun_eq_iff)
  then show ?case by simp
next
  case (Cons i "is")
  have "aio_reset t is (aios (tc_aio_data_init (Aio t i) s)) = aio_reset t (i # is) (aios s)"
    by (auto simp: aio_reset_def fun_eq_iff tc_aio_data_init_def upd_defs)
  moreover have "(tc_aio_data_init (Aio t i) s)\<lparr>aios := R\<rparr> = s\<lparr>aios := R\<rparr>" for R by (simp add: tc_aio_data_init_def upd_defs)
  ultimately show ?case using Cons [of "tc_aio_data_init (Aio t i) s"] by (simp add: mdf_def)
qed

text \<open>What the creation of a thread may assume of the memory it gets: nothing refers to it any more.\<close>

definition fresh_thread :: "tid \<Rightarrow> eid \<Rightarrow> tcr \<Rightarrow> bool" where
  "fresh_thread t ea s \<longleftrightarrow> refs s t = {} \<and> ev_el (evs s ea) = None \<and> free_lock s (L_running t) \<and>
     evl s (Waiters (Exit_wq t)) = [] \<and> evl s (Pending t) = [] \<and> evl s (Waiters (Aio_wq t)) = []"

lemma setup_result:
  assumes wf: "wf_ev s" and un: "lists_unlocked s" and fr: "fresh_thread t ea s"
  obtains s1 where "u_tc_thread_setup (Some (t, ea)) True nm s = Inr (Some t, s1)" and "wf_ev s1"
    and "locks s1 = locks s" and "evl s1 = evl s" and "doms s1 = doms s" and "this_domain s1 = this_domain s" and "sysres s1 = sysres s"
    and "ev_el (evs s1 ea) = None" and "ev_domain (evs s1 ea) = this_domain s" and "tc_dom (thr s1 t) = this_domain s"
    and "tc_e (thr s1 t) = ea" and "tc_cr (thr s1 t)" and "tc_flags (thr s1 t) = {}" and "worker_nr (thr s1 t) = FREE_WORKER"
    and "O_thread t \<notin> freed s1" and "has_domain s1 = has_domain s" and "event_stack (thr s1 t) = None"
    and "\<And>i. i < 8 \<Longrightarrow> aio_notify (aios s1 (Aio t i)) = None \<and> tc_aio_data_done (Aio t i) s1 = Aio_done"
    and "has_tc s \<Longrightarrow> cr_current s \<noteq> t \<Longrightarrow> per_thread_data (thr s1 t) = per_thread_data (thr s (cr_current s))"
    and "syslog s1 = syslog s" and "wrk s1 = wrk s" and "freed s1 \<subseteq> freed s"
proof -
  have k: "(locks s)(L_list (Waiters (Exit_wq t)) := None, L_running t := None, L_list (Pending t) := None, L_list (Waiters (Aio_wq t)) := None) = locks s"
    using un fr by (auto simp: lists_unlocked_def fresh_thread_def free_lock_def fun_eq_iff)
  have l: "(evl s)(Waiters (Exit_wq t) := [], Pending t := [], Waiters (Aio_wq t) := []) = evl s"
    using fr by (auto simp: fresh_thread_def fun_eq_iff)
  have z: "refcnt (thr s t) = 0" using wf fr by (simp add: wf_ev_def fresh_thread_def)
  let ?X = "\<lambda>v. zero_thread\<lparr>tc_e := ea, tc_cr := True, tc_name := nm, per_thread_data := v, refcnt := 0, tc_flags := {},
     worker_nr := FREE_WORKER, signals_since_last_query := 0, event_stack := None, tc_dom := this_domain s, last_worker := this_worker s\<rparr>"
  let ?v = "if has_tc s \<and> cr_current s \<noteq> t then per_thread_data (thr s (cr_current s)) else 0"
  let ?E = "zero_event\<lparr>ev_el := None, ev_acked := False, next_in_stack := None, ev_domain := this_domain s\<rparr>"
  let ?s1 = "s\<lparr>freed := freed s - {O_thread t} - {O_cr t}, thr := (thr s)(t := ?X ?v), evs := (evs s)(ea := ?E),
      evl := (evl s)(Waiters (Exit_wq t) := [], Pending t := [], Waiters (Aio_wq t) := []),
      locks := (locks s)(L_list (Waiters (Exit_wq t)) := None, L_running t := None, L_list (Pending t) := None, L_list (Waiters (Aio_wq t)) := None),
      aios := aio_reset t [0..<TC_AIO_REQUESTS_PER_TC_THREAD] (aios s)\<rparr>"
  have r: "u_tc_thread_setup (Some (t, ea)) True nm s = Inr (Some t, ?s1)"
    by (cases "has_tc s"; cases "cr_current s = t")
      (simp_all add: u_tc_thread_setup_def op_defs upd_defs tc_waitq_init_def event_list_init_def tc_event_init_def tc_thread_var_get_def
        tc_current_def aio_init_all [unfolded mdf_def] zero_thread_def)
  have "wf_ev ?s1 = wf_ev s"
    by (rule wf_ev_cong_events) (use l z fr in \<open>auto simp: fresh_thread_def\<close>)
  then show thesis
    by (intro that [OF r]) (use k l wf in \<open>auto simp: aio_reset_def tc_aio_data_done_def TC_AIO_REQUESTS_PER_TC_THREAD_def\<close>)
qed

lemma with_other_domain_result:
  assumes "body (s\<lparr>this_domain := d, has_domain := True\<rparr>) = Inr (x, s')"
  shows "with_other_domain d body s = Inr (x, s'\<lparr>this_domain := this_domain s, has_domain := has_domain s\<rparr>)"
  using assms by (simp add: with_other_domain_def op_defs)

text \<open>The list of threads of a domain with a new one.\<close>

definition with_thread :: "tid \<Rightarrow> did \<Rightarrow> tc_domain \<Rightarrow> tc_domain" where
  "with_thread t d x = last_thread_id_update next_thread_id (d_threads_update (Cons t) (x\<lparr>d_threads_domain := d\<rparr>))"

lemma new_ref_result:
  assumes "wf_ev s" and "lists_unlocked s" and "fresh_thread t ea s" and "sysres s (length (syslog s)) = SIZEOF_EVENTFD" and "free_lock s (L_domain d)"
  obtains s' where "tc_thread_new_ref_in_domain (Some (t, ea)) True nm d s = Inr (\<lparr>r_thr = Some t, r_domain = d, r_id = tc_id (thr s' t)\<rparr>, s')"
    and "tc_id (thr s' t) \<noteq> 0" and "evl s' = (evl s)(Immediate := evl s Immediate @ [ea])" and "ev_tc (evs s' ea) = t"
    and "ev_flags (evs s' ea) = EF_READY" and "ev_domain (evs s' ea) = d" and "tc_dom (thr s' t) = d" and "worker_nr (thr s' t) = FREE_WORKER"
    and "syslog s' = syslog s @ [iwi_of s d]" and "this_domain s' = this_domain s" and "has_domain s' = has_domain s" and "locks s' = locks s" and "wf_ev s'"
    and "doms s' = (doms s)(d := with_thread t d (doms s d))" and "wrk s' = wrk s" and "freed s' \<subseteq> freed s"
proof -
  let ?s0 = "s\<lparr>this_domain := d, has_domain := True\<rparr>"
  have 0: "wf_ev ?s0" "lists_unlocked ?s0" "fresh_thread t ea ?s0"
    using assms(1-3) by (simp_all add: lists_unlocked_def fresh_thread_def refs_def free_lock_def)
  obtain s1 where 1: "u_tc_thread_setup (Some (t, ea)) True nm ?s0 = Inr (Some t, s1)" "wf_ev s1" "locks s1 = locks s" "evl s1 = evl s"
    "doms s1 = doms s" "this_domain s1 = d" "sysres s1 = sysres s" "ev_el (evs s1 ea) = None" "ev_domain (evs s1 ea) = d"
    "tc_dom (thr s1 t) = d" "tc_e (thr s1 t) = ea" "worker_nr (thr s1 t) = FREE_WORKER" "syslog s1 = syslog s" "wrk s1 = wrk s" "freed s1 \<subseteq> freed s"
    by (rule setup_result [OF 0, of nm]) (use that in simp_all)
  let ?s2 = "inserted t s1" and ?s3 = "queued ea 0 EF_READY t (inserted t s1)"
  have ins: "u_tc_thread_insert t s1 = Inr ((), ?s2)" using assms(5) 1(3,6) by (intro insert_eq) (simp add: free_lock_def)
  have 2: "evs ?s2 = evs s1" "evl ?s2 = evl s" "locks ?s2 = locks s" "sysres ?s2 = sysres s" "this_domain ?s2 = d"
    "immediate_count ?s2 = immediate_count s1" "syslog ?s2 = syslog s" "doms ?s2 = (doms s)(d := with_thread t d (doms s d))"
    "tc_dom (thr ?s2 t) = d" "tc_e (thr ?s2 t) = ea" "worker_nr (thr ?s2 t) = FREE_WORKER" "refcnt (thr ?s2 u) = refcnt (thr s1 u)"
    "wrk ?s2 = wrk s" "freed ?s2 = freed s1" for u
    using 1 by (auto simp: inserted_def Let_def upd_defs with_thread_def)
  have w2: "wf_ev ?s2" using 1(2) by (subst wf_ev_cong [of ?s2 s1]) (simp_all add: 1(4) 2)
  have q: "add_event_cr ea 0 EF_READY t ?s2 = Inr ((), ?s3)"
    using assms(2) by (intro add_event_cr_eq) (simp_all add: 2 1(3,8) free_lock_def lists_unlocked_def)
  have 3: "locks ?s3 = locks s" "sysres ?s3 = sysres s" "this_domain ?s3 = d" "doms ?s3 = doms ?s2" "syslog ?s3 = syslog s" "wrk ?s3 = wrk s" "freed ?s3 = freed s1"
    by (simp_all add: queued_def link_def upd_defs 2 1(6))
  have i: "u_iwi_immediate d ?s3 = Inr ((), ?s3\<lparr>syslog := syslog ?s3 @ [iwi_of s d]\<rparr>)"
    using assms(4) by (simp add: u_iwi_immediate_def op_defs 3 2(8) iwi_of_def with_thread_def)
  let ?s' = "?s3\<lparr>syslog := syslog ?s3 @ [iwi_of s d], this_domain := this_domain s, has_domain := has_domain s\<rparr>"
  have 4: "evl ?s3 = (evl s)(Immediate := evl s Immediate @ [ea])" "ev_tc (evs ?s3 ea) = t" "ev_flags (evs ?s3 ea) = EF_READY"
    "ev_domain (evs ?s3 ea) = d" "tc_dom (thr ?s3 t) = d" "worker_nr (thr ?s3 t) = FREE_WORKER" "tc_id (thr ?s3 t) = tc_id (thr ?s2 t)"
    using 1(9) 2 by (simp_all add: queued_def link_def upd_defs del: inserted_frame)
  have r: "tc_thread_new_ref_in_domain (Some (t, ea)) True nm d s = Inr (\<lparr>r_thr = Some t, r_domain = d, r_id = tc_id (thr ?s' t)\<rparr>, ?s')"
    unfolding tc_thread_new_ref_in_domain_def
    by (subst with_other_domain_result) (use 1(1) ins q i 2 4(7) in \<open>simp_all add: u_tc_thread_new_def op_defs\<close>)
  have "tc_id (thr ?s2 t) \<noteq> 0"
    using nth_thread_id_nonzero [of 0 "last_thread_id (doms s1 (this_domain s1))"] by simp
  moreover have "wf_ev ?s'" using wf_queued [OF w2] 1(8) 2(1) by simp
  ultimately show thesis
    by (intro that [OF r]) (use 1(15) in \<open>simp_all add: 3 4 2(8)\<close>)
qed

text \<open>C32: In memory nothing refers to any more, \<^verbatim>\<open>tc_thread_new_ref_in_domain\<close> creates a thread of the given domain: the reference holds its address and
  its id, which is not 0; it is in the list of threads, so that a wait with the reference finds it; its
  start event is the last on the immediate list with the domain the scheduler asserts, the domain is alerted, the
  caller's own domain and all locks are as before, and the queue invariant holds. Without memory or stack the reference is empty.\<close>

theorem new_thread_correct:
  assumes "wf_ev s" and "lists_unlocked s" and "fresh_thread t ea s" and "eventfd_ok s" and "free_lock s (L_domain d)"
  shows "(\<exists>r s'. tc_thread_new_ref_in_domain (Some (t, ea)) True nm d s = Inr (r, s') \<and>
      r_thr r = Some t \<and> r_domain r = d \<and> r_id r \<noteq> 0 \<and> r_id r = tc_id (thr s' t) \<and> u_thread_valid d t s' = RV_OK \<and>
      evl s' = (evl s)(Immediate := evl s Immediate @ [ea]) \<and> ev_tc (evs s' ea) = t \<and> ev_flags (evs s' ea) = EF_READY \<and>
      ev_domain (evs s' ea) = d \<and> tc_dom (thr s' t) = d \<and> worker_nr (thr s' t) = FREE_WORKER \<and>
      iwi_of s d \<in> set (syslog s') \<and> this_domain s' = this_domain s \<and> locks s' = locks s \<and> wf_ev s') \<and>
    (\<exists>s'. tc_thread_new_ref_in_domain None cr nm d s = Inr (\<lparr>r_thr = None, r_domain = d, r_id = 0\<rparr>, s')) \<and>
    (\<exists>s'. tc_thread_new_ref_in_domain (Some (t, ea)) False nm d s = Inr (\<lparr>r_thr = None, r_domain = d, r_id = 0\<rparr>, s') \<and> O_thread t \<in> freed s')"
proof (intro conjI)
  have "sysres s (length (syslog s)) = SIZEOF_EVENTFD" using assms(4) by (simp add: eventfd_ok_def)
  from new_ref_result [OF assms(1-3) this assms(5), of nm] obtain s' where s': "tc_thread_new_ref_in_domain (Some (t, ea)) True nm d s =
      Inr (\<lparr>r_thr = Some t, r_domain = d, r_id = tc_id (thr s' t)\<rparr>, s')" "tc_id (thr s' t) \<noteq> 0"
    "evl s' = (evl s)(Immediate := evl s Immediate @ [ea])" "ev_tc (evs s' ea) = t" "ev_flags (evs s' ea) = EF_READY" "ev_domain (evs s' ea) = d"
    "tc_dom (thr s' t) = d" "worker_nr (thr s' t) = FREE_WORKER" "syslog s' = syslog s @ [iwi_of s d]" "this_domain s' = this_domain s"
    "locks s' = locks s" "wf_ev s'" "doms s' = (doms s)(d := with_thread t d (doms s d))"
    by metis
  then show "\<exists>r s'. tc_thread_new_ref_in_domain (Some (t, ea)) True nm d s = Inr (r, s') \<and>
      r_thr r = Some t \<and> r_domain r = d \<and> r_id r \<noteq> 0 \<and> r_id r = tc_id (thr s' t) \<and> u_thread_valid d t s' = RV_OK \<and>
      evl s' = (evl s)(Immediate := evl s Immediate @ [ea]) \<and> ev_tc (evs s' ea) = t \<and> ev_flags (evs s' ea) = EF_READY \<and>
      ev_domain (evs s' ea) = d \<and> tc_dom (thr s' t) = d \<and> worker_nr (thr s' t) = FREE_WORKER \<and>
      iwi_of s d \<in> set (syslog s') \<and> this_domain s' = this_domain s \<and> locks s' = locks s \<and> wf_ev s'"
    by (simp add: u_thread_valid_def with_thread_def)
  show "\<exists>s'. tc_thread_new_ref_in_domain None cr nm d s = Inr (\<lparr>r_thr = None, r_domain = d, r_id = 0\<rparr>, s')"
    "\<exists>s'. tc_thread_new_ref_in_domain (Some (t, ea)) False nm d s = Inr (\<lparr>r_thr = None, r_domain = d, r_id = 0\<rparr>, s') \<and> O_thread t \<in> freed s'"
    by (simp_all add: tc_thread_new_ref_in_domain_def with_other_domain_def u_tc_thread_new_def u_tc_thread_setup_def op_defs upd_defs)
qed

theorem new_thread_correct_witness:
  "\<exists>r s'. tc_thread_new_ref_in_domain (Some (3, 40)) True ''t'' 0 (process_image\<lparr>sysres := (\<lambda>_. 8)\<rparr>) = Inr (r, s') \<and>
    r_id r \<noteq> 0 \<and> evl s' Immediate = [40] \<and> u_thread_valid 0 3 s' = RV_OK"
proof -
  let ?s = "process_image\<lparr>sysres := (\<lambda>_. 8)\<rparr>"
  have "wf_ev ?s" "lists_unlocked ?s" "fresh_thread 3 40 ?s" "eventfd_ok ?s" "free_lock ?s (L_domain 0)"
    by (simp_all add: wf_ev_def refs_def lists_unlocked_def fresh_thread_def free_lock_def eventfd_ok_def SIZEOF_EVENTFD_def)
  then show ?thesis using new_thread_correct [of ?s 3 40 0 "''t''"] by fastforce
qed

section \<open>The end of a thread\<close>

lemma wait_ref_stale:
  assumes "free_lock s (L_domain d)" and "t \<notin> set (d_threads (doms s d)) \<or> i \<noteq> 0 \<and> tc_id (thr s t) \<noteq> i"
  shows "wait_ref_enter e t d i s = Inr (RV_THREAD_NA, tc_event_init e s)"
  using assms
  by (auto simp: wait_ref_enter_def op_defs u_thread_valid_def free_lock_def tc_event_init_def upd_defs Let_def fun_upd_idem)

lemma calm_lock_domain: "calm tc e (s\<lparr>locks := (locks s)(L_domain d := v)\<rparr>) = calm tc e s"
  by (simp add: calm_def lists_unlocked_def signals_ok_def p2_ready_def free_lock_def)

lemma calm_event_init:
  assumes "calm tc e s"
  shows "calm tc e (tc_event_init e s)"
proof -
  have "wf_ev (tc_event_init e s) = wf_ev s" using assms by (intro wf_ev_cong_events) (auto simp: tc_event_init_def upd_defs calm_def)
  then show ?thesis
    using assms by (auto simp: calm_def tc_event_init_def upd_defs lists_unlocked_def signals_ok_def p2_ready_def free_lock_def)
qed

lemma wait_ref_queues:
  assumes c: "calm tc e s" and f: "free_lock s (L_domain d)" and v: "t \<in> set (d_threads (doms s d))" "i = 0 \<or> tc_id (thr s t) = i"
  obtains s1 where "wait_ref_enter e t d i s = Inr (RV_OK, s1)" and "waiting tc e s1" and "cr_current s1 = tc" and "p2_ready s1"
    and "ev_el (evs s1 e) = Some (Waiters (Exit_wq t))"
proof -
  let ?w = "Exit_wq t" and ?i = "tc_event_init e s"
  let ?u = "?i\<lparr>locks := (locks s)(L_domain d := Some (this_worker s))\<rparr>"
  have ci: "calm tc e ?i" by (rule calm_event_init [OF c])
  have l: "locks ?i = locks s" "this_worker ?i = this_worker s" "doms ?i = doms s" "thr ?i = thr s"
    by (simp_all add: tc_event_init_def upd_defs)
  have cu: "calm tc e ?u" using calm_lock_domain [of tc e ?i d "Some (this_worker s)"] ci l by simp
  let ?p = "prepared ?w e tc (ready e ?u)" and ?s1 = "(prepared ?w e tc (ready e ?i))\<lparr>locks := locks s\<rparr>"
  have pl: "?p\<lparr>locks := locks s\<rparr> = ?s1" "locks ?p = (locks s)(L_domain d := Some (this_worker s))"
    "?s1 = prepared ?w e tc (ready e ?i)"
    using l by (simp_all add: prepared_def Let_def ready_def link_def clear_woken_def upd_defs)
  have "wait_ref_enter e t d i s = Inr (RV_OK, ?p\<lparr>locks := locks s\<rparr>)"
    using prepare_calm [OF cu, of ?w] f v l pl(2)
    by (auto simp: wait_ref_enter_def op_defs u_thread_valid_def free_lock_def Let_def fun_upd_idem)
  moreover have "p2_ready ?s1" unfolding pl(3) using ci by (simp add: calm_def)
  moreover have "ev_el (evs ?s1 e) = Some (Waiters ?w)" by (simp add: prepared_def Let_def link_def upd_defs)
  ultimately show thesis
    using that [of ?s1] prepared_waiting [OF ci, of ?w] pl by simp
qed

text \<open>\<^verbatim>\<open>tc_thread_wait_ref\<close> on every branch: an empty reference is \<^verbatim>\<open>RV_OK\<close>; when the thread is not in the list of its domain, or another
  thread lives at its address, it returns \<^verbatim>\<open>RV_THREAD_NA\<close> at once; otherwise it waits for the end of that thread, and
  whatever happens meanwhile it returns \<^verbatim>\<open>RV_OK\<close> or, when a signal interrupted it, \<^verbatim>\<open>RV_INTR\<close>, with nothing left on any
  queue.\<close>

lemma thread_wait_ref_correct:
  assumes "calm tc e s" and "env_ok tc e env" and "\<And>d. free_lock s (L_domain d)"
  shows "case r_thr ref of
      None \<Rightarrow> tc_thread_wait_ref e ref (s, env) = Inr (RV_OK, (s, env))
    | Some t \<Rightarrow>
        if t \<notin> set (d_threads (doms s (r_domain ref))) \<or> r_id ref \<noteq> 0 \<and> tc_id (thr s t) \<noteq> r_id ref
        then tc_thread_wait_ref e ref (s, env) = Inr (RV_THREAD_NA, (tc_event_init e s, env))
        else (\<exists>rv s' env'. tc_thread_wait_ref e ref (s, env) = Inr (rv, (s', env')) \<and> calm tc e s' \<and> rv \<in> {RV_OK, RV_INTR}) \<or>
          tc_thread_wait_ref e ref (s, env) = Inl Suspended"
proof (cases "r_thr ref")
  case None
  then show ?thesis by (simp add: tc_thread_wait_ref_def op_defs)
next
  case (Some t)
  let ?d = "r_domain ref" and ?i = "r_id ref"
  show ?thesis
  proof (cases "t \<notin> set (d_threads (doms s ?d)) \<or> ?i \<noteq> 0 \<and> tc_id (thr s t) \<noteq> ?i")
    case True
    then show ?thesis using wait_ref_stale [OF assms(3) True, of e] Some by (auto simp: tc_thread_wait_ref_def op_defs)
  next
    case False
    then obtain s1 where 1: "wait_ref_enter e t ?d ?i s = Inr (RV_OK, s1)" "waiting tc e s1" "cr_current s1 = tc" "p2_ready s1"
      "ev_el (evs s1 e) = Some (Waiters (Exit_wq t))"
      using wait_ref_queues [OF assms(1,3), of t ?d ?i] by auto
    have fin: "tc_waitq_finish_wait None e u = Inr (finished tc e u)" if "continued tc e u" for u
      using that by (intro finish_wait_eq) (simp add: continued_def)
    from 1(2,3) assms(2) 1(4,5) have "(\<exists>rv s' env'. tc_thread_wait_ref e ref (s, env) = Inr (rv, (s', env')) \<and> calm tc e s' \<and> rv \<in> {RV_OK, RV_INTR}) \<or>
        tc_thread_wait_ref e ref (s, env) = Inl Suspended"
    proof (cases rule: tc_scheduler_cases)
      case susp
      then show ?thesis using 1(1) Some by (simp add: tc_thread_wait_ref_def op_defs)
    next
      case (stay x)
      then show ?thesis
        using 1(1) Some fin [OF stay(3)] finished_calm [OF stay(3,4)]
        by (cases "finished tc e (picked tc x s1)") (simp add: tc_thread_wait_ref_def op_defs)
    next
      case (switch g env')
      then show ?thesis
        using 1(1) Some fin [OF switch(4)] finished_calm [OF switch(4,5)]
        by (cases "finished tc e (release_caller (g (switched_out s1)))") (simp add: tc_thread_wait_ref_def op_defs)
    qed
    then show ?thesis using False Some by (simp only: option.case if_False)
  qed
qed

lemma thread_wait_ref_correct_witness:
  "tc_thread_wait_ref 9 \<lparr>r_thr = Some 4, r_domain = 0, r_id = 6\<rparr> (contender\<lparr>doms := (\<lambda>_. zero_domain\<lparr>d_threads := [4]\<rparr>)\<rparr>, [\<lambda>_. handed_over]) =
    Inr (RV_THREAD_NA, (tc_event_init 9 (contender\<lparr>doms := (\<lambda>_. zero_domain\<lparr>d_threads := [4]\<rparr>)\<rparr>), [\<lambda>_. handed_over]))"
proof -
  let ?s = "contender\<lparr>doms := (\<lambda>_. zero_domain\<lparr>d_threads := [4]\<rparr>)\<rparr>"
  have "calm 0 9 ?s" using calm_contender
    by (simp add: calm_def lists_unlocked_def signals_ok_def p2_ready_def free_lock_def)
  moreover have "free_lock ?s (L_domain d)" for d by (simp add: contender_def free_lock_def)
  moreover have "tc_id (thr ?s 4) = 0" "d_threads (doms ?s 0) = [4]" by (simp_all add: contender_def)
  ultimately show ?thesis
    using thread_wait_ref_correct [of 0 9 ?s "[\<lambda>_. handed_over]" "\<lparr>r_thr = Some 4, r_domain = 0, r_id = 6\<rparr>"] env_handed_over by simp
qed

text \<open>Without a request in flight \<^verbatim>\<open>tc_aio_wait\<close> does not wait.\<close>

definition aio_idle :: "tid \<Rightarrow> tcr \<Rightarrow> bool" where
  "aio_idle tc s \<longleftrightarrow> (\<forall>i. tc_aio_data_done (Aio tc i) s \<noteq> Aio_pending)"

lemma aio_wait_idle:
  assumes "aio_idle (cr_current s) s"
  shows "\<exists>rv A. tc_aio_wait n e (s, env) = Inr (rv, (s\<lparr>aios := A\<rparr>, env))"
proof -
  let ?tc = "cr_current s"
  have slot: "\<exists>rv' A. aio_wait_slot n e ?tc i rv (u, env) = Inr (rv', (u\<lparr>aios := A\<rparr>, env)) \<and> aio_idle ?tc (u\<lparr>aios := A\<rparr>)"
    if "aio_idle ?tc u" for u i rv
  proof (cases "aio_notify (aios u (Aio ?tc i)) = None")
    case False
    then have "aio_wait_slot n e ?tc i rv (u, env) = Inr (rv, (u\<lparr>aios := aios u\<rparr>, env))" by (simp add: aio_wait_slot_def Let_def op_defs)
    then show ?thesis using that by (intro exI [of _ rv] exI [of _ "aios u"]) simp
  next
    case True
    let ?a = "aios u (Aio ?tc i)"
    let ?A = "(aios u)(Aio ?tc i := (if aio_done ?a = Aio_free then ?a\<lparr>aio_notify := None\<rparr> else ?a\<lparr>aio_notify := None, aio_done := Aio_free\<rparr>))"
    have "aio_done ?a \<noteq> Aio_pending" using that by (simp add: aio_idle_def tc_aio_data_done_def)
    then have "\<exists>rv'. aio_wait_slot n e ?tc i rv (u, env) = Inr (rv', (u\<lparr>aios := ?A\<rparr>, env))"
      using True by (cases "aio_done ?a = Aio_free")
        (simp_all add: aio_wait_slot_def op_defs Let_def tc_waitq_wait_event_def tc_aio_data_done_def upd_defs)
    moreover have "aio_idle ?tc (u\<lparr>aios := ?A\<rparr>)" using that by (simp add: aio_idle_def tc_aio_data_done_def)
    ultimately show ?thesis by blast
  qed
  have "\<exists>rv' A. aio_wait_loop n e ?tc is rv (u, env) = Inr (rv', (u\<lparr>aios := A\<rparr>, env))" if "aio_idle ?tc u" for "is" u rv
    using that
  proof (induction "is" arbitrary: u rv)
    case Nil
    then show ?case by (intro exI [of _ rv] exI [of _ "aios u"]) (simp add: op_defs)
  next
    case (Cons i "is")
    obtain rv1 A where 1: "aio_wait_slot n e ?tc i rv (u, env) = Inr (rv1, (u\<lparr>aios := A\<rparr>, env))" "aio_idle ?tc (u\<lparr>aios := A\<rparr>)"
      using slot [OF Cons.prems] by blast
    then show ?case using Cons.IH [OF 1(2), of rv1] by (auto simp: op_defs)
  qed
  from this [OF assms] show ?thesis by (simp add: tc_aio_wait_def rds_def tc_current_def)
qed


text \<open>Thread 0 ends while event 7 of thread 1 waits for it.\<close>

definition last_moment :: tcr where
  "last_moment = link 7 (Waiters (Exit_wq 0)) 1 (process_image\<lparr>sysres := (\<lambda>_. 8), doms := (\<lambda>_. zero_domain\<lparr>d_threads := [0]\<rparr>),
     aios := (\<lambda>_. \<lparr>aio_cb = Io_none, aio_res = 0, aio_res2 = 0, aio_done = Aio_done, aio_notify = None\<rparr>)\<rparr>)"


end
