(* ===== verification/Crew.thy ===== *)
theory Crew
  imports Threads
begin

text \<open>
  All workers together: a transition system whose state is the process, what each worker executes and where it is in the switch between
  coroutines. A step is what one worker does between two points where others can interfere: one critical section of a list lock, or one
  half of \<^verbatim>\<open>_switch_to\<close>, which takes the lock \<^verbatim>\<open>running\<close> of the coroutine it enters and gives back that of the coroutine it left only
  on the other stack. The comment in \<^verbatim>\<open>_switch_to\<close> names the danger: a thread that is about to leave its stack may be woken and dispatched by another
  worker. Shown: two workers never use the same stack, a stack is not freed while it is used, no thread sleeps while an event it waits for is
  pending, and whoever spins on \<^verbatim>\<open>running\<close> waits for a worker whose next steps do not wait.

  The set of threads is that of all threads that ever exist: creating one puts the first event of a thread that has none on the immediate list. Waits are not nested. What a thread can do is
  to begin and to end a wait, to wake others, to start others, and to end.
  Several events dispatched in one critical section of the immediate list are several steps here, and so are \<^verbatim>\<open>woken_by_tcfd\<close> and the alert that
  \<^verbatim>\<open>_run_immediate\<close> sends to another worker: they may come at more moments than in the code.
\<close>

section \<open>The two halves of a switch\<close>

definition switch_out :: "tid \<Rightarrow> unit tcop" where
  "switch_out new = block [
     whn (\<lambda>s. \<not> tc_cr (thr s new)) (msg_exit ''die!''),
     spin_lock (L_running new),
     mdf (\<lambda>s. s\<lparr>cr_caller_of := (cr_caller_of s)(new := cr_current s), cr_current := new\<rparr>)]"

definition switch_in :: "unit tcop" where
  "switch_in = rdm (\<lambda>s. spin_unlock (L_running (cr_caller s)))"

text \<open>The first half of \<^verbatim>\<open>switch_to\<close>, and of \<^verbatim>\<open>tc_setup\<close> what runs before the function of a new thread.\<close>

definition enter_thread :: "tid \<Rightarrow> unit tcop" where
  "enter_thread new = block [
     rdm (\<lambda>s. whn (\<lambda>s. worker_nr (thr s new) \<noteq> w_nr (cur_worker s) \<and> TF_AFFINE \<notin> tc_flags (thr s new))
       (mdf (upd_thr new (worker_nr_update (\<lambda>_. w_nr (cur_worker s)))))),
     rdm (\<lambda>s. mdf (upd_thr new (last_worker_update (\<lambda>_. this_worker s)))),
     switch_out new]"

definition first_entry :: "unit tcop" where
  "first_entry = block [switch_in, mdf clear_woken]"

text \<open>They are the halves of the functions of the scheduler, which has what happens between them as its environment.\<close>

lemma u_switch_to_halves:
  "u_switch_to new (s, g # env) = (case switch_out new s of Inl f \<Rightarrow> Inl f
     | Inr (_, s1) \<Rightarrow> (case switch_in (g s1) of Inl f \<Rightarrow> Inl f | Inr (_, s2) \<Rightarrow> Inr ((), (s2, env))))"
  by (simp add: u_switch_to_def switch_out_def switch_in_def cr_call_def op_defs Let_def split: sum.splits option.splits)

lemma switch_to_halves:
  "switch_to new (s, g # env) = (case enter_thread new s of Inl f \<Rightarrow> Inl f
     | Inr (_, s1) \<Rightarrow> (case switch_in (g s1) of Inl f \<Rightarrow> Inl f | Inr (_, s2) \<Rightarrow> Inr ((), (s2, env))))"
  by (simp add: switch_to_def u_switch_to_def enter_thread_def switch_out_def switch_in_def cr_call_def op_defs Let_def
      split: sum.splits option.splits)

text \<open>The critical section of a worker that looks for work: in \<^verbatim>\<open>_run_immediate\<close> with the immediate list, in \<^verbatim>\<open>scheduler_part2\<close> with that of a descriptor.\<close>

definition dispatch :: "elist \<Rightarrow> eid \<Rightarrow> tid option tcop" where
  "dispatch l e = thn (spin_lock (L_list l)) (bnd (run_or_queue e) (\<lambda>r. thn (spin_unlock (L_list l)) (ret r)))"

text \<open>An event of a thread on the immediate list: at the end of \<^verbatim>\<open>tc_die\<close> it lets the scheduler free the thread, in \<^verbatim>\<open>tc_thread_new_ref_in_domain\<close> it
  makes a new thread run.\<close>

definition notice :: "tc_event_flag \<Rightarrow> tid \<Rightarrow> unit tcop" where
  "notice fl tc = block [
     rdm (\<lambda>s. add_event_cr (tc_e (thr s tc)) 0 fl tc),
     rdm (\<lambda>s. u_iwi_immediate (this_domain s))]"

definition exit_notice :: "tid \<Rightarrow> unit tcop" where
  "exit_notice = notice EF_EXITING"

definition start_notice :: "tid \<Rightarrow> unit tcop" where
  "start_notice = notice EF_READY"

definition begin_wait :: "wqid \<Rightarrow> eid \<Rightarrow> unit tcop" where
  "begin_wait wq e = block [mdf (tc_event_init e), tc_waitq_prepare_to_wait wq e]"

section \<open>The system\<close>

text \<open>
  Where a worker is. In \<^verbatim>\<open>scheduler_part2\<close>: looking for work; with a thread to switch to; with a thread to free. On the stack of a thread: just
  arrived; executing it; back from \<^verbatim>\<open>tc_scheduler\<close>; about to switch to \<^verbatim>\<open>scheduler_part2\<close>. And arrived there, with the thread it left.
\<close>

datatype place = At_part2 | To_thread tid | To_free tid | At_entry | Runs | Returned | To_part2 | Left tid

fun on_part2 :: "place \<Rightarrow> bool" where
  "on_part2 At_part2 = True"
| "on_part2 (To_thread t) = True"
| "on_part2 (To_free t) = True"
| "on_part2 (Left t) = True"
| "on_part2 _ = False"

text \<open>\<open>cur\<close> is the thread-local \<^verbatim>\<open>__cr_current\<close> of each worker. \<open>waits\<close> and \<open>ended\<close> follow the threads: the event of the wait a thread is in, and
  the threads that have put up their exit notice.\<close>

record crew =
  proc :: tcr
  cur :: "wid \<Rightarrow> tid"
  place_of :: "wid \<Rightarrow> place"
  home :: "wid \<Rightarrow> did"
  waits :: "tid \<Rightarrow> eid option"
  ended :: "tid set"

definition view :: "wid \<Rightarrow> crew \<Rightarrow> tcr" where
  "view w c = (proc c)\<lparr>this_worker := w, cr_current := cur c w, this_domain := home c w\<rparr>"

definition move_to :: "wid \<Rightarrow> place \<Rightarrow> tcr \<Rightarrow> crew \<Rightarrow> crew" where
  "move_to w p s c = c\<lparr>proc := s, cur := (cur c)(w := cr_current s), place_of := (place_of c)(w := p)\<rparr>"

inductive crew_step :: "wid set \<Rightarrow> tid set \<Rightarrow> crew \<Rightarrow> crew \<Rightarrow> bool" for W T where
  dispatch_none: "w \<in> W \<Longrightarrow> place_of c w = At_part2 \<Longrightarrow> ev_el (evs (proc c) e) = Some l \<Longrightarrow> (\<forall>t. l \<noteq> Pending t) \<Longrightarrow> (\<forall>q. l \<noteq> Waiters q) \<Longrightarrow>
    dispatch l e (view w c) = Inr (None, s) \<Longrightarrow> crew_step W T c (move_to w At_part2 s c)"
| dispatch_some: "w \<in> W \<Longrightarrow> place_of c w = At_part2 \<Longrightarrow> ev_el (evs (proc c) e) = Some l \<Longrightarrow> (\<forall>t. l \<noteq> Pending t) \<Longrightarrow> (\<forall>q. l \<noteq> Waiters q) \<Longrightarrow>
    dispatch l e (view w c) = Inr (Some t, s) \<Longrightarrow>
    crew_step W T c (move_to w (if ev_flags (evs s e) = EF_EXITING then To_free t else To_thread t) s c)"
| enter: "w \<in> W \<Longrightarrow> place_of c w = To_thread t \<Longrightarrow> enter_thread t (view w c) = Inr ((), s) \<Longrightarrow> crew_step W T c (move_to w At_entry s c)"
| entry_first: "w \<in> W \<Longrightarrow> place_of c w = At_entry \<Longrightarrow> waits c (cur c w) = None \<Longrightarrow> first_entry (view w c) = Inr ((), s) \<Longrightarrow>
    crew_step W T c (move_to w Runs s c)"
| entry_again: "w \<in> W \<Longrightarrow> place_of c w = At_entry \<Longrightarrow> waits c (cur c w) \<noteq> None \<Longrightarrow> switch_in (view w c) = Inr ((), s) \<Longrightarrow>
    crew_step W T c (move_to w Returned s c)"
| prepare: "w \<in> W \<Longrightarrow> place_of c w = Runs \<Longrightarrow> waits c (cur c w) = None \<Longrightarrow> ev_el (evs (proc c) e) = None \<Longrightarrow>
    (\<forall>t. waits c t \<noteq> Some e) \<Longrightarrow> (\<forall>t \<in> T. tc_e (thr (proc c) t) \<noteq> e) \<Longrightarrow> begin_wait wq e (view w c) = Inr ((), s) \<Longrightarrow>
    crew_step W T c ((move_to w Runs s c)\<lparr>waits := (waits c)(cur c w := Some e)\<rparr>)"
| schedule: "w \<in> W \<Longrightarrow> place_of c w = Runs \<Longrightarrow> waits c (cur c w) \<noteq> None \<Longrightarrow> sched_pick (view w c) = Inr (stay, s) \<Longrightarrow>
    crew_step W T c (move_to w (if stay then Returned else To_part2) s c)"
| finish: "w \<in> W \<Longrightarrow> place_of c w = Runs \<or> place_of c w = Returned \<Longrightarrow> waits c (cur c w) = Some e \<Longrightarrow>
    tc_waitq_finish_wait wq e (view w c) = Inr (b, s) \<Longrightarrow>
    crew_step W T c ((move_to w Runs s c)\<lparr>waits := (waits c)(cur c w := None)\<rparr>)"
| leave: "w \<in> W \<Longrightarrow> place_of c w = To_part2 \<Longrightarrow> switch_out (sched_p2 (wrk (proc c) w)) (view w c) = Inr ((), s) \<Longrightarrow>
    crew_step W T c (move_to w (Left (cur c w)) s c)"
| left: "w \<in> W \<Longrightarrow> place_of c w = Left t \<Longrightarrow> switch_in (view w c) = Inr ((), s) \<Longrightarrow> crew_step W T c (move_to w At_part2 s c)"
| wake_all: "w \<in> W \<Longrightarrow> place_of c w \<in> {At_part2, Runs} \<Longrightarrow> tc_waitq_wakeup_all wq (view w c) = Inr ((), s) \<Longrightarrow>
    crew_step W T c (move_to w (place_of c w) s c)"
| wake_one: "w \<in> W \<Longrightarrow> place_of c w \<in> {At_part2, Runs} \<Longrightarrow> tc_waitq_wakeup_one_owner wq m (view w c) = Inr ((), s) \<Longrightarrow>
    crew_step W T c (move_to w (place_of c w) s c)"
| alert: "w \<in> W \<Longrightarrow> place_of c w \<in> {At_part2, Runs} \<union> range To_thread \<Longrightarrow> u_iwi_immediate d (view w c) = Inr ((), s) \<Longrightarrow>
    crew_step W T c (move_to w (place_of c w) s c)"
| note_fd: "w \<in> W \<Longrightarrow> place_of c w = At_part2 \<Longrightarrow>
    crew_step W T c (move_to w At_part2 (upd_cur_worker (woken_by_tcfd_update (\<lambda>_. f)) (view w c)) c)"
| spawn: "w \<in> W \<Longrightarrow> place_of c w = Runs \<Longrightarrow> t \<in> T \<Longrightarrow> TF_RUNNING \<notin> tc_flags (thr (proc c) t) \<Longrightarrow> waits c t = None \<Longrightarrow>
    start_notice t (view w c) = Inr ((), s) \<Longrightarrow> crew_step W T c (move_to w Runs s c)"
| die: "w \<in> W \<Longrightarrow> place_of c w = Runs \<Longrightarrow> waits c (cur c w) = None \<Longrightarrow> refcnt (thr (proc c) (cur c w)) \<le> 0 \<Longrightarrow>
    exit_notice (cur c w) (view w c) = Inr ((), s) \<Longrightarrow>
    crew_step W T c ((move_to w To_part2 s c)\<lparr>ended := insert (cur c w) (ended c)\<rparr>)"
| free: "w \<in> W \<Longrightarrow> place_of c w = To_free t \<Longrightarrow> tc_thread_free t (view w c) = Inr ((), s) \<Longrightarrow> crew_step W T c (move_to w At_part2 s c)"

section \<open>The invariant\<close>

text \<open>The worker is on its way to the thread or executes it, and the thread is marked as running.\<close>

definition busy :: "crew \<Rightarrow> wid \<Rightarrow> tid \<Rightarrow> bool" where
  "busy c w t \<longleftrightarrow> place_of c w = To_thread t \<or> (place_of c w \<in> {At_entry, Runs, Returned} \<and> cur c w = t)"

text \<open>The locks \<^verbatim>\<open>running\<close> a worker has: of the coroutine it executes, and in the middle of a switch of the one it left.\<close>

definition has_running :: "crew \<Rightarrow> wid \<Rightarrow> tid \<Rightarrow> bool" where
  "has_running c w t \<longleftrightarrow> t = cur c w \<or> (place_of c w = At_entry \<and> t = sched_p2 (wrk (proc c) w)) \<or> place_of c w = Left t"

definition gone :: "crew \<Rightarrow> tid \<Rightarrow> bool" where
  "gone c t \<longleftrightarrow> O_thread t \<in> freed (proc c) \<or> O_cr t \<in> freed (proc c)"

definition stacks_ok :: "wid set \<Rightarrow> tid set \<Rightarrow> crew \<Rightarrow> bool" where
  "stacks_ok W T c \<longleftrightarrow>
     inj_on (\<lambda>w. sched_p2 (wrk (proc c) w)) W \<and>
     (\<forall>w \<in> W. sched_p2 (wrk (proc c) w) \<notin> T \<and> tc_cr (thr (proc c) (sched_p2 (wrk (proc c) w))) \<and> \<not> gone c (sched_p2 (wrk (proc c) w))) \<and>
     (\<forall>w \<in> W. if on_part2 (place_of c w) then cur c w = sched_p2 (wrk (proc c) w) else cur c w \<in> T) \<and>
     (\<forall>t. \<not> gone c t \<longrightarrow> (\<forall>w. locks (proc c) (L_running t) = Some w \<longleftrightarrow> w \<in> W \<and> has_running c w t)) \<and>
     (\<forall>w \<in> W. place_of c w = At_entry \<longrightarrow> cr_caller_of (proc c) (cur c w) = sched_p2 (wrk (proc c) w)) \<and>
     (\<forall>w \<in> W. \<forall>t. place_of c w = Left t \<longrightarrow> t \<in> T \<and> cr_caller_of (proc c) (sched_p2 (wrk (proc c) w)) = t)"

definition flags_ok :: "wid set \<Rightarrow> tid set \<Rightarrow> crew \<Rightarrow> bool" where
  "flags_ok W T c \<longleftrightarrow> ended c \<subseteq> T \<and>
     (\<forall>t \<in> T. TF_RUNNING \<in> tc_flags (thr (proc c) t) \<longleftrightarrow> t \<in> ended c \<or> (\<exists>w \<in> W. busy c w t)) \<and>
     (\<forall>w \<in> W. \<forall>t. busy c w t \<longrightarrow> t \<in> T - ended c \<and> (\<forall>w' \<in> W. busy c w' t \<longrightarrow> w' = w))"

definition exits_ok :: "wid set \<Rightarrow> tid set \<Rightarrow> crew \<Rightarrow> bool" where
  "exits_ok W T c \<longleftrightarrow>
     (\<forall>t. gone c t \<longrightarrow> t \<in> ended c \<and> (\<forall>w \<in> W. cur c w \<noteq> t \<and> place_of c w \<noteq> Left t)) \<and>
     (\<forall>t \<in> T. \<not> gone c t \<longrightarrow> tc_cr (thr (proc c) t)) \<and>
     (\<forall>w \<in> W. \<forall>t. place_of c w = To_free t \<longrightarrow> t \<in> ended c \<and> \<not> gone c t \<and> (\<forall>w' \<in> W. place_of c w' = To_free t \<longrightarrow> w' = w)) \<and>
     (\<forall>e. ev_el (evs (proc c) e) \<noteq> None \<longrightarrow> ev_flags (evs (proc c) e) = EF_EXITING \<longrightarrow>
        (let t = ev_tc (evs (proc c) e) in ev_el (evs (proc c) e) = Some Immediate \<and> e = tc_e (thr (proc c) t) \<and>
          t \<in> ended c \<and> \<not> gone c t \<and> (\<forall>w \<in> W. place_of c w \<noteq> To_free t)))"

text \<open>No pending event would make the thread continue.\<close>

definition deaf :: "tcr \<Rightarrow> tid \<Rightarrow> bool" where
  "deaf s t \<longleftrightarrow> (\<forall>x. ev_el (evs s x) = Some (Pending t) \<longrightarrow>
     ev_flags (evs s x) \<noteq> EF_SIGNAL \<and> (\<exists>tp. event_stack (thr s t) = Some tp \<and> tp \<noteq> x))"

text \<open>The worker remembers the event that made the thread continue.\<close>

definition woken_for :: "crew \<Rightarrow> wid \<Rightarrow> tid \<Rightarrow> bool" where
  "woken_for c w t \<longleftrightarrow> (\<exists>x. woken_by_event (wrk (proc c) w) = Some x \<and>
     (waits c t = None \<or> waits c t = Some x \<or> (ev_flags (evs (proc c) x) = EF_SIGNAL \<and> ev_el (evs (proc c) x) \<noteq> None)))"

definition events_ok :: "wid set \<Rightarrow> tid set \<Rightarrow> crew \<Rightarrow> bool" where
  "events_ok W T c \<longleftrightarrow> wf_ev (proc c) \<and> lists_unlocked (proc c) \<and> signals_ok (proc c) \<and> eventfd_ok (proc c) \<and>
     (\<forall>e. ev_el (evs (proc c) e) \<noteq> None \<longrightarrow> ev_tc (evs (proc c) e) \<in> T)"

definition waits_ok :: "wid set \<Rightarrow> tid set \<Rightarrow> crew \<Rightarrow> bool" where
  "waits_ok W T c \<longleftrightarrow>
     (\<forall>t e. waits c t = Some e \<longrightarrow> t \<in> T - ended c \<and> event_stack (thr (proc c) t) = Some e \<and> ev_tc (evs (proc c) e) = t \<and>
        ev_flags (evs (proc c) e) = EF_READY \<and> (\<forall>t' \<in> T. tc_e (thr (proc c) t') \<noteq> e) \<and>
        (ev_el (evs (proc c) e) \<noteq> None \<or> (\<exists>w \<in> W. busy c w t \<and> place_of c w \<noteq> Runs \<and> woken_by_event (wrk (proc c) w) = Some e))) \<and>
     (\<forall>t \<in> T - ended c. (\<forall>w \<in> W. \<not> busy c w t) \<longrightarrow> deaf (proc c) t) \<and>
     (\<forall>w \<in> W. \<forall>t. busy c w t \<longrightarrow> place_of c w \<noteq> Runs \<longrightarrow> woken_for c w t) \<and>
     (\<forall>w \<in> W. place_of c w = Runs \<longrightarrow> waits c (cur c w) \<noteq> None \<longrightarrow> woken_by_event (wrk (proc c) w) = None)"

definition crew_inv :: "wid set \<Rightarrow> tid set \<Rightarrow> crew \<Rightarrow> bool" where
  "crew_inv W T c \<longleftrightarrow> stacks_ok W T c \<and> flags_ok W T c \<and> exits_ok W T c \<and> events_ok W T c \<and> waits_ok W T c"


lemma view_simps [simp]:
  "evs (view w c) = evs (proc c)" "evl (view w c) = evl (proc c)" "thr (view w c) = thr (proc c)" "wrk (view w c) = wrk (proc c)"
  "locks (view w c) = locks (proc c)" "freed (view w c) = freed (proc c)" "this_worker (view w c) = w" "cr_current (view w c) = cur c w"
  "cr_caller_of (view w c) = cr_caller_of (proc c)" "sysres (view w c) = sysres (proc c)" "immediate_count (view w c) = immediate_count (proc c)"
  "this_domain (view w c) = home c w" "doms (view w c) = doms (proc c)"
  by (simp_all add: view_def)

lemma view_preds [simp]:
  "wf_ev (view w c) = wf_ev (proc c)" "lists_unlocked (view w c) = lists_unlocked (proc c)" "signals_ok (view w c) = signals_ok (proc c)"
  "eventfd_ok (view w c) = eventfd_ok (proc c)"
  by (rule wf_ev_cong) (simp_all add: lists_unlocked_def signals_ok_def eventfd_ok_def)

lemma move_to_simps [simp]:
  "proc (move_to w p s c) = s" "cur (move_to w p s c) = (cur c)(w := cr_current s)" "place_of (move_to w p s c) = (place_of c)(w := p)"
  "home (move_to w p s c) = home c" "waits (move_to w p s c) = waits c" "ended (move_to w p s c) = ended c"
  by (simp_all add: move_to_def)

lemma move_ended: "move_to w p s (c\<lparr>ended := E\<rparr>) = (move_to w p s c)\<lparr>ended := E\<rparr>"
  by (simp add: move_to_def)

section \<open>What the steps change\<close>

text \<open>A step of the event queues leaves the stacks alone, a half of a switch leaves the event queues alone.\<close>

definition same_stacks :: "tcr \<Rightarrow> tcr \<Rightarrow> bool" where
  "same_stacks s s' \<longleftrightarrow> (\<forall>t. locks s' (L_running t) = locks s (L_running t) \<and> tc_cr (thr s' t) = tc_cr (thr s t) \<and> tc_e (thr s' t) = tc_e (thr s t)) \<and>
     (\<forall>w. sched_p2 (wrk s' w) = sched_p2 (wrk s w)) \<and> cr_caller_of s' = cr_caller_of s \<and> freed s' = freed s \<and> cr_current s' = cr_current s"

definition same_queues :: "tcr \<Rightarrow> tcr \<Rightarrow> bool" where
  "same_queues s s' \<longleftrightarrow> evs s' = evs s \<and> evl s' = evl s \<and> immediate_count s' = immediate_count s \<and> sysres s' = sysres s \<and>
     (\<forall>l. locks s' (L_list l) = locks s (L_list l)) \<and>
     (\<forall>t. refcnt (thr s' t) = refcnt (thr s t) \<and> event_stack (thr s' t) = event_stack (thr s t) \<and> tc_e (thr s' t) = tc_e (thr s t))"

lemma dispatched_locks:
  "dispatched e l (s\<lparr>locks := k\<rparr>) = map_prod id (\<lambda>u. u\<lparr>locks := k\<rparr>) (dispatched e l s)"
  by (simp add: dispatched_def Let_def sched_push_locks)

lemma dispatch_eq:
  assumes "wf_ev s" and un: "lists_unlocked s" and "signals_ok s" and "ev_el (evs s e) = Some l"
    and l: "\<forall>t. l \<noteq> Pending t" "\<forall>q. l \<noteq> Waiters q" and "ev_flags (evs s e) = EF_EXITING \<longrightarrow> l = Immediate"
  shows "dispatch l e s = Inr (dispatched e l s)"
proof -
  let ?k = "(locks s)(L_list l := Some (this_worker s))"
  have fr: "locks s (L_list x) = None" for x using un by (simp add: lists_unlocked_def)
  then have k: "?k(L_list l := None) = locks s" by (simp add: fun_eq_iff)
  have "dispatchable e l (s\<lparr>locks := ?k\<rparr>)"
    using assms fr by (auto simp: dispatchable_def holds_def free_lock_def signals_ok_def) (metis (no_types))
  from run_or_queue_eq [OF this] have "run_or_queue e (s\<lparr>locks := ?k\<rparr>) = Inr (map_prod id (\<lambda>u. u\<lparr>locks := ?k\<rparr>) (dispatched e l s))"
    by (simp add: dispatched_locks)
  moreover have "(snd (dispatched e l s))\<lparr>locks := locks s\<rparr> = snd (dispatched e l s)"
    by (simp add: dispatched_def Let_def)
  ultimately show ?thesis using fr k by (cases "dispatched e l s") (simp add: dispatch_def op_defs)
qed


lemma dispatched_facts:
  fixes s e l
  defines "t \<equiv> ev_tc (evs s e)" and "u \<equiv> snd (dispatched e l s)"
  assumes wf: "wf_ev s" and el: "ev_el (evs s e) = Some l" and sg: "signals_ok s"
  shows "same_stacks s u"
    and "ev_tc (evs u x) = ev_tc (evs s x)" and "ev_flags (evs u x) = ev_flags (evs s x)"
    and "event_stack (thr u y) = event_stack (thr s y)" and "sysres u = sysres s" and "locks u = locks s" and "this_worker u = this_worker s"
    and "ev_el (evs u x) = (if x \<noteq> e then ev_el (evs s x) else if ev_flags (evs s e) = EF_EXITING then None
      else if must_queue e t s then Some (Pending t)
      else if ev_flags (evs s e) = EF_SIGNAL then Some (Waiters (Sig_wq (the (signal_of (evs s e))))) else None)"
    and "tc_flags (thr u y) = (if ev_flags (evs s e) \<noteq> EF_EXITING \<and> \<not> must_queue e t s \<and> y = t then insert TF_RUNNING (tc_flags (thr s y))
      else tc_flags (thr s y))"
    and "woken_by_event (wrk u w) = (if ev_flags (evs s e) \<noteq> EF_EXITING \<and> \<not> must_queue e t s \<and> w = this_worker s then Some e
      else woken_by_event (wrk s w))"
    and "fst (dispatched e l s) = (if ev_flags (evs s e) \<noteq> EF_EXITING \<and> must_queue e t s then None else Some t)"
    and "signals_ok u"
proof -
  note d = dispatched_def Let_def unlink_def relink_def relink_to_def woken_by_def stash_tcfd_def set_running_def upd_defs
  show "same_stacks s u" by (auto simp: u_def same_stacks_def d)
  show fl: "\<And>x. ev_tc (evs u x) = ev_tc (evs s x)" "\<And>x. ev_flags (evs u x) = ev_flags (evs s x)"
    "event_stack (thr u y) = event_stack (thr s y)" "sysres u = sysres s" "locks u = locks s" "this_worker u = this_worker s"
    by (auto simp: u_def d)
  show ell: "\<And>x. ev_el (evs u x) = (if x \<noteq> e then ev_el (evs s x) else if ev_flags (evs s e) = EF_EXITING then None
      else if must_queue e t s then Some (Pending t)
      else if ev_flags (evs s e) = EF_SIGNAL then Some (Waiters (Sig_wq (the (signal_of (evs s e))))) else None)"
    by (auto simp: u_def t_def d)
  show "tc_flags (thr u y) = (if ev_flags (evs s e) \<noteq> EF_EXITING \<and> \<not> must_queue e t s \<and> y = t then insert TF_RUNNING (tc_flags (thr s y))
      else tc_flags (thr s y))" by (auto simp: u_def t_def d)
  show "woken_by_event (wrk u w) = (if ev_flags (evs s e) \<noteq> EF_EXITING \<and> \<not> must_queue e t s \<and> w = this_worker s then Some e
      else woken_by_event (wrk s w))" by (auto simp: u_def t_def d)
  show "fst (dispatched e l s) = (if ev_flags (evs s e) \<noteq> EF_EXITING \<and> must_queue e t s then None else Some t)"
    by (auto simp: t_def d)
  have "ev_flags (evs s x) = EF_SIGNAL \<Longrightarrow> ev_u (evs u x) = ev_u (evs s x)" for x by (auto simp: u_def d)
  then show "signals_ok u"
    by (intro signals_ok_mono [OF sg]) (use el in \<open>auto simp: fl ell split: if_splits\<close>)
qed

lemma deaf_pick:
  assumes "wf_ev s"
  shows "pick_pending s t = None \<longleftrightarrow> deaf s t"
proof -
  have m: "x \<in> set (evl s (Pending t)) \<longleftrightarrow> ev_el (evs s x) = Some (Pending t)" for x using wf_evD(2) [OF assms] .
  show ?thesis
  proof (cases "event_stack (thr s t)")
    case None
    then show ?thesis using m by (cases "evl s (Pending t)") (auto simp: pick_pending_def deaf_def)
  next
    case (Some tp)
    show ?thesis
    proof (cases "tp \<in> set (evl s (Pending t))")
      case True
      then have "pick_pending s t = Some tp" using Some find_pending_top [OF True, of s None]
        by (cases "evl s (Pending t)") (auto simp: pick_pending_def)
      then show ?thesis using True Some m by (auto simp: deaf_def)
    next
      case False
      then have "pick_pending s t = None \<longleftrightarrow> (\<forall>x \<in> set (evl s (Pending t)). ev_flags (evs s x) \<noteq> EF_SIGNAL)"
        using Some find_pending_None [OF False, of s None] by (cases "evl s (Pending t)") (auto simp: pick_pending_def)
      then show ?thesis using False Some m by (auto simp: deaf_def)
    qed
  qed
qed

lemma picked_facts:
  fixes s x t
  defines "u \<equiv> picked t x s"
  assumes wf: "wf_ev s" and p: "pick_pending s t = Some x" and sg: "signals_ok s"
  shows "same_stacks s u" and "ev_tc (evs u y) = ev_tc (evs s y)" and "ev_flags (evs u y) = ev_flags (evs s y)"
    and "event_stack (thr u v) = event_stack (thr s v)" and "tc_flags (thr u v) = tc_flags (thr s v)" and "sysres u = sysres s" and "locks u = locks s"
    and "ev_el (evs u y) = (if y \<noteq> x then ev_el (evs s y)
      else if ev_flags (evs s x) = EF_SIGNAL then Some (Waiters (Sig_wq (the (signal_of (evs s x))))) else None)"
    and "woken_by_event (wrk u w) = (if w = this_worker s then Some x else woken_by_event (wrk s w))"
    and "signals_ok u" and "wf_ev u" and "ev_el (evs s x) = Some (Pending t)"
proof -
  note d = picked_def Let_def unlink_def relink_def relink_to_def woken_by_def woken_by_fd_def upd_defs
  show el: "ev_el (evs s x) = Some (Pending t)" using pick_pending_in [OF p] wf_evD(2) [OF wf] by blast
  show "same_stacks s u" by (auto simp: u_def same_stacks_def d)
  show f: "\<And>y. ev_tc (evs u y) = ev_tc (evs s y)" "\<And>y. ev_flags (evs u y) = ev_flags (evs s y)"
    "event_stack (thr u v) = event_stack (thr s v)" "tc_flags (thr u v) = tc_flags (thr s v)" "sysres u = sysres s" "locks u = locks s"
    by (auto simp: u_def d)
  show ell: "\<And>y. ev_el (evs u y) = (if y \<noteq> x then ev_el (evs s y)
      else if ev_flags (evs s x) = EF_SIGNAL then Some (Waiters (Sig_wq (the (signal_of (evs s x))))) else None)"
    by (auto simp: u_def d)
  show "woken_by_event (wrk u w) = (if w = this_worker s then Some x else woken_by_event (wrk s w))" by (auto simp: u_def d)
  have "ev_u (evs u y) = ev_u (evs s y)" for y by (auto simp: u_def d)
  then show "signals_ok u" by (intro signals_ok_mono [OF sg]) (use el in \<open>auto simp: f ell split: if_splits\<close>)
  show "wf_ev u" using wf el by (simp add: u_def picked_def Let_def wf_ev_relink wf_ev_unlink)
qed


text \<open>What the operations on wait queues leave alone.\<close>

definition same_owners :: "tcr \<Rightarrow> tcr \<Rightarrow> bool" where
  "same_owners s s' \<longleftrightarrow> same_stacks s s' \<and> sysres s' = sysres s \<and> (\<forall>t. tc_flags (thr s' t) = tc_flags (thr s t)) \<and>
     (\<forall>t. event_stack (thr s' t) = event_stack (thr s t)) \<and> (\<forall>w. woken_by_event (wrk s' w) = woken_by_event (wrk s w)) \<and>
     (\<forall>x. ev_tc (evs s' x) = ev_tc (evs s x) \<and> ev_flags (evs s' x) = ev_flags (evs s x) \<and> ev_u (evs s' x) = ev_u (evs s x))"

lemma same_owners_trans: "same_owners s t \<Longrightarrow> same_owners t u \<Longrightarrow> same_owners s u"
  by (simp add: same_owners_def same_stacks_def)

lemma same_owners_wake_first: "same_owners s (wake_first wq e al s)"
  by (simp add: same_owners_def same_stacks_def wake_first_def Let_def count_signal_def relink_hd_def relink_to_def upd_defs)

lemma same_owners_loop: "eventfd_ok s \<Longrightarrow> wakeup_all_loop wq es al s = Inr (r, u) \<Longrightarrow> same_owners s u"
proof (induction es arbitrary: s al)
  case Nil
  then show ?case by (simp add: op_defs same_owners_def same_stacks_def)
next
  case (Cons e es)
  have "same_owners (wake_first wq e al s) u"
    using Cons.prems wakeup_all_loop_Cons [OF Cons.prems(1), of wq e es al] by (intro Cons.IH) auto
  with same_owners_wake_first show ?case by (rule same_owners_trans)
qed

lemma wakeup_all_facts:
  assumes wf: "wf_ev s" and un: "lists_unlocked s" and ok: "eventfd_ok s" and r: "tc_waitq_wakeup_all wq s = Inr ((), u)"
  shows "same_owners s u" and "wf_ev u" and "locks u = locks s"
    and "ev_el (evs u x) = ev_el (evs s x) \<or> (ev_el (evs s x) = Some (Waiters wq) \<and> ev_el (evs u x) = Some Immediate)"
proof -
  have f: "free_lock s (L_list Immediate)" "free_lock s (L_list (Waiters wq))" using un by (auto simp: lists_unlocked_def free_lock_def)
  obtain s' where s': "tc_waitq_wakeup_all wq s = Inr ((), s')" "wf_ev s'" "locks s' = locks s"
    "evl s' = (evl s)(Waiters wq := [], Immediate := rev (evl s (Waiters wq)) @ evl s Immediate)"
    by (rule wakeup_all_result [OF wf f ok]) blast
  then show w: "wf_ev u" and "locks u = locks s" using r by simp_all
  have m: "ev_el (evs u x) = Some l \<longleftrightarrow> x \<in> set (evl u l)" "ev_el (evs s x) = Some l \<longleftrightarrow> x \<in> set (evl s l)" for l
    using wf_evD(2) [OF w] wf_evD(2) [OF wf] by auto
  have e: "evl u = (evl s)(Waiters wq := [], Immediate := rev (evl s (Waiters wq)) @ evl s Immediate)" using s' r by simp
  show "ev_el (evs u x) = ev_el (evs s x) \<or> (ev_el (evs s x) = Some (Waiters wq) \<and> ev_el (evs u x) = Some Immediate)"
  proof (cases "ev_el (evs s x)")
    case None
    then have "x \<notin> set (evl s l)" for l using m(2) by auto
    then have "ev_el (evs u x) \<noteq> Some l" for l using m(1) [of l] e by (auto split: if_splits)
    then show ?thesis using None by (cases "ev_el (evs u x)") auto
  next
    case (Some l)
    then have "x \<in> set (evl s l)" using m(2) by simp
    then have "ev_el (evs u x) = Some (if l = Waiters wq then Immediate else l)" using m(1) e by auto
    then show ?thesis using Some by auto
  qed
  let ?k = "(locks s)(L_list Immediate := Some (this_worker s), L_list (Waiters wq) := Some (this_worker s))"
  let ?s = "s\<lparr>locks := ?k\<rparr>"
  obtain al s1 where l: "wakeup_all_loop wq (evl s (Waiters wq)) [] ?s = Inr (al, s1)" "locks s1 = ?k" "sysres s1 = sysres s"
    using wakeup_all_loop_result [of ?s wq "evl s (Waiters wq)" "[]"] wf ok by auto
  have k: "?k(L_list (Waiters wq) := None, L_list Immediate := None) = locks s" using f by (simp add: free_lock_def fun_eq_iff)
  have "eventfd_ok (s1\<lparr>locks := locks s\<rparr>)" using ok l(3) by (simp add: eventfd_ok_def)
  then have "u = s1\<lparr>locks := locks s, syslog := syslog s1 @ map (iwi_of (s1\<lparr>locks := locks s\<rparr>)) al\<rparr>"
    using r l(1,2) f k iwi_all [of "s1\<lparr>locks := locks s\<rparr>" al] by (simp add: tc_waitq_wakeup_all_def op_defs free_lock_def)
  moreover have "same_owners ?s s1" by (rule same_owners_loop [OF _ l(1)]) (use ok in simp)
  ultimately show "same_owners s u" using l(2) by (auto simp: same_owners_def same_stacks_def)
qed

lemma wakeup_one_facts:
  assumes wf: "wf_ev s" and un: "lists_unlocked s" and ok: "eventfd_ok s" and r: "tc_waitq_wakeup_one_owner wq m s = Inr ((), u)"
  shows "same_owners s u" and "wf_ev u" and "locks u = locks s"
    and "ev_el (evs u x) = ev_el (evs s x) \<or> (ev_el (evs s x) = Some (Waiters wq) \<and> ev_el (evs u x) = Some Immediate)"
proof -
  have f: "free_lock s (L_list Immediate)" "free_lock s (L_list (Waiters wq))" using un by (auto simp: lists_unlocked_def free_lock_def)
  have "same_owners s u \<and> wf_ev u \<and> locks u = locks s \<and>
    (ev_el (evs u x) = ev_el (evs s x) \<or> (ev_el (evs s x) = Some (Waiters wq) \<and> ev_el (evs u x) = Some Immediate))"
  proof (cases "evl s (Waiters wq)")
    case Nil
    then show ?thesis using wakeup_one_empty [OF f Nil, of m] r wf by (auto simp: same_owners_def same_stacks_def)
  next
    case (Cons e es)
    then have el: "ev_el (evs s e) = Some (Waiters wq)" using wf_evD(2) [OF wf, of e "Waiters wq"] by simp
    then have "wf_ev (relink_hd e (Waiters wq) Immediate s)" using wf_ev_relink_hd wf by simp
    then show ?thesis using wakeup_one_eq [OF f ok Cons, of m] r el
      by (auto simp: same_owners_def same_stacks_def relink_hd_def relink_to_def)
  qed
  then show "same_owners s u" and "wf_ev u" and "locks u = locks s"
    and "ev_el (evs u x) = ev_el (evs s x) \<or> (ev_el (evs s x) = Some (Waiters wq) \<and> ev_el (evs u x) = Some Immediate)" by auto
qed


lemma begin_wait_facts:
  assumes wf: "wf_ev s" and un: "lists_unlocked s" and sg: "signals_ok s" and e: "ev_el (evs s e) = None" and t: "O_thread (cr_current s) \<notin> freed s"
    and r: "begin_wait wq e s = Inr ((), u)"
  shows "same_stacks s u" and "wf_ev u" and "locks u = locks s" and "sysres u = sysres s" and "signals_ok u"
    and "ev_tc (evs u x) = (if x = e then cr_current s else ev_tc (evs s x))" and "ev_flags (evs u x) = (if x = e then EF_READY else ev_flags (evs s x))"
    and "ev_el (evs u x) = (if x = e then Some (Waiters wq) else ev_el (evs s x))"
    and "event_stack (thr u y) = (if y = cr_current s then Some e else event_stack (thr s y))" and "tc_flags (thr u y) = tc_flags (thr s y)"
    and "woken_by_event (wrk u w) = (if w = this_worker s then None else woken_by_event (wrk s w))"
proof -
  let ?i = "tc_event_init e s"
  have i: "wf_ev ?i" by (subst wf_ev_cong_events [of _ s]) (use wf e in \<open>auto simp: tc_event_init_def upd_defs\<close>)
  have "tc_waitq_prepare_to_wait wq e ?i = Inr ((), prepared wq e (cr_current s) (ready e ?i))"
    using prepare_eq [of ?i wq e] un e t by (auto simp: tc_event_init_def upd_defs lists_unlocked_def free_lock_def)
  then have u: "u = prepared wq e (cr_current s) (ready e ?i)" using r by (simp add: begin_wait_def op_defs)
  note d = u prepared_def Let_def link_def ready_def tc_event_init_def clear_woken_def upd_defs
  show "wf_ev u" unfolding u by (rule wf_prepared) (use i in \<open>simp_all add: tc_event_init_def upd_defs\<close>)
  show "same_stacks s u" by (auto simp: same_stacks_def d)
  show f: "locks u = locks s" "sysres u = sysres s" "\<And>x. ev_tc (evs u x) = (if x = e then cr_current s else ev_tc (evs s x))"
    "\<And>x. ev_flags (evs u x) = (if x = e then EF_READY else ev_flags (evs s x))" "\<And>x. ev_el (evs u x) = (if x = e then Some (Waiters wq) else ev_el (evs s x))"
    "event_stack (thr u y) = (if y = cr_current s then Some e else event_stack (thr s y))" "tc_flags (thr u y) = tc_flags (thr s y)"
    "woken_by_event (wrk u w) = (if w = this_worker s then None else woken_by_event (wrk s w))"
    by (auto simp: d)
  have "x \<noteq> e \<Longrightarrow> ev_u (evs u x) = ev_u (evs s x)" for x by (auto simp: d)
  then show "signals_ok u" by (intro signals_ok_mono [OF sg]) (auto simp: f split: if_splits)
qed

lemma finish_wait_facts:
  assumes r: "resumed t e s" and sg: "signals_ok s"
    and wk: "\<not> expected t e s \<longrightarrow> (\<exists>w. woken_by_event (cur_worker s) = Some w \<and> ev_el (evs s w) \<noteq> None)"
    and f: "tc_waitq_finish_wait wq e s = Inr (b, u)"
  shows "same_stacks s u" and "wf_ev u" and "locks u = locks s" and "sysres u = sysres s" and "signals_ok u"
    and "ev_tc (evs u x) = ev_tc (evs s x) \<or> (ev_tc (evs u x) = t \<and> ev_flags (evs s x) = EF_SIGNAL)" and "ev_flags (evs u x) = ev_flags (evs s x)"
    and "ev_el (evs u e) = None"
    and "x \<noteq> e \<Longrightarrow> ev_el (evs u x) = ev_el (evs s x) \<or> (ev_flags (evs s x) = EF_SIGNAL \<and> ev_el (evs s x) \<noteq> None \<and> ev_el (evs u x) = Some (Pending t))"
    and "y \<noteq> t \<Longrightarrow> event_stack (thr u y) = event_stack (thr s y)" and "tc_flags (thr u y) = tc_flags (thr s y)"
    and "w \<noteq> this_worker s \<Longrightarrow> woken_by_event (wrk u w) = woken_by_event (wrk s w)"
proof -
  have u: "u = snd (finished t e s)" using finish_wait_eq [OF r, of wq] f by (metis sum.inject(2) snd_conv)
  have wf: "wf_ev s" using r by (simp add: resumed_def)
  note d = finished_def Let_def off_def unlink_def pop_def clear_woken_def link_def upd_defs
  obtain z where z: "\<not> expected t e s \<Longrightarrow> woken_by_event (cur_worker s) = Some z \<and> z \<noteq> e \<and> ev_flags (evs s z) = EF_SIGNAL \<and> ev_el (evs s z) \<noteq> None"
    using r wk by (cases "expected t e s") (auto simp: resumed_def)
  show "wf_ev u"
    using wf wf_ev_link [OF wf_off [OF wf_off [OF wf]], where t = t] by (auto simp: u finished_def Let_def wf_off)
  have ss: "same_stacks s (off y v)" if "same_stacks s v" for y v
    using that by (simp add: same_stacks_def d split: option.splits)
  have ss2: "same_stacks s (pop t e v)" "same_stacks s (clear_woken v)" "same_stacks s (link y l t v)" if "same_stacks s v" for y l v
    using that by (simp_all add: same_stacks_def d)
  show "same_stacks s u" unfolding u finished_def Let_def
    by (auto intro!: ss ss2 simp: same_stacks_def [of s s])
  have el: "ev_el (evs u y) = (if y = e then None else if \<not> expected t e s \<and> active t e s \<and> y = z then Some (Pending t) else ev_el (evs s y))" for y
    using z by (auto simp: u finished_def Let_def link_def)
  have fl: "ev_flags (evs u y) = ev_flags (evs s y)" "tc_flags (thr u v) = tc_flags (thr s v)"
    "ev_tc (evs u y) = (if \<not> expected t e s \<and> active t e s \<and> y = z then t else ev_tc (evs s y))"
    "ev_u (evs u y) = ev_u (evs s y)" "sysres u = sysres s" "locks u = locks s" for y v
    using z by (auto simp: u d split: option.splits)
  show "locks u = locks s" "sysres u = sysres s" "ev_flags (evs u x) = ev_flags (evs s x)" "tc_flags (thr u y) = tc_flags (thr s y)"
    by (rule fl)+
  show "ev_tc (evs u x) = ev_tc (evs s x) \<or> (ev_tc (evs u x) = t \<and> ev_flags (evs s x) = EF_SIGNAL)" using z by (auto simp: fl)
  show "ev_el (evs u e) = None" by (simp add: el)
  show "x \<noteq> e \<Longrightarrow> ev_el (evs u x) = ev_el (evs s x) \<or> (ev_flags (evs s x) = EF_SIGNAL \<and> ev_el (evs s x) \<noteq> None \<and> ev_el (evs u x) = Some (Pending t))"
    using z by (auto simp: el)
  show "y \<noteq> t \<Longrightarrow> event_stack (thr u y) = event_stack (thr s y)" by (auto simp: u d split: option.splits)
  show "w \<noteq> this_worker s \<Longrightarrow> woken_by_event (wrk u w) = woken_by_event (wrk s w)" by (auto simp: u d split: option.splits)
  show "signals_ok u" by (rule signals_ok_mono [OF sg]) (use z in \<open>auto simp: el fl split: if_splits\<close>)
qed

lemma notice_facts:
  assumes wf: "wf_ev s" and un: "lists_unlocked s" and sg: "signals_ok s" and ok: "eventfd_ok s" and r: "notice fl t s = Inr ((), u)"
  and fl: "fl \<noteq> EF_SIGNAL"
  defines "e \<equiv> tc_e (thr s t)"
  shows "same_stacks s u" and "wf_ev u" and "locks u = locks s" and "sysres u = sysres s" and "signals_ok u" and "ev_el (evs s e) = None"
    and "ev_tc (evs u x) = (if x = e then t else ev_tc (evs s x))" and "ev_flags (evs u x) = (if x = e then fl else ev_flags (evs s x))"
    and "ev_el (evs u x) = (if x = e then Some Immediate else ev_el (evs s x))"
    and "event_stack (thr u y) = event_stack (thr s y)" and "tc_flags (thr u y) = tc_flags (thr s y)"
    and "woken_by_event (wrk u w) = woken_by_event (wrk s w)"
proof -
  let ?i = "upd_ev e (\<lambda>v. v\<lparr>ev_u := Ep_events 0, ev_flags := fl\<rparr>) s"
  let ?l = "(link e Immediate t ?i)\<lparr>immediate_count := immediate_count s + 1\<rparr>"
  have fr: "locks s (L_list Immediate) = None" using un by (simp add: lists_unlocked_def)
  show e: "ev_el (evs s e) = None"
    using r fr by (auto simp: notice_def add_event_cr_def u_add_event_def op_defs upd_defs e_def split: if_splits)
  have a: "add_event_cr e 0 fl t s = Inr ((), ?l)"
    using fr e by (simp add: add_event_cr_def u_add_event_def set_el_def atomic_inc_immediate_def link_def op_defs upd_defs fun_upd_idem)
  have i: "wf_ev ?i" using wf by (subst wf_ev_cong_events [of _ s]) (auto simp: upd_defs)
  have "wf_ev ((link e Immediate t ?i)\<lparr>immediate_count := immediate_count ?i + 1\<rparr>)"
    by (rule wf_ev_link_immediate) (use i e in \<open>simp_all add: upd_defs\<close>)
  then have w: "wf_ev ?l" by (simp add: upd_defs)
  have "eventfd_ok ?l" using ok by (simp add: eventfd_ok_def link_def upd_defs)
  then have u: "u = ?l\<lparr>syslog := syslog ?l @ [iwi_of ?l (this_domain ?l)]\<rparr>"
    using r a u_iwi_immediate_eq [of ?l] by (simp add: notice_def op_defs e_def)
  note d = u link_def upd_defs
  show "wf_ev u" using w by (simp add: u)
  show "same_stacks s u" by (auto simp: same_stacks_def d)
  show f: "locks u = locks s" "sysres u = sysres s" "\<And>x. ev_tc (evs u x) = (if x = e then t else ev_tc (evs s x))"
    "\<And>x. ev_flags (evs u x) = (if x = e then fl else ev_flags (evs s x))" "\<And>x. ev_el (evs u x) = (if x = e then Some Immediate else ev_el (evs s x))"
    "event_stack (thr u y) = event_stack (thr s y)" "tc_flags (thr u y) = tc_flags (thr s y)" "woken_by_event (wrk u w) = woken_by_event (wrk s w)"
    by (auto simp: d)
  have "x \<noteq> e \<Longrightarrow> ev_u (evs u x) = ev_u (evs s x)" for x by (auto simp: d)
  then show "signals_ok u" by (intro signals_ok_mono [OF sg]) (use fl in \<open>auto simp: f split: if_splits\<close>)
qed


text \<open>The halves of a switch.\<close>

lemma switch_out_facts:
  assumes r: "switch_out t s = Inr ((), u)"
  shows "same_queues s u" and "wrk u = wrk s" and "freed u = freed s" and "thr u = thr s" and "cr_current u = t"
    and "cr_caller_of u = (cr_caller_of s)(t := cr_current s)" and "locks u = (locks s)(L_running t := Some (this_worker s))" and "locks s (L_running t) = None"
  using r by (auto simp: switch_out_def op_defs same_queues_def split: if_splits option.splits)

lemma enter_thread_facts:
  assumes r: "enter_thread t s = Inr ((), u)"
  shows "same_queues s u" and "wrk u = wrk s" and "freed u = freed s" and "tc_flags (thr u y) = tc_flags (thr s y)" and "tc_cr (thr u y) = tc_cr (thr s y)"
    and "cr_current u = t" and "cr_caller_of u = (cr_caller_of s)(t := cr_current s)"
    and "locks u = (locks s)(L_running t := Some (this_worker s))" and "locks s (L_running t) = None"
  using r by (auto simp: enter_thread_def switch_out_def op_defs upd_defs same_queues_def split: if_splits option.splits)

lemma switch_in_eq: "switch_in s = Inr ((), s\<lparr>locks := (locks s)(L_running (cr_caller s) := None)\<rparr>)"
  by (simp add: switch_in_def op_defs)

lemma first_entry_eq: "first_entry s = Inr ((), clear_woken (s\<lparr>locks := (locks s)(L_running (cr_caller s) := None)\<rparr>))"
  by (simp add: first_entry_def switch_in_eq op_defs)

lemma thread_free_facts:
  assumes r: "tc_thread_free t s = Inr ((), u)"
  shows "same_queues s u" and "wrk u = wrk s" and "freed u = freed s \<union> {O_cr t, O_thread t} \<union> (if TF_FREE_NAME \<in> tc_flags (thr s t) then {O_name t} else {})"
    and "tc_flags (thr u y) = tc_flags (thr s y)" and "tc_cr (thr u y) = (y \<noteq> t \<and> tc_cr (thr s y))"
    and "cr_current u = cr_current s" and "cr_caller_of u = cr_caller_of s"
    and "locks u = (locks s)(L_running t := Some (this_worker s))" and "locks s (L_running t) = None"
  using r by (auto simp: tc_thread_free_def tc_waitq_unregister_def u_iwi_immediate_def op_defs upd_defs same_queues_def Let_def
      split: if_splits option.splits)

section \<open>Every step keeps the invariant\<close>

lemma same_queues_keep:
  assumes "same_queues (proc c) s" and "proc c' = s"
  shows "events_ok W T c \<Longrightarrow> events_ok W T c'" and "deaf s t = deaf (proc c) t"
proof -
  have "wf_ev s = wf_ev (proc c)" using assms(1) by (intro wf_ev_cong) (simp_all add: same_queues_def)
  then show "events_ok W T c \<Longrightarrow> events_ok W T c'"
    using assms by (simp add: events_ok_def same_queues_def lists_unlocked_def signals_ok_def eventfd_ok_def)
  show "deaf s t = deaf (proc c) t" using assms(1) by (simp add: deaf_def same_queues_def)
qed

text \<open>Steps on the event queues.\<close>

lemma stacks_keep:
  assumes "stacks_ok W T c" and "w \<in> W" and "same_stacks (view w c) s" and "cr_current s = cur c w"
    and "on_part2 p = on_part2 (place_of c w)" and "p \<noteq> At_entry" "\<forall>t. p \<noteq> Left t" and "place_of c w \<noteq> At_entry" "\<forall>t. place_of c w \<noteq> Left t"
  shows "stacks_ok W T (move_to w p s c)"
proof -
  have g: "gone (move_to w p s c) t = gone c t" "has_running (move_to w p s c) v t = has_running c v t" for t v
    using assms(3-9) by (auto simp: gone_def has_running_def same_stacks_def)
  have s: "sched_p2 (wrk s v) = sched_p2 (wrk (proc c) v)" "tc_cr (thr s t) = tc_cr (thr (proc c) t)" "cr_caller_of s = cr_caller_of (proc c)"
    "locks s (L_running t) = locks (proc c) (L_running t)" for v t
    using assms(3) by (auto simp: same_stacks_def)
  have "(cur c)(w := cr_current s) = cur c" using assms(4) by simp
  then show ?thesis using assms(1,2,5-9) unfolding stacks_ok_def g by (simp add: s)
qed


text \<open>The halves of a switch: \<open>stacks_okI\<close> asks for the locks and the coroutine of the worker that made the step only.\<close>

lemma stacks_okD:
  assumes "stacks_ok W T c"
  shows "inj_on (\<lambda>w. sched_p2 (wrk (proc c) w)) W"
    and "w \<in> W \<Longrightarrow> sched_p2 (wrk (proc c) w) \<notin> T" and "w \<in> W \<Longrightarrow> tc_cr (thr (proc c) (sched_p2 (wrk (proc c) w)))"
    and "w \<in> W \<Longrightarrow> \<not> gone c (sched_p2 (wrk (proc c) w))"
    and "w \<in> W \<Longrightarrow> on_part2 (place_of c w) \<Longrightarrow> cur c w = sched_p2 (wrk (proc c) w)" and "w \<in> W \<Longrightarrow> \<not> on_part2 (place_of c w) \<Longrightarrow> cur c w \<in> T"
    and "\<not> gone c t \<Longrightarrow> locks (proc c) (L_running t) = Some w \<longleftrightarrow> w \<in> W \<and> has_running c w t"
    and "w \<in> W \<Longrightarrow> place_of c w = At_entry \<Longrightarrow> cr_caller_of (proc c) (cur c w) = sched_p2 (wrk (proc c) w)"
    and "w \<in> W \<Longrightarrow> place_of c w = Left t \<Longrightarrow> t \<in> T" and "w \<in> W \<Longrightarrow> place_of c w = Left t \<Longrightarrow> cr_caller_of (proc c) (sched_p2 (wrk (proc c) w)) = t"
  using assms unfolding stacks_ok_def by auto

lemma stacks_okI:
  assumes ok: "stacks_ok W T c" and w: "w \<in> W" and p2: "\<And>v. sched_p2 (wrk s v) = sched_p2 (wrk (proc c) v)"
    and cr: "\<And>v. v \<in> W \<Longrightarrow> tc_cr (thr s (sched_p2 (wrk (proc c) v)))" and fr: "\<And>v. v \<in> W \<Longrightarrow> \<not> gone (move_to w p s c) (sched_p2 (wrk (proc c) v))"
    and cu: "if on_part2 p then cr_current s = sched_p2 (wrk (proc c) w) else cr_current s \<in> T"
    and lk: "\<And>t v. \<not> gone (move_to w p s c) t \<Longrightarrow> locks s (L_running t) = Some v \<longleftrightarrow> v \<in> W \<and> has_running (move_to w p s c) v t"
    and ca: "p = At_entry \<Longrightarrow> cr_caller_of s (cr_current s) = sched_p2 (wrk (proc c) w)"
    and le: "\<And>t. p = Left t \<Longrightarrow> t \<in> T \<and> cr_caller_of s (sched_p2 (wrk (proc c) w)) = t"
    and ot: "\<And>v. v \<in> W \<Longrightarrow> v \<noteq> w \<Longrightarrow> place_of c v = At_entry \<Longrightarrow> cr_caller_of s (cur c v) = cr_caller_of (proc c) (cur c v)"
    and op: "\<And>v t. v \<in> W \<Longrightarrow> v \<noteq> w \<Longrightarrow> place_of c v = Left t \<Longrightarrow> cr_caller_of s (sched_p2 (wrk (proc c) v)) = cr_caller_of (proc c) (sched_p2 (wrk (proc c) v))"
  shows "stacks_ok W T (move_to w p s c)"
  unfolding stacks_ok_def
proof (intro conjI)
  note D = stacks_okD [OF ok]
  show "inj_on (\<lambda>v. sched_p2 (wrk (proc (move_to w p s c)) v)) W" using D(1) by (simp add: p2)
  show "\<forall>v\<in>W. sched_p2 (wrk (proc (move_to w p s c)) v) \<notin> T \<and> tc_cr (thr (proc (move_to w p s c)) (sched_p2 (wrk (proc (move_to w p s c)) v))) \<and>
      \<not> gone (move_to w p s c) (sched_p2 (wrk (proc (move_to w p s c)) v))"
    using D(2) cr fr by (simp add: p2)
  show "\<forall>v\<in>W. if on_part2 (place_of (move_to w p s c) v) then cur (move_to w p s c) v = sched_p2 (wrk (proc (move_to w p s c)) v)
      else cur (move_to w p s c) v \<in> T"
    using cu D(5,6) by (simp add: p2)
  show "\<forall>t. \<not> gone (move_to w p s c) t \<longrightarrow> (\<forall>v. locks (proc (move_to w p s c)) (L_running t) = Some v \<longleftrightarrow> v \<in> W \<and> has_running (move_to w p s c) v t)"
    using lk by simp
  show "\<forall>v\<in>W. place_of (move_to w p s c) v = At_entry \<longrightarrow>
      cr_caller_of (proc (move_to w p s c)) (cur (move_to w p s c) v) = sched_p2 (wrk (proc (move_to w p s c)) v)"
    using ca ot D(8) by (simp add: p2)
  show "\<forall>v\<in>W. \<forall>t. place_of (move_to w p s c) v = Left t \<longrightarrow> t \<in> T \<and> cr_caller_of (proc (move_to w p s c)) (sched_p2 (wrk (proc (move_to w p s c)) v)) = t"
    using le op D(9,10) by (auto simp: p2)
qed

text \<open>Two workers are never on the same stack.\<close>

lemma stack_unique:
  assumes "stacks_ok W T c" and "\<not> gone c t" and "w \<in> W" "has_running c w t" and "v \<in> W" "has_running c v t"
  shows "w = v"
proof -
  have "locks (proc c) (L_running t) = Some w" "locks (proc c) (L_running t) = Some v"
    using stacks_okD(7) [OF assms(1,2)] assms(3-6) by simp_all
  then show ?thesis by simp
qed

lemma stacks_enter:
  assumes ok: "stacks_ok W T c" and w: "w \<in> W" and pl: "place_of c w = To_thread t" and t: "t \<in> T" "\<not> gone c t"
    and r: "enter_thread t (view w c) = Inr ((), s)"
  shows "stacks_ok W T (move_to w At_entry s c)"
proof (rule stacks_okI [OF ok w])
  note F = enter_thread_facts [OF r]
  note D = stacks_okD [OF ok]
  have c: "cur c w = sched_p2 (wrk (proc c) w)" using D(5) [OF w] pl by simp
  have n: "\<not> (v \<in> W \<and> has_running c v t)" for v using D(7) [OF t(2)] F(9) by simp
  show "sched_p2 (wrk s v) = sched_p2 (wrk (proc c) v)" for v by (simp add: F)
  show "v \<in> W \<Longrightarrow> tc_cr (thr s (sched_p2 (wrk (proc c) v)))" "v \<in> W \<Longrightarrow> \<not> gone (move_to w At_entry s c) (sched_p2 (wrk (proc c) v))" for v
    using D(3,4) by (simp_all add: F gone_def)
  show "if on_part2 At_entry then cr_current s = sched_p2 (wrk (proc c) w) else cr_current s \<in> T" by (simp add: F t)
  show "locks s (L_running y) = Some v \<longleftrightarrow> v \<in> W \<and> has_running (move_to w At_entry s c) v y" if "\<not> gone (move_to w At_entry s c) y" for y v
  proof -
    have "locks (proc c) (L_running y) = Some v \<longleftrightarrow> v \<in> W \<and> has_running c v y" using D(7) that by (simp add: gone_def F)
    then show ?thesis using n [of v] w c pl by (auto simp: F has_running_def)
  qed
  show "cr_caller_of s (cr_current s) = sched_p2 (wrk (proc c) w)" using c by (simp add: F)
  show "v \<in> W \<Longrightarrow> v \<noteq> w \<Longrightarrow> place_of c v = At_entry \<Longrightarrow> cr_caller_of s (cur c v) = cr_caller_of (proc c) (cur c v)" for v
    using n [of v] by (auto simp: F has_running_def)
  show "v \<in> W \<Longrightarrow> cr_caller_of s (sched_p2 (wrk (proc c) v)) = cr_caller_of (proc c) (sched_p2 (wrk (proc c) v))" for v
    using D(2) t by (auto simp: F)
qed simp_all


text \<open>Both arrivals unlock the coroutine that was left.\<close>

lemma stacks_arrive:
  assumes ok: "stacks_ok W T c" and w: "w \<in> W"
    and pl: "(place_of c w = At_entry \<and> p \<in> {Runs, Returned}) \<or> (place_of c w = Left t \<and> p = At_part2)"
    and s: "locks s = (locks (proc c))(L_running (cr_caller (view w c)) := None)" "\<And>v. sched_p2 (wrk s v) = sched_p2 (wrk (proc c) v)"
      "thr s = thr (proc c)" "freed s = freed (proc c)" "cr_current s = cur c w" "cr_caller_of s = cr_caller_of (proc c)"
    and lg: "\<And>t. place_of c w = Left t \<Longrightarrow> \<not> gone c t"
  shows "stacks_ok W T (move_to w p s c)"
proof (rule stacks_okI [OF ok w])
  note D = stacks_okD [OF ok]
  let ?p2 = "sched_p2 (wrk (proc c) w)"
  have ca: "cr_caller (view w c) = (if place_of c w = At_entry then ?p2 else t)"
    using pl D(5) [OF w] D(8) [OF w] D(10) [OF w] by (auto simp: cr_caller_def)
  have ng: "\<not> gone c (cr_caller (view w c))" using ca pl lg D(4) [OF w] by auto
  have h: "has_running c w (cr_caller (view w c))" using ca pl by (auto simp: has_running_def)
  have only: "v = w" if "v \<in> W" "has_running c v (cr_caller (view w c))" for v by (rule stack_unique [OF ok ng that w h])
  have ne: "cur c w \<noteq> cr_caller (view w c)"
    using ca pl D(5,6) [OF w] D(9) [OF w] D(2) [OF w] by (auto split: if_splits)
  show "sched_p2 (wrk s v) = sched_p2 (wrk (proc c) v)" for v by (rule s(2))
  show "v \<in> W \<Longrightarrow> tc_cr (thr s (sched_p2 (wrk (proc c) v)))" "v \<in> W \<Longrightarrow> \<not> gone (move_to w p s c) (sched_p2 (wrk (proc c) v))" for v
    using D(3,4) by (simp_all add: s gone_def)
  show "if on_part2 p then cr_current s = sched_p2 (wrk (proc c) w) else cr_current s \<in> T"
    using pl D(5,6) [OF w] by (auto simp: s)
  show "locks s (L_running y) = Some v \<longleftrightarrow> v \<in> W \<and> has_running (move_to w p s c) v y" if "\<not> gone (move_to w p s c) y" for y v
  proof -
    have l: "locks (proc c) (L_running y) = Some v \<longleftrightarrow> v \<in> W \<and> has_running c v y" using D(7) that by (simp add: gone_def s)
    have h: "has_running (move_to w p s c) v y \<longleftrightarrow> (if v = w then y = cur c w else has_running c v y)"
      using pl by (auto simp: has_running_def s)
    have hw: "has_running c w y \<longleftrightarrow> y = cur c w \<or> y = cr_caller (view w c)" using ca pl by (auto simp: has_running_def)
    show ?thesis using l h hw ne only w by (auto simp: s)
  qed
qed (use pl in \<open>auto simp: s\<close>)

lemma stacks_leave:
  assumes ok: "stacks_ok W T c" and w: "w \<in> W" and pl: "place_of c w = To_part2" and r: "switch_out (sched_p2 (wrk (proc c) w)) (view w c) = Inr ((), s)"
  shows "stacks_ok W T (move_to w (Left (cur c w)) s c)"
proof (rule stacks_okI [OF ok w])
  note F = switch_out_facts [OF r]
  note D = stacks_okD [OF ok]
  have c: "cur c w \<in> T" using D(6) [OF w] pl by simp
  have n: "\<not> (v \<in> W \<and> has_running c v (sched_p2 (wrk (proc c) w)))" for v using D(7) [OF D(4) [OF w]] F(8) by simp
  show "sched_p2 (wrk s v) = sched_p2 (wrk (proc c) v)" for v by (simp add: F)
  show "v \<in> W \<Longrightarrow> tc_cr (thr s (sched_p2 (wrk (proc c) v)))" "v \<in> W \<Longrightarrow> \<not> gone (move_to w (Left (cur c w)) s c) (sched_p2 (wrk (proc c) v))" for v
    using D(3,4) by (simp_all add: F gone_def)
  show "if on_part2 (Left (cur c w)) then cr_current s = sched_p2 (wrk (proc c) w) else cr_current s \<in> T" by (simp add: F)
  show "locks s (L_running y) = Some v \<longleftrightarrow> v \<in> W \<and> has_running (move_to w (Left (cur c w)) s c) v y" if "\<not> gone (move_to w (Left (cur c w)) s c) y" for y v
  proof -
    have "locks (proc c) (L_running y) = Some v \<longleftrightarrow> v \<in> W \<and> has_running c v y" using D(7) that by (simp add: gone_def F)
    then show ?thesis using n [of v] w c pl by (auto simp: F has_running_def)
  qed
  show "t \<in> T \<and> cr_caller_of s (sched_p2 (wrk (proc c) w)) = t" if "Left (cur c w) = Left t" for t using that c by (simp add: F)
  show "v \<in> W \<Longrightarrow> v \<noteq> w \<Longrightarrow> place_of c v = At_entry \<Longrightarrow> cr_caller_of s (cur c v) = cr_caller_of (proc c) (cur c v)" for v
    using n [of v] by (auto simp: F has_running_def)
  show "v \<in> W \<Longrightarrow> v \<noteq> w \<Longrightarrow> cr_caller_of s (sched_p2 (wrk (proc c) v)) = cr_caller_of (proc c) (sched_p2 (wrk (proc c) v))" for v
    using inj_onD [OF D(1), of v w] w by (auto simp: F)
qed simp_all

lemma stacks_free:
  assumes ok: "stacks_ok W T c" and w: "w \<in> W" and pl: "place_of c w = To_free t" and t: "t \<in> T" and r: "tc_thread_free t (view w c) = Inr ((), s)"
  shows "stacks_ok W T (move_to w At_part2 s c)"
proof (rule stacks_okI [OF ok w])
  note F = thread_free_facts [OF r]
  note D = stacks_okD [OF ok]
  have p2: "sched_p2 (wrk (proc c) v) \<noteq> t" if "v \<in> W" for v using D(2) that t by auto
  show "sched_p2 (wrk s v) = sched_p2 (wrk (proc c) v)" for v by (simp add: F)
  show "v \<in> W \<Longrightarrow> tc_cr (thr s (sched_p2 (wrk (proc c) v)))" "v \<in> W \<Longrightarrow> \<not> gone (move_to w At_part2 s c) (sched_p2 (wrk (proc c) v))" for v
    using D(3,4) p2 by (auto simp: F gone_def)
  show "if on_part2 At_part2 then cr_current s = sched_p2 (wrk (proc c) w) else cr_current s \<in> T" using D(5) [OF w] pl by (simp add: F)
  show "locks s (L_running y) = Some v \<longleftrightarrow> v \<in> W \<and> has_running (move_to w At_part2 s c) v y" if "\<not> gone (move_to w At_part2 s c) y" for y v
  proof -
    have "locks (proc c) (L_running y) = Some v \<longleftrightarrow> v \<in> W \<and> has_running c v y" "y \<noteq> t" using D(7) that by (auto simp: gone_def F)
    then show ?thesis using pl by (auto simp: F has_running_def)
  qed
qed (auto simp: thread_free_facts [OF r])


text \<open>The marks of the running threads.\<close>

lemma busy_move:
  "busy (move_to w p s c) v t \<longleftrightarrow> (if v = w then p = To_thread t \<or> (p \<in> {At_entry, Runs, Returned} \<and> cr_current s = t) else busy c v t)"
  by (auto simp: busy_def)

lemma busy_ghost [simp]: "busy (c\<lparr>waits := f\<rparr>) v t = busy c v t" "busy (c\<lparr>ended := E\<rparr>) v t = busy c v t"
  by (simp_all add: busy_def)

lemma waits_ghost [simp]: "stacks_ok W T (c\<lparr>waits := f\<rparr>) = stacks_ok W T c" "exits_ok W T (c\<lparr>waits := f\<rparr>) = exits_ok W T c"
    "stacks_ok W T (c\<lparr>ended := E\<rparr>) = stacks_ok W T c"
  by (simp_all add: stacks_ok_def exits_ok_def gone_def has_running_def)

lemma flags_keep:
  assumes "flags_ok W T c" and "\<And>t. t \<in> T \<Longrightarrow> TF_RUNNING \<in> tc_flags (thr (proc c') t) \<longleftrightarrow> TF_RUNNING \<in> tc_flags (thr (proc c) t)"
    and "\<And>v t. v \<in> W \<Longrightarrow> busy c' v t = busy c v t" and "ended c' = ended c"
  shows "flags_ok W T c'"
  using assms by (simp add: flags_ok_def)

lemma flags_okD:
  assumes "flags_ok W T c"
  shows "t \<in> ended c \<Longrightarrow> t \<in> T" and "t \<in> T \<Longrightarrow> TF_RUNNING \<in> tc_flags (thr (proc c) t) \<longleftrightarrow> t \<in> ended c \<or> (\<exists>w \<in> W. busy c w t)"
    and "w \<in> W \<Longrightarrow> busy c w t \<Longrightarrow> t \<in> T" and "w \<in> W \<Longrightarrow> busy c w t \<Longrightarrow> t \<notin> ended c" and "w \<in> W \<Longrightarrow> busy c w t \<Longrightarrow> v \<in> W \<Longrightarrow> busy c v t \<Longrightarrow> v = w"
  using assms unfolding flags_ok_def by blast+

lemma flags_taken:
  assumes ok: "flags_ok W T c" and w: "w \<in> W" and pl: "place_of c w = At_part2" and t: "t \<in> T" "TF_RUNNING \<notin> tc_flags (thr (proc c) t)"
    and s: "\<And>y. tc_flags (thr s y) = (if y = t then insert TF_RUNNING (tc_flags (thr (proc c) y)) else tc_flags (thr (proc c) y))"
  shows "flags_ok W T (move_to w (To_thread t) s c)"
proof -
  note D = flags_okD [OF ok]
  have n: "t \<notin> ended c" "\<And>v. v \<in> W \<Longrightarrow> \<not> busy c v t" using D(2) [OF t(1)] t(2) by auto
  have b: "busy (move_to w (To_thread t) s c) v y \<longleftrightarrow> (if v = w then y = t else busy c v y)" for v y by (auto simp: busy_move)
  have nw: "\<not> busy c w y" for y using pl by (simp add: busy_def)
  show ?thesis
    unfolding flags_ok_def
  proof (intro conjI ballI allI impI)
    show "ended (move_to w (To_thread t) s c) \<subseteq> T" using D(1) by auto
    show "TF_RUNNING \<in> tc_flags (thr (proc (move_to w (To_thread t) s c)) y) \<longleftrightarrow> y \<in> ended (move_to w (To_thread t) s c) \<or> (\<exists>v \<in> W. busy (move_to w (To_thread t) s c) v y)"
      if "y \<in> T" for y
    proof -
      have "(\<exists>v \<in> W. busy (move_to w (To_thread t) s c) v y) \<longleftrightarrow> y = t \<or> (\<exists>v \<in> W. busy c v y)" using w nw by (metis b)
      then show ?thesis using D(2) [OF that] by (simp add: s)
    qed
  next
    fix v y assume v: "v \<in> W" "busy (move_to w (To_thread t) s c) v y"
    show "y \<in> T - ended (move_to w (To_thread t) s c)" using v t n D(3,4) by (auto simp: b split: if_splits)
    show "v' = v" if "v' \<in> W" "busy (move_to w (To_thread t) s c) v' y" for v'
      using v that n D(5) by (auto simp: b split: if_splits)
  qed
qed

text \<open>A thread stops running: it waits, or it ends.\<close>

lemma flags_stopped:
  assumes ok: "flags_ok W T c" and w: "w \<in> W" and pl: "place_of c w = Runs"
    and s: "\<And>y. TF_RUNNING \<in> tc_flags (thr s y) \<longleftrightarrow> TF_RUNNING \<in> tc_flags (thr (proc c) y) \<and> (y = cur c w \<longrightarrow> y \<in> E)"
    and E: "E = ended c \<or> E = insert (cur c w) (ended c)"
  shows "flags_ok W T ((move_to w To_part2 s c)\<lparr>ended := E\<rparr>)"
proof -
  note D = flags_okD [OF ok]
  have bw: "busy c w y \<longleftrightarrow> y = cur c w" for y using pl by (auto simp: busy_def)
  have b: "busy (move_to w To_part2 s c) v y \<longleftrightarrow> v \<noteq> w \<and> busy c v y" for v y by (auto simp: busy_move)
  have only: "\<not> busy c v (cur c w)" if "v \<in> W" "v \<noteq> w" for v using D(5) [OF w, of "cur c w" v] that bw by auto
  have cT: "cur c w \<in> T" using D(3) [OF w] bw by simp
  show ?thesis
    unfolding flags_ok_def
  proof (intro conjI ballI allI impI)
    show "ended ((move_to w To_part2 s c)\<lparr>ended := E\<rparr>) \<subseteq> T" using D(1) E cT by auto
    show "TF_RUNNING \<in> tc_flags (thr (proc ((move_to w To_part2 s c)\<lparr>ended := E\<rparr>)) y) \<longleftrightarrow>
        y \<in> ended ((move_to w To_part2 s c)\<lparr>ended := E\<rparr>) \<or> (\<exists>v \<in> W. busy ((move_to w To_part2 s c)\<lparr>ended := E\<rparr>) v y)"
      if "y \<in> T" for y
    proof (cases "y = cur c w")
      case True
      have "cur c w \<notin> ended c" "TF_RUNNING \<in> tc_flags (thr (proc c) (cur c w))" using D(2) [OF cT] D(4) [OF w, of "cur c w"] w bw by auto
      moreover have "\<not> (\<exists>v \<in> W. v \<noteq> w \<and> busy c v y)" using only True by blast
      ultimately show ?thesis using True s [of y] by (simp add: b) blast
    next
      case False
      have "(\<exists>v \<in> W. v \<noteq> w \<and> busy c v y) \<longleftrightarrow> (\<exists>v \<in> W. busy c v y)" using False bw [of y] by auto
      moreover have "y \<in> E \<longleftrightarrow> y \<in> ended c" using E False by auto
      ultimately show ?thesis using False D(2) [OF that] s [of y] by (simp add: b)
    qed
  next
    fix v y assume v: "v \<in> W" "busy ((move_to w To_part2 s c)\<lparr>ended := E\<rparr>) v y"
    then have v': "v \<noteq> w" "busy c v y" by (simp_all add: b)
    then show "y \<in> T - ended ((move_to w To_part2 s c)\<lparr>ended := E\<rparr>)" using v(1) D(3,4) E only by auto
    show "u = v" if "u \<in> W" "busy ((move_to w To_part2 s c)\<lparr>ended := E\<rparr>) u y" for u
      using v v' that D(5) by (auto simp: b)
  qed
qed


text \<open>The end of threads.\<close>

lemma exits_okD:
  assumes "exits_ok W T c"
  shows "gone c t \<Longrightarrow> t \<in> ended c" and "gone c t \<Longrightarrow> w \<in> W \<Longrightarrow> cur c w \<noteq> t" and "gone c t \<Longrightarrow> w \<in> W \<Longrightarrow> place_of c w \<noteq> Left t"
    and "t \<in> T \<Longrightarrow> \<not> gone c t \<Longrightarrow> tc_cr (thr (proc c) t)" and "w \<in> W \<Longrightarrow> place_of c w = To_free t \<Longrightarrow> t \<in> ended c"
    and "w \<in> W \<Longrightarrow> place_of c w = To_free t \<Longrightarrow> \<not> gone c t" and "w \<in> W \<Longrightarrow> place_of c w = To_free t \<Longrightarrow> v \<in> W \<Longrightarrow> place_of c v = To_free t \<Longrightarrow> v = w"
    and "ev_el (evs (proc c) e) \<noteq> None \<Longrightarrow> ev_flags (evs (proc c) e) = EF_EXITING \<Longrightarrow> ev_el (evs (proc c) e) = Some Immediate \<and>
      e = tc_e (thr (proc c) (ev_tc (evs (proc c) e))) \<and> ev_tc (evs (proc c) e) \<in> ended c \<and> \<not> gone c (ev_tc (evs (proc c) e)) \<and>
      (\<forall>w \<in> W. place_of c w \<noteq> To_free (ev_tc (evs (proc c) e)))"
  using assms unfolding exits_ok_def Let_def by blast+

lemma exits_okI:
  assumes "\<And>t. gone c t \<Longrightarrow> t \<in> ended c" and "\<And>t w. gone c t \<Longrightarrow> w \<in> W \<Longrightarrow> cur c w \<noteq> t" and "\<And>t w. gone c t \<Longrightarrow> w \<in> W \<Longrightarrow> place_of c w \<noteq> Left t"
    and "\<And>t. t \<in> T \<Longrightarrow> \<not> gone c t \<Longrightarrow> tc_cr (thr (proc c) t)" and "\<And>w t. w \<in> W \<Longrightarrow> place_of c w = To_free t \<Longrightarrow> t \<in> ended c"
    and "\<And>w t. w \<in> W \<Longrightarrow> place_of c w = To_free t \<Longrightarrow> \<not> gone c t"
    and "\<And>w v t. w \<in> W \<Longrightarrow> place_of c w = To_free t \<Longrightarrow> v \<in> W \<Longrightarrow> place_of c v = To_free t \<Longrightarrow> v = w"
    and "\<And>e. ev_el (evs (proc c) e) \<noteq> None \<Longrightarrow> ev_flags (evs (proc c) e) = EF_EXITING \<Longrightarrow> ev_el (evs (proc c) e) = Some Immediate \<and>
      e = tc_e (thr (proc c) (ev_tc (evs (proc c) e))) \<and> ev_tc (evs (proc c) e) \<in> ended c \<and> \<not> gone c (ev_tc (evs (proc c) e)) \<and>
      (\<forall>w \<in> W. place_of c w \<noteq> To_free (ev_tc (evs (proc c) e)))"
  shows "exits_ok W T c"
  unfolding exits_ok_def Let_def using assms by blast

lemma exits_move:
  assumes ok: "exits_ok W T c" and w: "w \<in> W" and s: "freed s = freed (proc c)" "\<And>t. tc_cr (thr s t) = tc_cr (thr (proc c) t)" and E: "ended c \<subseteq> E"
    and p: "\<forall>t. p \<noteq> To_free t" "\<not> gone c (cr_current s)" "\<And>t. p = Left t \<Longrightarrow> \<not> gone c t"
    and ev: "\<And>e. ev_el (evs s e) \<noteq> None \<Longrightarrow> ev_flags (evs s e) = EF_EXITING \<Longrightarrow> ev_el (evs s e) = Some Immediate \<and> e = tc_e (thr s (ev_tc (evs s e))) \<and>
      ev_tc (evs s e) \<in> E \<and> \<not> gone c (ev_tc (evs s e)) \<and> (\<forall>v \<in> W. place_of c v \<noteq> To_free (ev_tc (evs s e)))"
  shows "exits_ok W T (move_to w p s (c\<lparr>ended := E\<rparr>))"
proof -
  note D = exits_okD [OF ok]
  let ?c = "move_to w p s (c\<lparr>ended := E\<rparr>)"
  have g: "gone ?c t = gone c t" for t using s by (simp add: gone_def)
  have f: "place_of c v = To_free t" if "place_of ?c v = To_free t" for v t using that p(1) by (auto split: if_splits)
  show ?thesis
  proof (rule exits_okI; (unfold g)?)
    fix e assume "ev_el (evs (proc ?c) e) \<noteq> None" "ev_flags (evs (proc ?c) e) = EF_EXITING"
    then show "ev_el (evs (proc ?c) e) = Some Immediate \<and> e = tc_e (thr (proc ?c) (ev_tc (evs (proc ?c) e))) \<and> ev_tc (evs (proc ?c) e) \<in> ended ?c \<and>
      \<not> gone c (ev_tc (evs (proc ?c) e)) \<and> (\<forall>v \<in> W. place_of ?c v \<noteq> To_free (ev_tc (evs (proc ?c) e)))"
      using ev [of e] p(1) by simp
  next
    fix t assume "gone c t"
    then show "t \<in> ended ?c" using D(1) [of t] E by auto
  next
    fix t v assume "gone c t" "v \<in> W"
    then show "cur ?c v \<noteq> t" "place_of ?c v \<noteq> Left t" using D(2,3) [of t v] p(2,3) by auto
  next
    fix t assume "t \<in> T" "\<not> gone c t"
    then show "tc_cr (thr (proc ?c) t)" using D(4) [of t] by (simp add: s)
  next
    fix v t assume "v \<in> W" "place_of ?c v = To_free t"
    then show "t \<in> ended ?c" "\<not> gone c t" using D(5,6) [of v t] f [of v t] E by auto
  next
    fix u v t assume "u \<in> W" "place_of ?c u = To_free t" "v \<in> W" "place_of ?c v = To_free t"
    then show "v = u" using D(7) [of u t v] f [of u t] f [of v t] by blast
  qed
qed

lemma exits_keep:
  assumes ok: "exits_ok W T c" and w: "w \<in> W" and s: "same_stacks (view w c) s" "cr_current s = cur c w"
    and p: "\<forall>t. p \<noteq> Left t" "\<forall>t. p \<noteq> To_free t"
    and ev: "\<And>e. ev_el (evs s e) \<noteq> None \<Longrightarrow> ev_flags (evs s e) = EF_EXITING \<Longrightarrow>
      ev_el (evs s e) = ev_el (evs (proc c) e) \<and> ev_flags (evs (proc c) e) = EF_EXITING \<and> ev_tc (evs s e) = ev_tc (evs (proc c) e)"
  shows "exits_ok W T (move_to w p s c)"
proof -
  note D = exits_okD [OF ok]
  have "exits_ok W T (move_to w p s (c\<lparr>ended := ended c\<rparr>))"
  proof (rule exits_move [OF ok w])
    show "\<not> gone c (cr_current s)" using D(2) [of "cur c w" w] w s(2) by auto
    fix e assume e: "ev_el (evs s e) \<noteq> None" "ev_flags (evs s e) = EF_EXITING"
    show "ev_el (evs s e) = Some Immediate \<and> e = tc_e (thr s (ev_tc (evs s e))) \<and>
      ev_tc (evs s e) \<in> ended c \<and> \<not> gone c (ev_tc (evs s e)) \<and> (\<forall>v \<in> W. place_of c v \<noteq> To_free (ev_tc (evs s e)))"
      using D(8) [of e] ev [OF e] e s(1) by (simp add: same_stacks_def)
  qed (use s p in \<open>simp_all add: same_stacks_def\<close>)
  then show ?thesis by simp
qed

lemma exits_switch:
  assumes ok: "exits_ok W T c" and w: "w \<in> W" and s: "same_queues (proc c) s" "freed s = freed (proc c)" "\<And>t. tc_cr (thr s t) = tc_cr (thr (proc c) t)"
    and p: "\<forall>t. p \<noteq> To_free t" "\<not> gone c (cr_current s)" "\<And>t. p = Left t \<Longrightarrow> \<not> gone c t"
  shows "exits_ok W T (move_to w p s c)"
proof -
  have "exits_ok W T (move_to w p s (c\<lparr>ended := ended c\<rparr>))"
    using exits_okD(8) [OF ok] s(1) by (intro exits_move [OF ok w s(2,3) _ p]) (simp_all add: same_queues_def)
  then show ?thesis by simp
qed

lemma exits_dispatch:
  assumes ok: "exits_ok W T c" and w: "w \<in> W" and s: "same_stacks (view w c) s" "cr_current s = cur c w"
    and e: "ev_el (evs (proc c) e) \<noteq> None" "ev_flags (evs (proc c) e) = EF_EXITING" and t: "t = ev_tc (evs (proc c) e)"
    and ev: "\<And>x. ev_el (evs s x) = (if x = e then None else ev_el (evs (proc c) x))" "\<And>x. ev_flags (evs s x) = ev_flags (evs (proc c) x)"
      "\<And>x. ev_tc (evs s x) = ev_tc (evs (proc c) x)"
  shows "exits_ok W T (move_to w (To_free t) s c)"
proof -
  note D = exits_okD [OF ok]
  note E = D(8) [OF e, folded t]
  have g: "gone (move_to w (To_free t) s c) y = gone c y" for y using s by (simp add: gone_def same_stacks_def)
  have s': "tc_cr (thr s t) = tc_cr (thr (proc c) t)" "tc_e (thr s t) = tc_e (thr (proc c) t)" for t using s by (simp_all add: same_stacks_def)
  have other: "ev_tc (evs (proc c) x) \<noteq> t" if "x \<noteq> e" "ev_el (evs (proc c) x) \<noteq> None" "ev_flags (evs (proc c) x) = EF_EXITING" for x
    using D(8) [OF that(2,3)] E that(1) by auto
  show ?thesis
  proof (rule exits_okI; (unfold g)?)
    fix x assume x: "ev_el (evs (proc (move_to w (To_free t) s c)) x) \<noteq> None" "ev_flags (evs (proc (move_to w (To_free t) s c)) x) = EF_EXITING"
    then have "x \<noteq> e" "ev_el (evs (proc c) x) \<noteq> None" "ev_flags (evs (proc c) x) = EF_EXITING" by (auto simp: ev split: if_splits)
    with D(8) [of x] other [of x] show "ev_el (evs (proc (move_to w (To_free t) s c)) x) = Some Immediate \<and>
      x = tc_e (thr (proc (move_to w (To_free t) s c)) (ev_tc (evs (proc (move_to w (To_free t) s c)) x))) \<and>
      ev_tc (evs (proc (move_to w (To_free t) s c)) x) \<in> ended (move_to w (To_free t) s c) \<and> \<not> gone c (ev_tc (evs (proc (move_to w (To_free t) s c)) x)) \<and>
      (\<forall>v \<in> W. place_of (move_to w (To_free t) s c) v \<noteq> To_free (ev_tc (evs (proc (move_to w (To_free t) s c)) x)))"
      by (simp add: s' ev)
  next
    fix u v y assume "u \<in> W" "place_of (move_to w (To_free t) s c) u = To_free y" "v \<in> W" "place_of (move_to w (To_free t) s c) v = To_free y"
    then show "v = u" using E D(7) [of u y v] by (auto split: if_splits)
  next
    fix y assume "gone c y"
    then show "y \<in> ended (move_to w (To_free t) s c)" using D(1) [of y] by simp
  next
    fix y v assume "gone c y" "v \<in> W"
    then show "cur (move_to w (To_free t) s c) v \<noteq> y" "place_of (move_to w (To_free t) s c) v \<noteq> Left y" using D(2,3) [of y v] by (auto simp: s(2))
  next
    fix y assume "y \<in> T" "\<not> gone c y"
    then show "tc_cr (thr (proc (move_to w (To_free t) s c)) y)" using D(4) [of y] by (simp add: s')
  next
    fix v y assume "v \<in> W" "place_of (move_to w (To_free t) s c) v = To_free y"
    then show "y \<in> ended (move_to w (To_free t) s c)" "\<not> gone c y" using E D(5,6) [of v y] by (auto split: if_splits)
  qed
qed

lemma exits_die:
  assumes ok: "exits_ok W T c" and fl: "flags_ok W T c" and w: "w \<in> W" and s: "same_stacks (view w c) s" "cr_current s = cur c w" and pl: "place_of c w = Runs"
    and ev: "\<And>x. ev_tc (evs s x) = (if x = tc_e (thr (proc c) (cur c w)) then cur c w else ev_tc (evs (proc c) x))"
      "\<And>x. ev_flags (evs s x) = (if x = tc_e (thr (proc c) (cur c w)) then EF_EXITING else ev_flags (evs (proc c) x))"
      "\<And>x. ev_el (evs s x) = (if x = tc_e (thr (proc c) (cur c w)) then Some Immediate else ev_el (evs (proc c) x))"
  shows "exits_ok W T (move_to w To_part2 s (c\<lparr>ended := insert (cur c w) (ended c)\<rparr>))"
proof (rule exits_move [OF ok w])
  note D = exits_okD [OF ok]
  have n: "cur c w \<notin> ended c" using flags_okD(4) [OF fl w, of "cur c w"] pl by (simp add: busy_def)
  have f: "place_of c v \<noteq> To_free (cur c w)" if "v \<in> W" for v using D(5) [OF that] n by blast
  have ng: "\<not> gone c (cur c w)" using D(2) [of "cur c w" w] w by auto
  then show "\<not> gone c (cr_current s)" by (simp add: s(2))
  fix e assume e: "ev_el (evs s e) \<noteq> None" "ev_flags (evs s e) = EF_EXITING"
  show "ev_el (evs s e) = Some Immediate \<and> e = tc_e (thr s (ev_tc (evs s e))) \<and> ev_tc (evs s e) \<in> insert (cur c w) (ended c) \<and>
    \<not> gone c (ev_tc (evs s e)) \<and> (\<forall>v \<in> W. place_of c v \<noteq> To_free (ev_tc (evs s e)))"
    using D(8) [of e] e ng f s(1) by (simp add: ev same_stacks_def split: if_splits)
qed (use s in \<open>auto simp: same_stacks_def\<close>)

lemma exits_free:
  assumes ok: "exits_ok W T c" and st: "stacks_ok W T c" and fl: "flags_ok W T c" and w: "w \<in> W" and pl: "place_of c w = To_free t"
    and r: "tc_thread_free t (view w c) = Inr ((), s)"
  shows "exits_ok W T (move_to w At_part2 s c)"
proof -
  note F = thread_free_facts [OF r]
  note D = exits_okD [OF ok]
  have t: "t \<in> ended c" "\<not> gone c t" using D(5,6) [OF w pl] by simp_all
  have n: "\<not> has_running c v t" if "v \<in> W" for v using stacks_okD(7) [OF st t(2)] F(9) that by simp
  have c: "cur c v \<noteq> t" "place_of c v \<noteq> Left t" if "v \<in> W" for v using n [OF that] by (auto simp: has_running_def)
  have g: "gone (move_to w At_part2 s c) y \<longleftrightarrow> y = t \<or> gone c y" for y by (auto simp: gone_def F)
  have q: "evs s = evs (proc c)" "tc_e (thr s y) = tc_e (thr (proc c) y)" for y using F(1) by (simp_all add: same_queues_def)
  have ex: "ev_tc (evs (proc c) x) \<noteq> t" if "ev_el (evs (proc c) x) \<noteq> None" "ev_flags (evs (proc c) x) = EF_EXITING" for x
    using D(8) [OF that] w pl by auto
  show ?thesis
  proof (rule exits_okI; (unfold g)?)
    fix e assume e: "ev_el (evs (proc (move_to w At_part2 s c)) e) \<noteq> None" "ev_flags (evs (proc (move_to w At_part2 s c)) e) = EF_EXITING"
    then show "ev_el (evs (proc (move_to w At_part2 s c)) e) = Some Immediate \<and>
      e = tc_e (thr (proc (move_to w At_part2 s c)) (ev_tc (evs (proc (move_to w At_part2 s c)) e))) \<and>
      ev_tc (evs (proc (move_to w At_part2 s c)) e) \<in> ended (move_to w At_part2 s c) \<and>
      \<not> (ev_tc (evs (proc (move_to w At_part2 s c)) e) = t \<or> gone c (ev_tc (evs (proc (move_to w At_part2 s c)) e))) \<and>
      (\<forall>v \<in> W. place_of (move_to w At_part2 s c) v \<noteq> To_free (ev_tc (evs (proc (move_to w At_part2 s c)) e)))"
      using D(8) [of e] ex [of e] by (simp add: q)
  next
    fix v y assume v: "v \<in> W" "place_of (move_to w At_part2 s c) v = To_free y"
    then have "v \<noteq> w" "place_of c v = To_free y" by (auto split: if_splits)
    then show "y \<in> ended (move_to w At_part2 s c)" "\<not> (y = t \<or> gone c y)" using v(1) D(5,6) D(7) [OF w pl, of v] by auto
  next
    fix y v assume "y = t \<or> gone c y" "v \<in> W"
    then show "cur (move_to w At_part2 s c) v \<noteq> y" "place_of (move_to w At_part2 s c) v \<noteq> Left y" using D(2,3) [of y v] c [of v] by (auto simp: F(6))
  next
    fix y assume "y = t \<or> gone c y"
    then show "y \<in> ended (move_to w At_part2 s c)" using D(1) [of y] t by auto
  next
    fix y assume "y \<in> T" "\<not> (y = t \<or> gone c y)"
    then show "tc_cr (thr (proc (move_to w At_part2 s c)) y)" using D(4) [of y] by (simp add: F(5))
  next
    fix u v y assume "u \<in> W" "place_of (move_to w At_part2 s c) u = To_free y" "v \<in> W" "place_of (move_to w At_part2 s c) v = To_free y"
    then show "v = u" using D(7) [of u y v] by (auto split: if_splits)
  qed
qed


text \<open>The event queues.\<close>

lemma events_okD:
  assumes "events_ok W T c"
  shows "wf_ev (proc c)" and "lists_unlocked (proc c)" and "signals_ok (proc c)" and "eventfd_ok (proc c)"
    and "ev_el (evs (proc c) e) \<noteq> None \<Longrightarrow> ev_tc (evs (proc c) e) \<in> T"
  using assms by (auto simp: events_ok_def)

lemma events_keep:
  assumes "events_ok W T c" and "proc c' = s" and "wf_ev s" and "signals_ok s" and "sysres s = sysres (proc c)" and "locks s = locks (proc c)"
    and "\<And>x. ev_el (evs s x) \<noteq> None \<Longrightarrow> ev_tc (evs s x) \<in> T"
  shows "events_ok W T c'"
  using assms by (simp add: events_ok_def lists_unlocked_def eventfd_ok_def)

text \<open>The waits.\<close>

lemma waits_okD:
  assumes "waits_ok W T c"
  shows "waits c t = Some e \<Longrightarrow> t \<in> T \<and> t \<notin> ended c \<and> event_stack (thr (proc c) t) = Some e \<and> ev_tc (evs (proc c) e) = t \<and>
      ev_flags (evs (proc c) e) = EF_READY \<and> (\<forall>t' \<in> T. tc_e (thr (proc c) t') \<noteq> e)"
    and "waits c t = Some e \<Longrightarrow> ev_el (evs (proc c) e) = None \<Longrightarrow> \<exists>w \<in> W. busy c w t \<and> place_of c w \<noteq> Runs \<and> woken_by_event (wrk (proc c) w) = Some e"
    and "t \<in> T \<Longrightarrow> t \<notin> ended c \<Longrightarrow> (\<And>w. w \<in> W \<Longrightarrow> \<not> busy c w t) \<Longrightarrow> deaf (proc c) t"
    and "w \<in> W \<Longrightarrow> busy c w t \<Longrightarrow> place_of c w \<noteq> Runs \<Longrightarrow> woken_for c w t"
    and "w \<in> W \<Longrightarrow> place_of c w = Runs \<Longrightarrow> waits c (cur c w) \<noteq> None \<Longrightarrow> woken_by_event (wrk (proc c) w) = None"
  using assms unfolding waits_ok_def by blast+

lemma waits_okI:
  assumes "\<And>t e. waits c t = Some e \<Longrightarrow> t \<in> T \<and> t \<notin> ended c \<and> event_stack (thr (proc c) t) = Some e \<and> ev_tc (evs (proc c) e) = t \<and>
      ev_flags (evs (proc c) e) = EF_READY \<and> (\<forall>t' \<in> T. tc_e (thr (proc c) t') \<noteq> e)"
    and "\<And>t e. waits c t = Some e \<Longrightarrow> ev_el (evs (proc c) e) = None \<Longrightarrow> \<exists>w \<in> W. busy c w t \<and> place_of c w \<noteq> Runs \<and> woken_by_event (wrk (proc c) w) = Some e"
    and "\<And>t. t \<in> T \<Longrightarrow> t \<notin> ended c \<Longrightarrow> (\<And>w. w \<in> W \<Longrightarrow> \<not> busy c w t) \<Longrightarrow> deaf (proc c) t"
    and "\<And>w t. w \<in> W \<Longrightarrow> busy c w t \<Longrightarrow> place_of c w \<noteq> Runs \<Longrightarrow> woken_for c w t"
    and "\<And>w. w \<in> W \<Longrightarrow> place_of c w = Runs \<Longrightarrow> waits c (cur c w) \<noteq> None \<Longrightarrow> woken_by_event (wrk (proc c) w) = None"
  shows "waits_ok W T c"
  unfolding waits_ok_def using assms by blast

text \<open>Steps that neither make a thread run nor stop it, and that move events at most from a wait queue to the immediate list.\<close>

lemma waits_keep:
  assumes ok: "waits_ok W T c" and c': "waits c' = waits c" "ended c' = ended c"
    and b: "\<And>v t. v \<in> W \<Longrightarrow> busy c' v t = busy c v t" "\<And>v. v \<in> W \<Longrightarrow> place_of c' v = Runs \<longleftrightarrow> place_of c v = Runs"
      "\<And>v. v \<in> W \<Longrightarrow> place_of c v = Runs \<Longrightarrow> cur c' v = cur c v"
    and s: "\<And>t. event_stack (thr (proc c') t) = event_stack (thr (proc c) t)" "\<And>t. tc_e (thr (proc c') t) = tc_e (thr (proc c) t)"
      "\<And>x. ev_tc (evs (proc c') x) = ev_tc (evs (proc c) x)" "\<And>x. ev_flags (evs (proc c') x) = ev_flags (evs (proc c) x)"
      "\<And>v. woken_by_event (wrk (proc c') v) = woken_by_event (wrk (proc c) v)"
      "\<And>x. ev_el (evs (proc c') x) = ev_el (evs (proc c) x) \<or> (\<exists>q. ev_el (evs (proc c) x) = Some (Waiters q) \<and> ev_el (evs (proc c') x) = Some Immediate)"
  shows "waits_ok W T c'"
proof (rule waits_okI)
  note D = waits_okD [OF ok]
  have el: "ev_el (evs (proc c') x) = None \<longleftrightarrow> ev_el (evs (proc c) x) = None" for x using s(6) [of x] by auto
  fix t e assume t: "waits c' t = Some e"
  show "t \<in> T \<and> t \<notin> ended c' \<and> event_stack (thr (proc c') t) = Some e \<and> ev_tc (evs (proc c') e) = t \<and>
      ev_flags (evs (proc c') e) = EF_READY \<and> (\<forall>t' \<in> T. tc_e (thr (proc c') t') \<noteq> e)"
    using D(1) [of t e] t by (simp add: c' s)
  assume "ev_el (evs (proc c') e) = None"
  then obtain w where "w \<in> W" "busy c w t" "place_of c w \<noteq> Runs" "woken_by_event (wrk (proc c) w) = Some e"
    using D(2) [of t e] t by (auto simp: c' el)
  then show "\<exists>w \<in> W. busy c' w t \<and> place_of c' w \<noteq> Runs \<and> woken_by_event (wrk (proc c') w) = Some e" using b(1,2) s(5) by auto
next
  note D = waits_okD [OF ok]
  fix t assume t: "t \<in> T" "t \<notin> ended c'" "\<And>w. w \<in> W \<Longrightarrow> \<not> busy c' w t"
  have "deaf (proc c) t" by (rule D(3)) (use t b(1) c' in auto)
  moreover have "ev_el (evs (proc c') x) = Some (Pending t) \<longleftrightarrow> ev_el (evs (proc c) x) = Some (Pending t)" for x using s(6) [of x] by auto
  ultimately show "deaf (proc c') t" by (simp add: deaf_def s)
next
  note D = waits_okD [OF ok]
  have el: "ev_el (evs (proc c') x) = None \<longleftrightarrow> ev_el (evs (proc c) x) = None" for x using s(6) [of x] by auto
  fix w t assume "w \<in> W" "busy c' w t" "place_of c' w \<noteq> Runs"
  then have "woken_for c w t" using D(4) [of w t] b by auto
  then show "woken_for c' w t" by (simp add: woken_for_def c' s(1-5) el)
next
  note D = waits_okD [OF ok]
  fix w assume "w \<in> W" "place_of c' w = Runs" "waits c' (cur c' w) \<noteq> None"
  then show "woken_by_event (wrk (proc c') w) = None" using D(5) [of w] b(2,3) s(5) c'(1) by auto
qed


lemma crew_invD:
  assumes "crew_inv W T c"
  shows "stacks_ok W T c" and "flags_ok W T c" and "exits_ok W T c" and "events_ok W T c" and "waits_ok W T c"
  using assms by (simp_all add: crew_inv_def)

text \<open>At its first entry a thread is in no wait.\<close>

lemma waits_first:
  assumes inv: "crew_inv W T c" and w: "w \<in> W" and pl: "place_of c w = At_entry" and n: "waits c (cur c w) = None"
    and s: "same_queues (proc c) s" "\<And>v. v \<noteq> w \<Longrightarrow> woken_by_event (wrk s v) = woken_by_event (wrk (proc c) v)" "cr_current s = cur c w"
  shows "waits_ok W T (move_to w Runs s c)"
proof (rule waits_okI)
  let ?c = "move_to w Runs s c"
  note D = waits_okD [OF crew_invD(5) [OF inv]]
  have q: "evs s = evs (proc c)" "event_stack (thr s t) = event_stack (thr (proc c) t)" "tc_e (thr s t) = tc_e (thr (proc c) t)" for t
    using s(1) by (simp_all add: same_queues_def)
  have b: "busy ?c v t = busy c v t" for v t using pl s(3) by (auto simp: busy_def)
  fix t e assume t: "waits ?c t = Some e"
  show "t \<in> T \<and> t \<notin> ended ?c \<and> event_stack (thr (proc ?c) t) = Some e \<and> ev_tc (evs (proc ?c) e) = t \<and>
      ev_flags (evs (proc ?c) e) = EF_READY \<and> (\<forall>t' \<in> T. tc_e (thr (proc ?c) t') \<noteq> e)"
    using D(1) [of t e] t by (simp add: q)
  assume "ev_el (evs (proc ?c) e) = None"
  then obtain v where v: "v \<in> W" "busy c v t" "place_of c v \<noteq> Runs" "woken_by_event (wrk (proc c) v) = Some e"
    using D(2) [of t e] t by (auto simp: q)
  moreover have "v \<noteq> w" using v(2) pl n t by (auto simp: busy_def)
  ultimately show "\<exists>v \<in> W. busy ?c v t \<and> place_of ?c v \<noteq> Runs \<and> woken_by_event (wrk (proc ?c) v) = Some e"
    by (intro bexI [of _ v]) (simp_all add: b s(2))
next
  let ?c = "move_to w Runs s c"
  note D = waits_okD [OF crew_invD(5) [OF inv]]
  have b: "busy ?c v t = busy c v t" for v t using pl s(3) by (auto simp: busy_def)
  fix t assume t: "t \<in> T" "t \<notin> ended ?c" "\<And>v. v \<in> W \<Longrightarrow> \<not> busy ?c v t"
  have "deaf (proc c) t" by (rule D(3)) (use t b in auto)
  then show "deaf (proc ?c) t" using s(1) by (simp add: deaf_def same_queues_def)
next
  let ?c = "move_to w Runs s c"
  note D = waits_okD [OF crew_invD(5) [OF inv]]
  fix v t assume v: "v \<in> W" "busy ?c v t" "place_of ?c v \<noteq> Runs"
  then have "v \<noteq> w" "woken_for c v t" using D(4) [of v t] by (auto simp: busy_move split: if_splits)
  then show "woken_for ?c v t" using s(1) by (simp add: woken_for_def s(2) same_queues_def)
next
  let ?c = "move_to w Runs s c"
  note D = waits_okD [OF crew_invD(5) [OF inv]]
  fix v assume "v \<in> W" "place_of ?c v = Runs" "waits ?c (cur ?c v) \<noteq> None"
  then have "v \<noteq> w" "woken_by_event (wrk (proc c) v) = None" using D(5) [of v] n s(3) by (auto split: if_splits)
  then show "woken_by_event (wrk (proc ?c) v) = None" by (simp add: s(2))
qed

text \<open>The three ways of dispatching an event: it becomes pending, its thread is freed, or its thread is taken to run.\<close>

lemma waits_queued:
  assumes inv: "crew_inv W T c" and w: "w \<in> W" and pl: "place_of c w = At_part2" and el: "ev_el (evs (proc c) e) = Some l"
    and q: "must_queue e t (proc c)" and t: "t = ev_tc (evs (proc c) e)"
    and s: "\<And>y. event_stack (thr s y) = event_stack (thr (proc c) y)" "\<And>y. tc_e (thr s y) = tc_e (thr (proc c) y)"
      "\<And>x. ev_tc (evs s x) = ev_tc (evs (proc c) x)" "\<And>x. ev_flags (evs s x) = ev_flags (evs (proc c) x)"
      "\<And>v. woken_by_event (wrk s v) = woken_by_event (wrk (proc c) v)"
      "\<And>x. ev_el (evs s x) = (if x = e then Some (Pending t) else ev_el (evs (proc c) x))"
  shows "waits_ok W T (move_to w At_part2 s c)"
proof (rule waits_okI)
  let ?c = "move_to w At_part2 s c"
  note D = waits_okD [OF crew_invD(5) [OF inv]]
  have b: "busy ?c v y = busy c v y" for v y using pl by (auto simp: busy_def)
  fix y x assume y: "waits ?c y = Some x"
  show "y \<in> T \<and> y \<notin> ended ?c \<and> event_stack (thr (proc ?c) y) = Some x \<and>
      ev_tc (evs (proc ?c) x) = y \<and> ev_flags (evs (proc ?c) x) = EF_READY \<and>
      (\<forall>t' \<in> T. tc_e (thr (proc ?c) t') \<noteq> x)"
    using D(1) [of y x] y by (simp add: s)
  assume "ev_el (evs (proc ?c) x) = None"
  then obtain v where v: "v \<in> W" "busy c v y" "place_of c v \<noteq> Runs" "woken_by_event (wrk (proc c) v) = Some x"
    using D(2) [of y x] y by (auto simp: s split: if_splits)
  then show "\<exists>v \<in> W. busy ?c v y \<and> place_of ?c v \<noteq> Runs \<and>
      woken_by_event (wrk (proc ?c) v) = Some x"
    by (intro bexI [of _ v]) (auto simp: b s(5))
next
  let ?c = "move_to w At_part2 s c"
  note D = waits_okD [OF crew_invD(5) [OF inv]]
  have b: "busy ?c v y = busy c v y" for v y using pl by (auto simp: busy_def)
  fix y assume y: "y \<in> T" "y \<notin> ended ?c" "\<And>v. v \<in> W \<Longrightarrow> \<not> busy ?c v y"
  have d: "deaf (proc c) y" by (rule D(3)) (use y b in auto)
  have "TF_RUNNING \<notin> tc_flags (thr (proc c) y)" using flags_okD(2) [OF crew_invD(2) [OF inv] y(1)] y(2,3) b by auto
  then have "t = y \<Longrightarrow> ev_flags (evs (proc c) e) \<noteq> EF_SIGNAL \<and> (\<exists>tp. event_stack (thr (proc c) y) = Some tp \<and> tp \<noteq> e)"
    using q by (auto simp: must_queue_def)
  with d show "deaf (proc ?c) y" by (auto simp: deaf_def s split: if_splits)
next
  let ?c = "move_to w At_part2 s c"
  note D = waits_okD [OF crew_invD(5) [OF inv]]
  fix v y assume v: "v \<in> W" "busy ?c v y" "place_of ?c v \<noteq> Runs"
  then have "woken_for c v y" using D(4) [of v y] pl by (auto simp: busy_def split: if_splits)
  then show "woken_for ?c v y" by (auto simp: woken_for_def s)
next
  let ?c = "move_to w At_part2 s c"
  note D = waits_okD [OF crew_invD(5) [OF inv]]
  fix v assume "v \<in> W" "place_of ?c v = Runs" "waits ?c (cur ?c v) \<noteq> None"
  then show "woken_by_event (wrk (proc ?c) v) = None" using D(5) [of v] by (auto simp: s(5) split: if_splits)
qed


lemma waits_exit:
  assumes inv: "crew_inv W T c" and w: "w \<in> W" and pl: "place_of c w = At_part2" and e: "ev_flags (evs (proc c) e) = EF_EXITING"
    and s: "\<And>y. event_stack (thr s y) = event_stack (thr (proc c) y)" "\<And>y. tc_e (thr s y) = tc_e (thr (proc c) y)"
      "\<And>x. ev_tc (evs s x) = ev_tc (evs (proc c) x)" "\<And>x. ev_flags (evs s x) = ev_flags (evs (proc c) x)"
      "\<And>v. woken_by_event (wrk s v) = woken_by_event (wrk (proc c) v)"
      "\<And>x. ev_el (evs s x) = (if x = e then None else ev_el (evs (proc c) x))"
  shows "waits_ok W T (move_to w (To_free t) s c)"
proof (rule waits_okI)
  let ?c = "move_to w (To_free t) s c"
  note D = waits_okD [OF crew_invD(5) [OF inv]]
  have b: "busy ?c v y = busy c v y" for v y using pl by (auto simp: busy_def)
  fix y x assume y: "waits ?c y = Some x"
  then have x: "x \<noteq> e" using D(1) [of y x] e by auto
  show "y \<in> T \<and> y \<notin> ended ?c \<and> event_stack (thr (proc ?c) y) = Some x \<and> ev_tc (evs (proc ?c) x) = y \<and>
      ev_flags (evs (proc ?c) x) = EF_READY \<and> (\<forall>t' \<in> T. tc_e (thr (proc ?c) t') \<noteq> x)"
    using D(1) [of y x] y by (simp add: s)
  assume "ev_el (evs (proc ?c) x) = None"
  then obtain v where v: "v \<in> W" "busy c v y" "place_of c v \<noteq> Runs" "woken_by_event (wrk (proc c) v) = Some x"
    using D(2) [of y x] y x by (auto simp: s split: if_splits)
  then show "\<exists>v \<in> W. busy ?c v y \<and> place_of ?c v \<noteq> Runs \<and> woken_by_event (wrk (proc ?c) v) = Some x"
    by (intro bexI [of _ v]) (auto simp: b s(5))
next
  let ?c = "move_to w (To_free t) s c"
  note D = waits_okD [OF crew_invD(5) [OF inv]]
  have b: "busy ?c v y = busy c v y" for v y using pl by (auto simp: busy_def)
  fix y assume y: "y \<in> T" "y \<notin> ended ?c" "\<And>v. v \<in> W \<Longrightarrow> \<not> busy ?c v y"
  have "deaf (proc c) y" by (rule D(3)) (use y b in auto)
  then show "deaf (proc ?c) y" by (auto simp: deaf_def s split: if_splits)
next
  let ?c = "move_to w (To_free t) s c"
  note D = waits_okD [OF crew_invD(5) [OF inv]]
  fix v y assume v: "v \<in> W" "busy ?c v y" "place_of ?c v \<noteq> Runs"
  then have "woken_for c v y" using D(4) [of v y] pl by (auto simp: busy_def split: if_splits)
  then show "woken_for ?c v y" using e by (auto simp: woken_for_def s)
next
  let ?c = "move_to w (To_free t) s c"
  note D = waits_okD [OF crew_invD(5) [OF inv]]
  fix v assume "v \<in> W" "place_of ?c v = Runs" "waits ?c (cur ?c v) \<noteq> None"
  then show "woken_by_event (wrk (proc ?c) v) = None" using D(5) [of v] by (auto simp: s(5) split: if_splits)
qed

lemma waits_taken:
  assumes inv: "crew_inv W T c" and w: "w \<in> W" and pl: "place_of c w = At_part2" and el: "ev_el (evs (proc c) e) \<noteq> None"
    and q: "\<not> must_queue e t (proc c)" and t: "t = ev_tc (evs (proc c) e)"
    and s: "\<And>y. event_stack (thr s y) = event_stack (thr (proc c) y)" "\<And>y. tc_e (thr s y) = tc_e (thr (proc c) y)"
      "\<And>x. ev_tc (evs s x) = ev_tc (evs (proc c) x)" "\<And>x. ev_flags (evs s x) = ev_flags (evs (proc c) x)"
      "\<And>v. woken_by_event (wrk s v) = (if v = w then Some e else woken_by_event (wrk (proc c) v))"
      "\<And>x. x \<noteq> e \<Longrightarrow> ev_el (evs s x) = ev_el (evs (proc c) x)"
      "ev_el (evs s e) = (if ev_flags (evs (proc c) e) = EF_SIGNAL then Some (Waiters z) else None)"
  shows "waits_ok W T (move_to w (To_thread t) s c)"
proof (rule waits_okI)
  let ?c = "move_to w (To_thread t) s c"
  note D = waits_okD [OF crew_invD(5) [OF inv]]
  have nw: "\<not> busy c w y" for y using pl by (simp add: busy_def)
  fix y x assume y: "waits ?c y = Some x"
  show "y \<in> T \<and> y \<notin> ended ?c \<and> event_stack (thr (proc ?c) y) = Some x \<and> ev_tc (evs (proc ?c) x) = y \<and>
      ev_flags (evs (proc ?c) x) = EF_READY \<and> (\<forall>t' \<in> T. tc_e (thr (proc ?c) t') \<noteq> x)"
    using D(1) [of y x] y by (simp add: s)
  assume n: "ev_el (evs (proc ?c) x) = None"
  show "\<exists>v \<in> W. busy ?c v y \<and> place_of ?c v \<noteq> Runs \<and> woken_by_event (wrk (proc ?c) v) = Some x"
  proof (cases "x = e")
    case True
    then have "y = t" using D(1) [of y x] y t by auto
    then show ?thesis using True w by (intro bexI [of _ w]) (auto simp: busy_move s(5))
  next
    case False
    then obtain v where v: "v \<in> W" "busy c v y" "place_of c v \<noteq> Runs" "woken_by_event (wrk (proc c) v) = Some x"
      using D(2) [of y x] y n s(6) by auto
    then have "v \<noteq> w" using nw by auto
    with v show ?thesis by (intro bexI [of _ v]) (auto simp: busy_move s(5))
  qed
next
  let ?c = "move_to w (To_thread t) s c"
  note D = waits_okD [OF crew_invD(5) [OF inv]]
  fix y assume y: "y \<in> T" "y \<notin> ended ?c" "\<And>v. v \<in> W \<Longrightarrow> \<not> busy ?c v y"
  have "\<not> busy c v y" if "v \<in> W" for v using y(3) [OF that] pl by (auto simp: busy_move busy_def split: if_splits)
  then have d: "deaf (proc c) y" using y by (intro D(3)) auto
  moreover have "ev_el (evs s x) = Some (Pending y) \<Longrightarrow> ev_el (evs (proc c) x) = Some (Pending y)" for x
    using s(6) [of x] s(7) by (cases "x = e") (auto split: if_splits)
  ultimately show "deaf (proc ?c) y" by (auto simp: deaf_def s(1,4))
next
  let ?c = "move_to w (To_thread t) s c"
  note D = waits_okD [OF crew_invD(5) [OF inv]]
  fix v y assume v: "v \<in> W" "busy ?c v y" "place_of ?c v \<noteq> Runs"
  show "woken_for ?c v y"
  proof (cases "v = w")
    case True
    then have y: "y = t" using v(2) by (auto simp: busy_move)
    have "waits c t = None \<or> waits c t = Some e \<or> ev_flags (evs (proc c) e) = EF_SIGNAL"
      using D(1) [of t] q by (cases "waits c t") (auto simp: must_queue_def)
    then show ?thesis using True y by (auto simp: woken_for_def s(4,5,7))
  next
    case False
    then have "woken_for c v y" using v D(4) [of v y] by (auto simp: busy_move)
    moreover have "ev_flags (evs (proc c) x) = EF_SIGNAL \<Longrightarrow> ev_el (evs (proc c) x) \<noteq> None \<Longrightarrow> ev_el (evs s x) \<noteq> None" for x
      using s(6) [of x] s(7) by (cases "x = e") auto
    ultimately show ?thesis using False by (auto simp: woken_for_def s(4,5))
  qed
next
  let ?c = "move_to w (To_thread t) s c"
  note D = waits_okD [OF crew_invD(5) [OF inv]]
  fix v assume "v \<in> W" "place_of ?c v = Runs" "waits ?c (cur ?c v) \<noteq> None"
  then show "woken_by_event (wrk (proc ?c) v) = None" using D(5) [of v] by (auto simp: s(5) split: if_splits)
qed


text \<open>The steps of a running thread on its own wait: it begins one, ends one, is continued by the scheduler or stops.\<close>

lemma waits_begin:
  assumes inv: "crew_inv W T c" and w: "w \<in> W" and pl: "place_of c w = Runs"
    and e: "ev_el (evs (proc c) e) = None" "\<forall>t. waits c t \<noteq> Some e" "\<forall>t \<in> T. tc_e (thr (proc c) t) \<noteq> e"
    and s: "\<And>y. event_stack (thr s y) = (if y = cur c w then Some e else event_stack (thr (proc c) y))" "\<And>y. tc_e (thr s y) = tc_e (thr (proc c) y)"
      "\<And>x. ev_tc (evs s x) = (if x = e then cur c w else ev_tc (evs (proc c) x))" "\<And>x. ev_flags (evs s x) = (if x = e then EF_READY else ev_flags (evs (proc c) x))"
      "\<And>v. woken_by_event (wrk s v) = (if v = w then None else woken_by_event (wrk (proc c) v))"
      "\<And>x. ev_el (evs s x) = (if x = e then Some (Waiters q) else ev_el (evs (proc c) x))" "cr_current s = cur c w"
  shows "waits_ok W T ((move_to w Runs s c)\<lparr>waits := (waits c)(cur c w := Some e)\<rparr>)"
proof (rule waits_okI)
  let ?c = "(move_to w Runs s c)\<lparr>waits := (waits c)(cur c w := Some e)\<rparr>"
  note D = waits_okD [OF crew_invD(5) [OF inv]]
  note F = flags_okD [OF crew_invD(2) [OF inv]]
  have cw: "cur c w \<in> T" "cur c w \<notin> ended c" using F(3,4) [OF w, of "cur c w"] pl by (auto simp: busy_def)
  fix y x assume y: "waits ?c y = Some x"
  show "y \<in> T \<and> y \<notin> ended ?c \<and> event_stack (thr (proc ?c) y) = Some x \<and> ev_tc (evs (proc ?c) x) = y \<and>
      ev_flags (evs (proc ?c) x) = EF_READY \<and> (\<forall>t' \<in> T. tc_e (thr (proc ?c) t') \<noteq> x)"
    using D(1) [of y x] y cw e by (auto simp: s split: if_splits)
  assume "ev_el (evs (proc ?c) x) = None"
  then have "x \<noteq> e" "y \<noteq> cur c w" "waits c y = Some x" using y by (auto simp: s split: if_splits)
  with \<open>ev_el (evs (proc ?c) x) = None\<close> obtain v where v: "v \<in> W" "busy c v y" "place_of c v \<noteq> Runs" "woken_by_event (wrk (proc c) v) = Some x"
    using D(2) [of y x] by (auto simp: s)
  then have "v \<noteq> w" using pl by auto
  with v show "\<exists>v \<in> W. busy ?c v y \<and> place_of ?c v \<noteq> Runs \<and> woken_by_event (wrk (proc ?c) v) = Some x"
    by (intro bexI [of _ v]) (auto simp: busy_move s(5))
next
  let ?c = "(move_to w Runs s c)\<lparr>waits := (waits c)(cur c w := Some e)\<rparr>"
  note D = waits_okD [OF crew_invD(5) [OF inv]]
  have b: "busy ?c v y = busy c v y" for v y using pl s(7) by (auto simp: busy_def)
  fix y assume y: "y \<in> T" "y \<notin> ended ?c" "\<And>v. v \<in> W \<Longrightarrow> \<not> busy ?c v y"
  then have "y \<noteq> cur c w" using pl w b by (auto simp: busy_def)
  moreover have "deaf (proc c) y" by (rule D(3)) (use y b in auto)
  ultimately show "deaf (proc ?c) y" by (auto simp: deaf_def s split: if_splits)
next
  let ?c = "(move_to w Runs s c)\<lparr>waits := (waits c)(cur c w := Some e)\<rparr>"
  note D = waits_okD [OF crew_invD(5) [OF inv]]
  fix v y assume v: "v \<in> W" "busy ?c v y" "place_of ?c v \<noteq> Runs"
  then have vw: "v \<noteq> w" "busy c v y" by (auto simp: busy_move split: if_splits)
  then have "y \<noteq> cur c w" using flags_okD(5) [OF crew_invD(2) [OF inv] w, of "cur c w" v] pl v(1) by (auto simp: busy_def)
  moreover have "woken_for c v y" using D(4) [of v y] v vw by auto
  ultimately show "woken_for ?c v y" using vw(1) e(1) by (auto simp: woken_for_def s)
next
  let ?c = "(move_to w Runs s c)\<lparr>waits := (waits c)(cur c w := Some e)\<rparr>"
  note D = waits_okD [OF crew_invD(5) [OF inv]]
  note F = flags_okD(5) [OF crew_invD(2) [OF inv] w, of "cur c w"]
  fix v assume v: "v \<in> W" "place_of ?c v = Runs" "waits ?c (cur ?c v) \<noteq> None"
  show "woken_by_event (wrk (proc ?c) v) = None"
  proof (cases "v = w")
    case False
    then have "cur c v \<noteq> cur c w" using F [of v] v pl by (auto simp: busy_def)
    then show ?thesis using False v D(5) [of v] by (auto simp: s(5) s(7))
  qed (simp add: s(5))
qed

lemma waits_end:
  assumes inv: "crew_inv W T c" and w: "w \<in> W" and pl: "place_of c w = Runs \<or> place_of c w = Returned" and wt: "waits c (cur c w) = Some e"
    and s: "\<And>y. y \<noteq> cur c w \<Longrightarrow> event_stack (thr s y) = event_stack (thr (proc c) y)" "\<And>y. tc_e (thr s y) = tc_e (thr (proc c) y)"
      "\<And>x. ev_tc (evs s x) = ev_tc (evs (proc c) x) \<or> ev_flags (evs (proc c) x) = EF_SIGNAL" "\<And>x. ev_flags (evs s x) = ev_flags (evs (proc c) x)"
      "\<And>v. v \<noteq> w \<Longrightarrow> woken_by_event (wrk s v) = woken_by_event (wrk (proc c) v)"
      "\<And>x. x \<noteq> e \<Longrightarrow> ev_el (evs s x) = ev_el (evs (proc c) x) \<or> (ev_flags (evs (proc c) x) = EF_SIGNAL \<and> ev_el (evs s x) = Some (Pending (cur c w)))"
      "ev_el (evs s e) = None" "cr_current s = cur c w"
  shows "waits_ok W T ((move_to w Runs s c)\<lparr>waits := (waits c)(cur c w := None)\<rparr>)"
proof (rule waits_okI)
  let ?c = "(move_to w Runs s c)\<lparr>waits := (waits c)(cur c w := None)\<rparr>"
  note D = waits_okD [OF crew_invD(5) [OF inv]]
  note F = flags_okD(5) [OF crew_invD(2) [OF inv] w, of "cur c w"]
  fix y x assume y: "waits ?c y = Some x"
  then have yc: "y \<noteq> cur c w" "waits c y = Some x" by (auto split: if_splits)
  have R: "ev_flags (evs (proc c) x) = EF_READY" using D(1) [OF yc(2)] by simp
  show "y \<in> T \<and> y \<notin> ended ?c \<and> event_stack (thr (proc ?c) y) = Some x \<and> ev_tc (evs (proc ?c) x) = y \<and>
      ev_flags (evs (proc ?c) x) = EF_READY \<and> (\<forall>t' \<in> T. tc_e (thr (proc ?c) t') \<noteq> x)"
    using D(1) [OF yc(2)] s(3) [of x] yc(1) by (simp add: s(1,2,4))
  have "x \<noteq> e" using D(1) [OF yc(2)] D(1) [OF wt] yc(1) by auto
  moreover assume "ev_el (evs (proc ?c) x) = None"
  ultimately obtain v where v: "v \<in> W" "busy c v y" "place_of c v \<noteq> Runs" "woken_by_event (wrk (proc c) v) = Some x"
    using D(2) [OF yc(2)] s(6) [of x] R by auto
  then have "v \<noteq> w" using pl yc(1) by (auto simp: busy_def)
  with v show "\<exists>v \<in> W. busy ?c v y \<and> place_of ?c v \<noteq> Runs \<and> woken_by_event (wrk (proc ?c) v) = Some x"
    by (intro bexI [of _ v]) (auto simp: busy_move s(5))
next
  let ?c = "(move_to w Runs s c)\<lparr>waits := (waits c)(cur c w := None)\<rparr>"
  note D = waits_okD [OF crew_invD(5) [OF inv]]
  have b: "busy ?c v y = busy c v y" for v y using pl s(8) by (auto simp: busy_def)
  fix y assume y: "y \<in> T" "y \<notin> ended ?c" "\<And>v. v \<in> W \<Longrightarrow> \<not> busy ?c v y"
  then have yc: "y \<noteq> cur c w" using pl w b by (auto simp: busy_def)
  have "ev_el (evs s x) = Some (Pending y) \<Longrightarrow> ev_el (evs (proc c) x) = Some (Pending y)" for x
    using s(6) [of x] s(7) yc by (cases "x = e") auto
  moreover have "deaf (proc c) y" by (rule D(3)) (use y b in auto)
  ultimately show "deaf (proc ?c) y" using yc by (auto simp: deaf_def s(1,4))
next
  let ?c = "(move_to w Runs s c)\<lparr>waits := (waits c)(cur c w := None)\<rparr>"
  note D = waits_okD [OF crew_invD(5) [OF inv]]
  fix v y assume v: "v \<in> W" "busy ?c v y" "place_of ?c v \<noteq> Runs"
  then have vw: "v \<noteq> w" "busy c v y" by (auto simp: busy_move split: if_splits)
  then have "y \<noteq> cur c w" using flags_okD(5) [OF crew_invD(2) [OF inv] w, of "cur c w" v] pl v(1) by (auto simp: busy_def)
  moreover have "woken_for c v y" using D(4) [of v y] v vw by auto
  moreover have "ev_flags (evs (proc c) x) = EF_SIGNAL \<Longrightarrow> ev_el (evs (proc c) x) \<noteq> None \<Longrightarrow> ev_el (evs s x) \<noteq> None" for x
    using s(6) [of x] D(1) [OF wt] by (cases "x = e") auto
  ultimately show "woken_for ?c v y" using vw(1) by (auto simp: woken_for_def s(4,5))
next
  let ?c = "(move_to w Runs s c)\<lparr>waits := (waits c)(cur c w := None)\<rparr>"
  note D = waits_okD [OF crew_invD(5) [OF inv]]
  fix v assume v: "v \<in> W" "place_of ?c v = Runs" "waits ?c (cur ?c v) \<noteq> None"
  then have "v \<noteq> w" by (auto simp: s(8))
  then show "woken_by_event (wrk (proc ?c) v) = None" using v D(5) [of v] by (auto simp: s(5) split: if_splits)
qed


lemma pick_waited:
  assumes "pick_pending s t = Some x" and "event_stack (thr s t) = Some e"
  shows "x = e \<or> ev_flags (evs s x) = EF_SIGNAL"
proof -
  have "find_pending s e None (evl s (Pending t)) = Some x"
    using assms by (auto simp: pick_pending_def split: list.splits)
  then show ?thesis
    using find_pending_signal [of e "evl s (Pending t)" s None x] find_pending_top [of e "evl s (Pending t)" s None] by fastforce
qed

lemma pick_pending_cong:
  assumes "evs s' = evs s" and "evl s' = evl s" and "thr s' = thr s"
  shows "pick_pending s' t = pick_pending s t"
proof -
  have "find_pending s' tp sig es = find_pending s tp sig es" for tp sig es by (induction es arbitrary: sig) (simp_all add: assms)
  then show ?thesis by (simp add: pick_pending_def assms split: list.splits option.splits)
qed

lemma waits_stay:
  assumes inv: "crew_inv W T c" and w: "w \<in> W" and pl: "place_of c w = Runs" and wt: "waits c (cur c w) = Some e"
    and x: "x = e \<or> ev_flags (evs (proc c) x) = EF_SIGNAL"
    and s: "\<And>y. event_stack (thr s y) = event_stack (thr (proc c) y)" "\<And>y. tc_e (thr s y) = tc_e (thr (proc c) y)"
      "\<And>y. ev_tc (evs s y) = ev_tc (evs (proc c) y)" "\<And>y. ev_flags (evs s y) = ev_flags (evs (proc c) y)"
      "\<And>v. woken_by_event (wrk s v) = (if v = w then Some x else woken_by_event (wrk (proc c) v))"
      "\<And>y. ev_el (evs s y) = (if y \<noteq> x then ev_el (evs (proc c) y) else if ev_flags (evs (proc c) x) = EF_SIGNAL then Some (Waiters q) else None)"
      "cr_current s = cur c w"
  shows "waits_ok W T (move_to w Returned s c)"
proof (rule waits_okI)
  let ?c = "move_to w Returned s c"
  note D = waits_okD [OF crew_invD(5) [OF inv]]
  fix y z assume y: "waits ?c y = Some z"
  show "y \<in> T \<and> y \<notin> ended ?c \<and> event_stack (thr (proc ?c) y) = Some z \<and> ev_tc (evs (proc ?c) z) = y \<and>
      ev_flags (evs (proc ?c) z) = EF_READY \<and> (\<forall>t' \<in> T. tc_e (thr (proc ?c) t') \<noteq> z)"
    using D(1) [of y z] y by (simp add: s)
  assume n: "ev_el (evs (proc ?c) z) = None"
  show "\<exists>v \<in> W. busy ?c v y \<and> place_of ?c v \<noteq> Runs \<and> woken_by_event (wrk (proc ?c) v) = Some z"
  proof (cases "z = x")
    case True
    then have "z = e" using x D(1) [of y z] y by auto
    then have "y = cur c w" using D(1) [of y z] D(1) [OF wt] y by auto
    then show ?thesis using w True by (intro bexI [of _ w]) (auto simp: busy_move s(5,7))
  next
    case False
    then obtain v where v: "v \<in> W" "busy c v y" "place_of c v \<noteq> Runs" "woken_by_event (wrk (proc c) v) = Some z"
      using D(2) [of y z] y n by (auto simp: s(6))
    then have "v \<noteq> w" using pl by auto
    with v show ?thesis by (intro bexI [of _ v]) (auto simp: busy_move s(5))
  qed
next
  let ?c = "move_to w Returned s c"
  note D = waits_okD [OF crew_invD(5) [OF inv]]
  have b: "busy ?c v y = busy c v y" for v y using pl s(7) by (auto simp: busy_def)
  fix y assume y: "y \<in> T" "y \<notin> ended ?c" "\<And>v. v \<in> W \<Longrightarrow> \<not> busy ?c v y"
  have "deaf (proc c) y" by (rule D(3)) (use y b in auto)
  then show "deaf (proc ?c) y" by (auto simp: deaf_def s split: if_splits)
next
  let ?c = "move_to w Returned s c"
  note D = waits_okD [OF crew_invD(5) [OF inv]]
  fix v y assume v: "v \<in> W" "busy ?c v y" "place_of ?c v \<noteq> Runs"
  show "woken_for ?c v y"
  proof (cases "v = w")
    case True
    then have "y = cur c w" using v(2) by (auto simp: busy_move s(7))
    then show ?thesis using True x wt by (auto simp: woken_for_def s)
  next
    case False
    then have "woken_for c v y" using v D(4) [of v y] by (auto simp: busy_move)
    moreover have "ev_flags (evs (proc c) z) = EF_SIGNAL \<Longrightarrow> ev_el (evs (proc c) z) \<noteq> None \<Longrightarrow> ev_el (evs s z) \<noteq> None" for z
      by (auto simp: s(6))
    ultimately show ?thesis using False by (auto simp: woken_for_def s(4,5))
  qed
next
  let ?c = "move_to w Returned s c"
  note D = waits_okD [OF crew_invD(5) [OF inv]]
  fix v assume "v \<in> W" "place_of ?c v = Runs" "waits ?c (cur ?c v) \<noteq> None"
  then show "woken_by_event (wrk (proc ?c) v) = None" using D(5) [of v] by (auto simp: s(5) split: if_splits)
qed

text \<open>The thread stops, in a wait or for good.\<close>

lemma waits_posted:
  assumes ok: "waits_ok W T c" and t: "t \<in> T"
    and ev: "ev_el (evs (proc c) (tc_e (thr (proc c) t))) = None" "\<And>x. ev_tc (evs s x) = (if x = tc_e (thr (proc c) t) then t else ev_tc (evs (proc c) x))"
      "\<And>x. ev_flags (evs s x) = (if x = tc_e (thr (proc c) t) then EF_READY else ev_flags (evs (proc c) x))"
      "\<And>x. ev_el (evs s x) = (if x = tc_e (thr (proc c) t) then Some Immediate else ev_el (evs (proc c) x))"
    and s: "proc c' = s" "waits c' = waits c" "ended c' = ended c" "place_of c' = place_of c" "cur c' = cur c" "\<And>y. event_stack (thr s y) = event_stack (thr (proc c) y)"
      "\<And>y. tc_e (thr s y) = tc_e (thr (proc c) y)" "\<And>v. woken_by_event (wrk s v) = woken_by_event (wrk (proc c) v)" "\<And>v y. busy c' v y = busy c v y"
  shows "waits_ok W T c'"
proof (rule waits_okI)
  note D = waits_okD [OF ok]
  fix y z assume "waits c' y = Some z"
  then have y: "waits c y = Some z" using s by simp
  have z: "z \<noteq> tc_e (thr (proc c) t)" using D(1) [OF y] t by auto
  show "y \<in> T \<and> y \<notin> ended c' \<and> event_stack (thr (proc c') y) = Some z \<and> ev_tc (evs (proc c') z) = y \<and>
      ev_flags (evs (proc c') z) = EF_READY \<and> (\<forall>t' \<in> T. tc_e (thr (proc c') t') \<noteq> z)"
    using D(1) [OF y] z by (simp add: s ev)
  assume "ev_el (evs (proc c') z) = None"
  then show "\<exists>w \<in> W. busy c' w y \<and> place_of c' w \<noteq> Runs \<and> woken_by_event (wrk (proc c') w) = Some z"
    using D(2) [OF y] z by (simp add: s ev)
next
  fix y assume "y \<in> T" "y \<notin> ended c'" "\<And>w. w \<in> W \<Longrightarrow> \<not> busy c' w y"
  then have "deaf (proc c) y" using waits_okD(3) [OF ok] s by simp
  then show "deaf (proc c') y" by (auto simp: deaf_def s ev)
next
  fix w y assume "w \<in> W" "busy c' w y" "place_of c' w \<noteq> Runs"
  then have "woken_for c w y" using waits_okD(4) [OF ok] s by simp
  then show "woken_for c' w y" using ev(1) by (auto simp: woken_for_def s ev)
next
  fix w assume "w \<in> W" "place_of c' w = Runs" "waits c' (cur c' w) \<noteq> None"
  then show "woken_by_event (wrk (proc c') w) = None" using waits_okD(5) [OF ok] s by simp
qed

lemma waits_stop:
  assumes inv: "crew_inv W T c" and w: "w \<in> W" and pl: "place_of c w = Runs"
    and E: "(E = ended c \<and> deaf s (cur c w)) \<or> (E = insert (cur c w) (ended c) \<and> waits c (cur c w) = None)"
    and s: "\<And>y. event_stack (thr s y) = event_stack (thr (proc c) y)" "\<And>y. tc_e (thr s y) = tc_e (thr (proc c) y)"
      "\<And>v. woken_by_event (wrk s v) = woken_by_event (wrk (proc c) v)"
      "\<And>x. x \<noteq> tc_e (thr (proc c) (cur c w)) \<Longrightarrow> ev_tc (evs s x) = ev_tc (evs (proc c) x) \<and> ev_flags (evs s x) = ev_flags (evs (proc c) x) \<and> ev_el (evs s x) = ev_el (evs (proc c) x)"
      "(let x = tc_e (thr (proc c) (cur c w)) in evs s x = evs (proc c) x \<or> (ev_el (evs (proc c) x) = None \<and> ev_el (evs s x) = Some Immediate))"
  shows "waits_ok W T (move_to w To_part2 s (c\<lparr>ended := E\<rparr>))"
proof (rule waits_okI)
  let ?c = "move_to w To_part2 s (c\<lparr>ended := E\<rparr>)" and ?x = "tc_e (thr (proc c) (cur c w))"
  note D = waits_okD [OF crew_invD(5) [OF inv]]
  have cT: "cur c w \<in> T" using flags_okD(3) [OF crew_invD(2) [OF inv] w, of "cur c w"] pl by (auto simp: busy_def)
  fix y z assume "waits ?c y = Some z"
  then have y: "waits c y = Some z" by simp
  have z: "z \<noteq> ?x" using D(1) [OF y] cT by auto
  show "y \<in> T \<and> y \<notin> ended ?c \<and> event_stack (thr (proc ?c) y) = Some z \<and> ev_tc (evs (proc ?c) z) = y \<and>
      ev_flags (evs (proc ?c) z) = EF_READY \<and> (\<forall>t' \<in> T. tc_e (thr (proc ?c) t') \<noteq> z)"
    using D(1) [OF y] y E s(4) [OF z] by (auto simp: s(1,2))
  assume "ev_el (evs (proc ?c) z) = None"
  then obtain v where v: "v \<in> W" "busy c v y" "place_of c v \<noteq> Runs" "woken_by_event (wrk (proc c) v) = Some z"
    using D(2) [OF y] s(4) [OF z] by auto
  then have "v \<noteq> w" using pl by auto
  with v show "\<exists>v \<in> W. busy ?c v y \<and> place_of ?c v \<noteq> Runs \<and> woken_by_event (wrk (proc ?c) v) = Some z"
    by (intro bexI [of _ v]) (auto simp: busy_def s(3))
next
  let ?c = "move_to w To_part2 s (c\<lparr>ended := E\<rparr>)" and ?x = "tc_e (thr (proc c) (cur c w))"
  note D = waits_okD [OF crew_invD(5) [OF inv]]
  fix y assume y: "y \<in> T" "y \<notin> ended ?c" "\<And>v. v \<in> W \<Longrightarrow> \<not> busy ?c v y"
  show "deaf (proc ?c) y"
  proof (cases "y = cur c w")
    case True
    then show ?thesis using y(2) E by auto
  next
    case False
    then have "\<not> busy c v y" if "v \<in> W" for v using y(3) [OF that] pl by (auto simp: busy_def split: if_splits)
    then have "deaf (proc c) y" using y E by (intro D(3)) auto
    moreover have "ev_el (evs s z) = Some (Pending y) \<Longrightarrow> ev_el (evs (proc c) z) = Some (Pending y) \<and> ev_flags (evs s z) = ev_flags (evs (proc c) z)" for z
      using s(4) [of z] s(5) by (cases "z = ?x") (auto simp: Let_def)
    ultimately show ?thesis by (auto simp: deaf_def s(1))
  qed
next
  let ?c = "move_to w To_part2 s (c\<lparr>ended := E\<rparr>)" and ?x = "tc_e (thr (proc c) (cur c w))"
  note D = waits_okD [OF crew_invD(5) [OF inv]]
  fix v y assume v: "v \<in> W" "busy ?c v y" "place_of ?c v \<noteq> Runs"
  then have vw: "v \<noteq> w" "busy c v y" by (auto simp: busy_def split: if_splits)
  then have "woken_for c v y" using v D(4) [of v y] by auto
  moreover have "ev_flags (evs (proc c) z) = EF_SIGNAL \<Longrightarrow> ev_el (evs (proc c) z) \<noteq> None \<Longrightarrow> ev_flags (evs s z) = EF_SIGNAL \<and> ev_el (evs s z) \<noteq> None" for z
    using s(4) [of z] s(5) by (cases "z = ?x") (auto simp: Let_def)
  ultimately show "woken_for ?c v y" by (auto simp: woken_for_def s(3))
next
  let ?c = "move_to w To_part2 s (c\<lparr>ended := E\<rparr>)"
  note D = waits_okD [OF crew_invD(5) [OF inv]]
  fix v assume "v \<in> W" "place_of ?c v = Runs" "waits ?c (cur ?c v) \<noteq> None"
  then show "woken_by_event (wrk (proc ?c) v) = None" using D(5) [of v] by (auto simp: s(3) split: if_splits)
qed


text \<open>What a thread finds when it continues is what the theory of waiting assumes of everything that happens while it is switched out.\<close>

lemma crew_continued:
  assumes inv: "crew_inv W T c" and w: "w \<in> W" and pl: "place_of c w = Runs \<or> place_of c w = Returned" and wt: "waits c (cur c w) = Some e"
  shows "continued (cur c w) e (view w c)"
proof -
  note D = waits_okD [OF crew_invD(5) [OF inv]]
  note V = events_okD [OF crew_invD(4) [OF inv]]
  have b: "busy c w (cur c w)" using pl by (auto simp: busy_def)
  have g: "O_thread (cur c w) \<notin> freed (proc c)" using exits_okD(2) [OF crew_invD(3) [OF inv], of "cur c w" w] w by (auto simp: gone_def)
  have st: "event_stack (thr (proc c) (cur c w)) = Some e" "ev_flags (evs (proc c) e) = EF_READY" using D(1) [OF wt] by simp_all
  have wk: "woken_by_event (wrk (proc c) w) = None \<or> woken_by_event (wrk (proc c) w) = Some e \<or>
      (\<exists>x. woken_by_event (wrk (proc c) w) = Some x \<and> x \<noteq> e \<and> ev_flags (evs (proc c) x) = EF_SIGNAL \<and> ev_el (evs (proc c) x) \<noteq> None)"
  proof (cases "place_of c w = Runs")
    case True
    then show ?thesis using D(5) [OF w] wt by simp
  next
    case False
    then show ?thesis using D(4) [OF w b] wt by (auto simp: woken_for_def)
  qed
  then show ?thesis using V(1-3) g st by (auto simp: continued_def resumed_def expected_def)
qed

lemma dispatch_view:
  assumes inv: "crew_inv W T c" and el: "ev_el (evs (proc c) e) = Some l" and l: "\<forall>t. l \<noteq> Pending t" "\<forall>q. l \<noteq> Waiters q"
    and r: "dispatch l e (view w c) = Inr (r, s)"
  defines "t \<equiv> ev_tc (evs (proc c) e)"
  shows "same_stacks (view w c) s" and "cr_current s = cur c w" and "tc_e (thr s y) = tc_e (thr (proc c) y)"
    and "ev_tc (evs s x) = ev_tc (evs (proc c) x)" and "ev_flags (evs s x) = ev_flags (evs (proc c) x)"
    and "event_stack (thr s y) = event_stack (thr (proc c) y)" and "sysres s = sysres (proc c)" and "locks s = locks (proc c)" and "signals_ok s" and "wf_ev s"
    and "ev_el (evs s x) = (if x \<noteq> e then ev_el (evs (proc c) x) else if ev_flags (evs (proc c) e) = EF_EXITING then None
      else if must_queue e t (proc c) then Some (Pending t)
      else if ev_flags (evs (proc c) e) = EF_SIGNAL then Some (Waiters (Sig_wq (the (signal_of (evs (proc c) e))))) else None)"
    and "tc_flags (thr s y) = (if ev_flags (evs (proc c) e) \<noteq> EF_EXITING \<and> \<not> must_queue e t (proc c) \<and> y = t
      then insert TF_RUNNING (tc_flags (thr (proc c) y)) else tc_flags (thr (proc c) y))"
    and "woken_by_event (wrk s v) = (if ev_flags (evs (proc c) e) \<noteq> EF_EXITING \<and> \<not> must_queue e t (proc c) \<and> v = w then Some e
      else woken_by_event (wrk (proc c) v))"
    and "r = (if ev_flags (evs (proc c) e) \<noteq> EF_EXITING \<and> must_queue e t (proc c) then None else Some t)"
proof -
  let ?s = "view w c"
  note V = events_okD [OF crew_invD(4) [OF inv]]
  have ex: "ev_flags (evs (proc c) e) = EF_EXITING \<Longrightarrow> l = Immediate" using exits_okD(8) [OF crew_invD(3) [OF inv], of e] el by simp
  have "dispatch l e ?s = Inr (dispatched e l ?s)" by (rule dispatch_eq) (use V el l ex in simp_all)
  then have "dispatched e l ?s = (r, s)" using r by simp
  then have d: "r = fst (dispatched e l ?s)" "s = snd (dispatched e l ?s)" by simp_all
  have mq: "must_queue e y ?s = must_queue e y (proc c)" for y by (simp add: must_queue_def)
  note F = dispatched_facts [of ?s e l]
  have ss: "same_stacks ?s s" using F(1) V el by (simp add: d(2))
  then show "same_stacks ?s s" "cr_current s = cur c w" "tc_e (thr s y) = tc_e (thr (proc c) y)" by (simp_all add: same_stacks_def)
  show "ev_tc (evs s x) = ev_tc (evs (proc c) x)" "ev_flags (evs s x) = ev_flags (evs (proc c) x)"
    "event_stack (thr s y) = event_stack (thr (proc c) y)" "sysres s = sysres (proc c)" "locks s = locks (proc c)" "signals_ok s"
    using F(2-7,12) V el by (simp_all add: d(2))
  show "ev_el (evs s x) = (if x \<noteq> e then ev_el (evs (proc c) x) else if ev_flags (evs (proc c) e) = EF_EXITING then None
      else if must_queue e t (proc c) then Some (Pending t)
      else if ev_flags (evs (proc c) e) = EF_SIGNAL then Some (Waiters (Sig_wq (the (signal_of (evs (proc c) e))))) else None)"
    "tc_flags (thr s y) = (if ev_flags (evs (proc c) e) \<noteq> EF_EXITING \<and> \<not> must_queue e t (proc c) \<and> y = t
      then insert TF_RUNNING (tc_flags (thr (proc c) y)) else tc_flags (thr (proc c) y))"
    "woken_by_event (wrk s v) = (if ev_flags (evs (proc c) e) \<noteq> EF_EXITING \<and> \<not> must_queue e t (proc c) \<and> v = w then Some e
      else woken_by_event (wrk (proc c) v))"
    "r = (if ev_flags (evs (proc c) e) \<noteq> EF_EXITING \<and> must_queue e t (proc c) then None else Some t)"
    using F(8-11) V el by (simp_all add: d mq t_def)
  have "dispatchable e l (?s\<lparr>locks := (locks ?s)(L_list l := Some w)\<rparr>)"
    using V el l ex by (auto simp: dispatchable_def holds_def free_lock_def lists_unlocked_def signals_ok_def) (metis (no_types))
  from dispatched_wf [OF this] show "wf_ev s" by (simp add: d(2) dispatched_locks)
qed

lemma crew_dispatch:
  assumes inv: "crew_inv W T c" and w: "w \<in> W" and pl: "place_of c w = At_part2" and el: "ev_el (evs (proc c) e) = Some l"
    and l: "\<forall>t. l \<noteq> Pending t" "\<forall>q. l \<noteq> Waiters q" and r: "dispatch l e (view w c) = Inr (r, s)"
  shows "crew_inv W T (move_to w (case r of None \<Rightarrow> At_part2 | Some t \<Rightarrow> if ev_flags (evs s e) = EF_EXITING then To_free t else To_thread t) s c)"
proof -
  note I = crew_invD [OF inv]
  note V = events_okD [OF I(4)]
  note F = dispatch_view [OF inv el l r]
  let ?t = "ev_tc (evs (proc c) e)"
  let ?p = "case r of None \<Rightarrow> At_part2 | Some t \<Rightarrow> if ev_flags (evs s e) = EF_EXITING then To_free t else To_thread t"
  have p: "on_part2 ?p" "?p \<noteq> At_entry" "\<forall>t. ?p \<noteq> Left t" by (simp_all split: option.splits)
  have st: "stacks_ok W T (move_to w ?p s c)" by (rule stacks_keep [OF I(1) w F(1,2)]) (use p pl in simp_all)
  have tT: "?t \<in> T" using V(5) [of e] el by simp
  have ev: "events_ok W T (move_to w ?p s c)"
    by (rule events_keep [OF I(4) _ F(10,9,7,8)]) (use V(5) tT F(4,11) in \<open>auto split: if_splits\<close>)
  consider (ex) "ev_flags (evs (proc c) e) = EF_EXITING" | (q) "ev_flags (evs (proc c) e) \<noteq> EF_EXITING" "must_queue e ?t (proc c)"
    | (tk) "ev_flags (evs (proc c) e) \<noteq> EF_EXITING" "\<not> must_queue e ?t (proc c)" by blast
  then show ?thesis
  proof cases
    case ex
    then have pe: "?p = To_free ?t" using F(14) F(5) by simp
    have "flags_ok W T (move_to w (To_free ?t) s c)" by (rule flags_keep [OF I(2)]) (use ex F(12) pl in \<open>auto simp: busy_def\<close>)
    moreover have "exits_ok W T (move_to w (To_free ?t) s c)"
      by (rule exits_dispatch [OF I(3) w F(1,2) _ ex refl]) (use ex F(4,5,11) el in auto)
    moreover have "waits_ok W T (move_to w (To_free ?t) s c)"
      by (rule waits_exit [OF inv w pl ex F(6,3,4,5)]) (use ex F(11,13) in simp_all)
    ultimately show ?thesis using st ev pe by (simp add: crew_inv_def)
  next
    case q
    then have pe: "?p = At_part2" using F(14) by simp
    have "flags_ok W T (move_to w At_part2 s c)" by (rule flags_keep [OF I(2)]) (use q F(12) pl in \<open>auto simp: busy_def\<close>)
    moreover have "exits_ok W T (move_to w At_part2 s c)"
      by (rule exits_keep [OF I(3) w F(1,2)]) (use q F(4,5,11) in \<open>auto split: if_splits\<close>)
    moreover have "waits_ok W T (move_to w At_part2 s c)"
      by (rule waits_queued [OF inv w pl el q(2) refl F(6,3,4,5)]) (use q F(11,13) in simp_all)
    ultimately show ?thesis using st ev pe by (simp add: crew_inv_def)
  next
    case tk
    then have pe: "?p = To_thread ?t" using F(14) F(5) by simp
    have "flags_ok W T (move_to w (To_thread ?t) s c)"
      by (rule flags_taken [OF I(2) w pl tT]) (use tk F(12) in \<open>auto simp: must_queue_def\<close>)
    moreover have "exits_ok W T (move_to w (To_thread ?t) s c)"
      by (rule exits_keep [OF I(3) w F(1,2)]) (use tk F(4,5,11) in \<open>auto split: if_splits\<close>)
    moreover have "waits_ok W T (move_to w (To_thread ?t) s c)"
      by (rule waits_taken [OF inv w pl _ tk(2) refl F(6,3,4,5)]) (use tk F(11,13) el in simp_all)
    ultimately show ?thesis using st ev pe by (simp add: crew_inv_def)
  qed
qed


text \<open>The halves of a switch touch no queue.\<close>

lemma crew_switch:
  assumes inv: "crew_inv W T c" and w: "w \<in> W" and st: "stacks_ok W T (move_to w p s c)"
    and s: "same_queues (proc c) s" "freed s = freed (proc c)" "\<And>y. tc_cr (thr s y) = tc_cr (thr (proc c) y)" "\<And>y. tc_flags (thr s y) = tc_flags (thr (proc c) y)"
      "\<And>v. woken_by_event (wrk s v) = woken_by_event (wrk (proc c) v)"
    and p: "\<forall>t. p \<noteq> To_free t" "\<not> gone c (cr_current s)" "\<And>t. p = Left t \<Longrightarrow> \<not> gone c t"
    and b: "\<And>t. busy (move_to w p s c) w t = busy c w t" "p \<noteq> Runs" "place_of c w \<noteq> Runs"
  shows "crew_inv W T (move_to w p s c)"
proof -
  note I = crew_invD [OF inv]
  have b': "busy (move_to w p s c) v t = busy c v t" for v t using b(1) by (cases "v = w") (auto simp: busy_move)
  have "flags_ok W T (move_to w p s c)" by (rule flags_keep [OF I(2)]) (use s(4) b' in simp_all)
  moreover have "exits_ok W T (move_to w p s c)" by (rule exits_switch [OF I(3) w s(1-3) p])
  moreover have "events_ok W T (move_to w p s c)" by (rule same_queues_keep(1) [OF s(1) _ I(4)]) simp
  moreover have "waits_ok W T (move_to w p s c)"
    by (rule waits_keep [OF I(5)]) (use s(1,5) b b' in \<open>auto simp: same_queues_def\<close>)
  ultimately show ?thesis using st by (simp add: crew_inv_def)
qed

lemma crew_enter:
  assumes inv: "crew_inv W T c" and w: "w \<in> W" and pl: "place_of c w = To_thread t" and r: "enter_thread t (view w c) = Inr ((), s)"
  shows "crew_inv W T (move_to w At_entry s c)"
proof -
  note I = crew_invD [OF inv]
  note F = enter_thread_facts [OF r]
  have t: "t \<in> T" "\<not> gone c t"
    using flags_okD(3,4) [OF I(2) w, of t] exits_okD(1) [OF I(3), of t] pl by (auto simp: busy_def)
  have "stacks_ok W T (move_to w At_entry s c)" by (rule stacks_enter [OF I(1) w pl t r])
  then show ?thesis
    by (rule crew_switch [OF inv w]) (use F t pl in \<open>auto simp: same_queues_def busy_move busy_def\<close>)
qed

lemma crew_arrive:
  assumes inv: "crew_inv W T c" and w: "w \<in> W" and r: "switch_in (view w c) = Inr ((), s)"
    and pl: "(place_of c w = At_entry \<and> p = Returned) \<or> (place_of c w = Left t \<and> p = At_part2)"
  shows "crew_inv W T (move_to w p s c)"
proof -
  note I = crew_invD [OF inv]
  note X = exits_okD [OF I(3)]
  have s: "s = (view w c)\<lparr>locks := (locks (proc c))(L_running (cr_caller (view w c)) := None)\<rparr>" using r by (simp add: switch_in_eq)
  have lg: "place_of c w = Left y \<Longrightarrow> \<not> gone c y" for y using X(3) [of y w] w by auto
  have "stacks_ok W T (move_to w p s c)"
    by (rule stacks_arrive [OF I(1) w, where t = t]) (use pl lg in \<open>auto simp: s\<close>)
  moreover have "\<not> gone c (cur c w)" using X(2) [of "cur c w" w] w by auto
  ultimately show ?thesis
    by (intro crew_switch [OF inv w]) (use pl in \<open>auto simp: s same_queues_def busy_move busy_def\<close>)
qed

lemma crew_first:
  assumes inv: "crew_inv W T c" and w: "w \<in> W" and pl: "place_of c w = At_entry" and n: "waits c (cur c w) = None"
    and r: "first_entry (view w c) = Inr ((), s)"
  shows "crew_inv W T (move_to w Runs s c)"
proof -
  note I = crew_invD [OF inv]
  have s: "s = clear_woken ((view w c)\<lparr>locks := (locks (proc c))(L_running (cr_caller (view w c)) := None)\<rparr>)" using r by (simp add: first_entry_eq)
  note d = s clear_woken_def upd_defs
  have q: "same_queues (proc c) s" "cr_current s = cur c w" by (simp_all add: same_queues_def d)
  have "stacks_ok W T (move_to w Runs s c)"
    by (rule stacks_arrive [OF I(1) w, where t = 0]) (use pl in \<open>auto simp: d\<close>)
  moreover have "flags_ok W T (move_to w Runs s c)" by (rule flags_keep [OF I(2)]) (use pl in \<open>auto simp: busy_def d\<close>)
  moreover have "exits_ok W T (move_to w Runs s c)"
    by (rule exits_switch [OF I(3) w q(1)]) (use exits_okD(2) [OF I(3), of "cur c w" w] w in \<open>auto simp: d\<close>)
  moreover have "events_ok W T (move_to w Runs s c)" by (rule same_queues_keep(1) [OF q(1) _ I(4)]) simp
  moreover have "waits_ok W T (move_to w Runs s c)" by (rule waits_first [OF inv w pl n q(1) _ q(2)]) (simp add: d)
  ultimately show ?thesis by (simp add: crew_inv_def)
qed

lemma crew_leave:
  assumes inv: "crew_inv W T c" and w: "w \<in> W" and pl: "place_of c w = To_part2" and r: "switch_out (sched_p2 (wrk (proc c) w)) (view w c) = Inr ((), s)"
  shows "crew_inv W T (move_to w (Left (cur c w)) s c)"
proof -
  note I = crew_invD [OF inv]
  note F = switch_out_facts [OF r]
  have "stacks_ok W T (move_to w (Left (cur c w)) s c)" by (rule stacks_leave [OF I(1) w pl r])
  moreover have "\<not> gone c (cur c w)" using exits_okD(2) [OF I(3), of "cur c w" w] w by auto
  ultimately show ?thesis
    by (intro crew_switch [OF inv w]) (use F stacks_okD(4) [OF I(1) w] pl in \<open>auto simp: same_queues_def busy_move busy_def\<close>)
qed

lemma crew_free:
  assumes inv: "crew_inv W T c" and w: "w \<in> W" and pl: "place_of c w = To_free t" and r: "tc_thread_free t (view w c) = Inr ((), s)"
  shows "crew_inv W T (move_to w At_part2 s c)"
proof -
  note I = crew_invD [OF inv]
  note F = thread_free_facts [OF r]
  have q: "same_queues (proc c) s" using F(1) by (simp add: same_queues_def)
  have t: "t \<in> T" using exits_okD(5) [OF I(3) w pl] flags_okD(1) [OF I(2)] by simp
  have "stacks_ok W T (move_to w At_part2 s c)" by (rule stacks_free [OF I(1) w pl t r])
  moreover have "flags_ok W T (move_to w At_part2 s c)" by (rule flags_keep [OF I(2)]) (use pl F(4) in \<open>auto simp: busy_def\<close>)
  moreover have "exits_ok W T (move_to w At_part2 s c)" by (rule exits_free [OF I(3,1,2) w pl r])
  moreover have "events_ok W T (move_to w At_part2 s c)" by (rule same_queues_keep(1) [OF q _ I(4)]) simp
  moreover have "waits_ok W T (move_to w At_part2 s c)"
    by (rule waits_keep [OF I(5)]) (use q F(2) pl in \<open>auto simp: same_queues_def busy_def\<close>)
  ultimately show ?thesis by (simp add: crew_inv_def)
qed


text \<open>Steps of a thread on wait queues.\<close>

lemma crew_begin:
  assumes inv: "crew_inv W T c" and w: "w \<in> W" and pl: "place_of c w = Runs"
    and e: "ev_el (evs (proc c) e) = None" "\<forall>t. waits c t \<noteq> Some e" "\<forall>t \<in> T. tc_e (thr (proc c) t) \<noteq> e" and r: "begin_wait wq e (view w c) = Inr ((), s)"
  shows "crew_inv W T ((move_to w Runs s c)\<lparr>waits := (waits c)(cur c w := Some e)\<rparr>)"
proof -
  let ?c = "(move_to w Runs s c)\<lparr>waits := (waits c)(cur c w := Some e)\<rparr>"
  note I = crew_invD [OF inv]
  note V = events_okD [OF I(4)]
  have g: "O_thread (cr_current (view w c)) \<notin> freed (view w c)" using exits_okD(2) [OF I(3), of "cur c w" w] w by (auto simp: gone_def)
  have v: "wf_ev (view w c)" "lists_unlocked (view w c)" "signals_ok (view w c)" "ev_el (evs (view w c) e) = None" using V e by simp_all
  note F = begin_wait_facts [OF v g r]
  have cr: "cr_current s = cur c w" "\<And>y. tc_e (thr s y) = tc_e (thr (proc c) y)" using F(1) by (simp_all add: same_stacks_def)
  have cT: "cur c w \<in> T" using flags_okD(3) [OF I(2) w, of "cur c w"] pl by (auto simp: busy_def)
  have "stacks_ok W T (move_to w Runs s c)" by (rule stacks_keep [OF I(1) w F(1) cr(1)]) (use pl in simp_all)
  then have "stacks_ok W T ?c" by simp
  moreover have "flags_ok W T ?c" by (rule flags_keep [OF I(2)]) (use pl F(10) cr in \<open>auto simp: busy_def\<close>)
  moreover have "exits_ok W T (move_to w Runs s c)" by (rule exits_keep [OF I(3) w F(1) cr(1)]) (use F(6-8) in \<open>auto split: if_splits\<close>)
  then have "exits_ok W T ?c" by simp
  moreover have "events_ok W T ?c" by (rule events_keep [OF I(4) _ F(2,5)]) (use F(3,4,6,8) V(5) cT in \<open>auto split: if_splits\<close>)
  moreover have "waits_ok W T ?c" by (rule waits_begin [OF inv w pl e, where q = wq]) (use F(6-9,11) cr in simp_all)
  ultimately show ?thesis by (simp add: crew_inv_def)
qed

lemma crew_end:
  assumes inv: "crew_inv W T c" and w: "w \<in> W" and pl: "place_of c w = Runs \<or> place_of c w = Returned" and wt: "waits c (cur c w) = Some e"
    and r: "tc_waitq_finish_wait wq e (view w c) = Inr (b, s)"
  shows "crew_inv W T ((move_to w Runs s c)\<lparr>waits := (waits c)(cur c w := None)\<rparr>)"
proof -
  let ?c = "(move_to w Runs s c)\<lparr>waits := (waits c)(cur c w := None)\<rparr>"
  note I = crew_invD [OF inv]
  note V = events_okD [OF I(4)]
  note C = crew_continued [OF inv w pl wt]
  have c: "resumed (cur c w) e (view w c)" "signals_ok (view w c)"
    "\<not> expected (cur c w) e (view w c) \<longrightarrow> (\<exists>x. woken_by_event (cur_worker (view w c)) = Some x \<and> ev_el (evs (view w c) x) \<noteq> None)"
    using C by (auto simp: continued_def resumed_def)
  note F = finish_wait_facts [OF c r]
  have cr: "cr_current s = cur c w" "\<And>y. tc_e (thr s y) = tc_e (thr (proc c) y)" using F(1) by (simp_all add: same_stacks_def)
  have cT: "cur c w \<in> T" using flags_okD(3) [OF I(2) w, of "cur c w"] pl by (auto simp: busy_def)
  have "stacks_ok W T (move_to w Runs s c)" by (rule stacks_keep [OF I(1) w F(1) cr(1)]) (use pl in auto)
  then have "stacks_ok W T ?c" by simp
  moreover have "flags_ok W T ?c" by (rule flags_keep [OF I(2)]) (use pl F(11) cr in \<open>auto simp: busy_def\<close>)
  moreover have "exits_ok W T (move_to w Runs s c)"
  proof (rule exits_keep [OF I(3) w F(1) cr(1)])
    fix x assume "ev_el (evs s x) \<noteq> None" "ev_flags (evs s x) = EF_EXITING"
    then show "ev_el (evs s x) = ev_el (evs (proc c) x) \<and> ev_flags (evs (proc c) x) = EF_EXITING \<and> ev_tc (evs s x) = ev_tc (evs (proc c) x)"
      using F(6) [of x] F(7) [of x] F(8) F(9) [of x] by (cases "x = e") auto
  qed simp_all
  then have "exits_ok W T ?c" by simp
  moreover have "waits_ok W T ?c" by (rule waits_end [OF inv w pl wt]) (use F(6-10,12) cr in auto)
  moreover have "events_ok W T ?c"
  proof (rule events_keep [OF I(4) _ F(2,5)])
    fix x assume "ev_el (evs s x) \<noteq> None"
    then show "ev_tc (evs s x) \<in> T" using F(6) [of x] F(8) F(9) [of x] V(5) [of x] cT by (cases "x = e") auto
  qed (use F(3,4) in simp_all)
  ultimately show ?thesis by (simp add: crew_inv_def)
qed


lemma crew_wake:
  assumes inv: "crew_inv W T c" and w: "w \<in> W" and pl: "place_of c w \<in> {At_part2, Runs} \<union> range To_thread"
    and s: "same_owners (view w c) s" "wf_ev s" "locks s = locks (view w c)"
      "\<And>x. ev_el (evs s x) = ev_el (evs (view w c) x) \<or> (ev_el (evs (view w c) x) = Some (Waiters wq) \<and> ev_el (evs s x) = Some Immediate)"
  shows "crew_inv W T (move_to w (place_of c w) s c)"
proof -
  let ?c = "move_to w (place_of c w) s c"
  note I = crew_invD [OF inv]
  note V = events_okD [OF I(4)]
  have o: "same_stacks (view w c) s" "cr_current s = cur c w" "sysres s = sysres (proc c)" "tc_flags (thr s y) = tc_flags (thr (proc c) y)"
    "event_stack (thr s y) = event_stack (thr (proc c) y)" "woken_by_event (wrk s v) = woken_by_event (wrk (proc c) v)" "tc_e (thr s y) = tc_e (thr (proc c) y)"
    "ev_tc (evs s x) = ev_tc (evs (proc c) x)" "ev_flags (evs s x) = ev_flags (evs (proc c) x)" "ev_u (evs s x) = ev_u (evs (proc c) x)" for y v x
    using s(1) by (auto simp: same_owners_def same_stacks_def)
  have el: "ev_el (evs s x) \<noteq> None \<longleftrightarrow> ev_el (evs (proc c) x) \<noteq> None" for x using s(4) [of x] by (elim disjE) simp_all
  have sg: "signals_ok s" by (rule signals_ok_mono [OF V(3)]) (use el o in auto)
  have b: "busy ?c v y = busy c v y" for v y using o(2) by (auto simp: busy_def)
  have "stacks_ok W T ?c" by (rule stacks_keep [OF I(1) w o(1,2)]) (use pl in auto)
  moreover have "flags_ok W T ?c" by (rule flags_keep [OF I(2)]) (use o(4) b in simp_all)
  moreover have "exits_ok W T ?c"
  proof (rule exits_keep [OF I(3) w o(1,2)])
    fix e assume e: "ev_el (evs s e) \<noteq> None" "ev_flags (evs s e) = EF_EXITING"
    then have "ev_el (evs (proc c) e) = Some Immediate" using exits_okD(8) [OF I(3), of e] el [of e] o(9) by simp
    then show "ev_el (evs s e) = ev_el (evs (proc c) e) \<and> ev_flags (evs (proc c) e) = EF_EXITING \<and> ev_tc (evs s e) = ev_tc (evs (proc c) e)"
      using s(4) [of e] e o(8,9) by simp
  qed (use pl in auto)
  moreover have "events_ok W T ?c" by (rule events_keep [OF I(4) _ s(2) sg o(3)]) (use s(3) V(5) el o(8) in auto)
  moreover have "ev_el (evs s x) = ev_el (evs (proc c) x) \<or> (\<exists>q. ev_el (evs (proc c) x) = Some (Waiters q) \<and> ev_el (evs s x) = Some Immediate)" for x
    using s(4) [of x] by (elim disjE) simp_all
  then have "waits_ok W T ?c" by (intro waits_keep [OF I(5)]) (use b o in simp_all)
  ultimately show ?thesis by (simp add: crew_inv_def)
qed

lemma crew_schedule:
  assumes inv: "crew_inv W T c" and w: "w \<in> W" and pl: "place_of c w = Runs" and wt: "waits c (cur c w) = Some e" and r: "sched_pick (view w c) = Inr (stay, s)"
  shows "crew_inv W T (move_to w (if stay then Returned else To_part2) s c)"
proof -
  note I = crew_invD [OF inv]
  note V = events_okD [OF I(4)]
  have pp: "pick_pending (view w c) (cur c w) = pick_pending (proc c) (cur c w)"
    by (rule pick_pending_cong) simp_all
  have v: "wf_ev (view w c)" "lists_unlocked (view w c)" "signals_ok (view w c)" using V by simp_all
  note P = sched_pick_eq [OF v]
  show ?thesis
  proof (cases "pick_pending (proc c) (cur c w)")
    case None
    then have s: "stay = False" "s = clear_running (cur c w) (view w c)" using P r pp by simp_all
    note d = s(2) clear_running_def upd_defs
    have ss: "same_stacks (view w c) s" "cr_current s = cur c w" by (simp_all add: same_stacks_def d)
    have q: "evs s = evs (proc c)" "wf_ev s" using V(1) by (simp_all add: s(2))
    have df: "deaf s (cur c w)" using deaf_pick [OF V(1), of "cur c w"] None by (simp add: deaf_def d)
    have "stacks_ok W T (move_to w To_part2 s c)" by (rule stacks_keep [OF I(1) w ss]) (use pl in simp_all)
    moreover have "flags_ok W T (move_to w To_part2 s (c\<lparr>ended := ended c\<rparr>))"
    proof (unfold move_ended, rule flags_stopped [OF I(2) w pl])
      have "cur c w \<notin> ended c" using flags_okD(4) [OF I(2) w, of "cur c w"] pl by (simp add: busy_def)
      then show "TF_RUNNING \<in> tc_flags (thr s y) \<longleftrightarrow> TF_RUNNING \<in> tc_flags (thr (proc c) y) \<and> (y = cur c w \<longrightarrow> y \<in> ended c)" for y by (auto simp: d)
    qed simp
    moreover have "exits_ok W T (move_to w To_part2 s c)" by (rule exits_keep [OF I(3) w ss]) (use q in simp_all)
    moreover have "events_ok W T (move_to w To_part2 s c)"
      by (rule events_keep [OF I(4) _ q(2)]) (use V(3,5) q(1) in \<open>simp_all add: signals_ok_def\<close>, simp_all add: d)
    moreover have "waits_ok W T (move_to w To_part2 s (c\<lparr>ended := ended c\<rparr>))"
      by (rule waits_stop [OF inv w pl]) (use df q(1) in \<open>simp_all add: d\<close>)
    ultimately show ?thesis using s(1) by (simp add: crew_inv_def)
  next
    case (Some x)
    then have s: "stay = True" "s = picked (cur c w) x (view w c)" using P r pp by simp_all
    have px: "pick_pending (view w c) (cur c w) = Some x" using Some pp by simp
    note F = picked_facts [OF v(1) px v(3), folded s(2)]
    have cr: "cr_current s = cur c w" "\<And>y. tc_e (thr s y) = tc_e (thr (proc c) y)" using F(1) by (simp_all add: same_stacks_def)
    have xe: "x = e \<or> ev_flags (evs (proc c) x) = EF_SIGNAL"
      using pick_waited [OF Some] waits_okD(1) [OF I(5) wt] by blast
    have xl: "ev_el (evs (proc c) x) = Some (Pending (cur c w))" using F(12) by simp
    have "stacks_ok W T (move_to w Returned s c)" by (rule stacks_keep [OF I(1) w F(1) cr(1)]) (use pl in simp_all)
    moreover have "flags_ok W T (move_to w Returned s c)" by (rule flags_keep [OF I(2)]) (use pl F(5) cr in \<open>auto simp: busy_def\<close>)
    moreover have "exits_ok W T (move_to w Returned s c)" by (rule exits_keep [OF I(3) w F(1) cr(1)]) (use F(2,3,8) in \<open>auto split: if_splits\<close>)
    moreover have "events_ok W T (move_to w Returned s c)"
      by (rule events_keep [OF I(4) _ F(11,10)]) (use F(2,6,7,8) V(5) xl in \<open>auto split: if_splits\<close>)
    moreover have "waits_ok W T (move_to w Returned s c)" by (rule waits_stay [OF inv w pl wt xe, where q = "Sig_wq (the (signal_of (evs (proc c) x)))"]) (use F cr in simp_all)
    ultimately show ?thesis using s(1) by (simp add: crew_inv_def)
  qed
qed

lemma crew_die:
  assumes inv: "crew_inv W T c" and w: "w \<in> W" and pl: "place_of c w = Runs" and wt: "waits c (cur c w) = None" and r: "exit_notice (cur c w) (view w c) = Inr ((), s)"
  shows "crew_inv W T ((move_to w To_part2 s c)\<lparr>ended := insert (cur c w) (ended c)\<rparr>)"
proof -
  let ?E = "insert (cur c w) (ended c)"
  note I = crew_invD [OF inv]
  note V = events_okD [OF I(4)]
  have v: "wf_ev (view w c)" "lists_unlocked (view w c)" "signals_ok (view w c)" "eventfd_ok (view w c)" using V by simp_all
  note F = notice_facts [OF v r [unfolded exit_notice_def], simplified]
  have cr: "cr_current s = cur c w" "\<And>y. tc_e (thr s y) = tc_e (thr (proc c) y)" using F(1) by (simp_all add: same_stacks_def)
  have cT: "cur c w \<in> T" using flags_okD(3) [OF I(2) w, of "cur c w"] pl by (auto simp: busy_def)
  have "stacks_ok W T (move_to w To_part2 s c)" by (rule stacks_keep [OF I(1) w F(1) cr(1)]) (use pl in simp_all)
  moreover have "flags_ok W T ((move_to w To_part2 s c)\<lparr>ended := ?E\<rparr>)" by (rule flags_stopped [OF I(2) w pl]) (use F(11) in auto)
  moreover have "exits_ok W T ((move_to w To_part2 s c)\<lparr>ended := ?E\<rparr>)"
    unfolding move_ended [symmetric] by (rule exits_die [OF I(3,2) w F(1) cr(1) pl]) (use F(7-9) in simp_all)
  moreover have "waits_ok W T ((move_to w To_part2 s c)\<lparr>ended := ?E\<rparr>)"
    unfolding move_ended [symmetric] by (rule waits_stop [OF inv w pl]) (use wt F(6-10,12) cr in \<open>auto simp: Let_def\<close>)
  moreover have "events_ok W T ((move_to w To_part2 s c)\<lparr>ended := ?E\<rparr>)"
    by (rule events_keep [OF I(4) _ F(2,5)]) (use F(3,4,7,9) V(5) cT in \<open>auto split: if_splits\<close>)
  ultimately show ?thesis by (simp add: crew_inv_def)
qed

lemma crew_spawn:
  assumes inv: "crew_inv W T c" and w: "w \<in> W" and pl: "place_of c w = Runs" and t: "t \<in> T" and r: "start_notice t (view w c) = Inr ((), s)"
  shows "crew_inv W T (move_to w Runs s c)"
proof -
  let ?c = "move_to w Runs s c"
  note I = crew_invD [OF inv]
  note V = events_okD [OF I(4)]
  have v: "wf_ev (view w c)" "lists_unlocked (view w c)" "signals_ok (view w c)" "eventfd_ok (view w c)" using V by simp_all
  note F = notice_facts [OF v r [unfolded start_notice_def], simplified]
  have cr: "cr_current s = cur c w" "\<And>y. tc_e (thr s y) = tc_e (thr (proc c) y)" using F(1) by (simp_all add: same_stacks_def)
  have b: "busy ?c x y = busy c x y" for x y using pl cr(1) by (auto simp: busy_def)
  have "stacks_ok W T ?c" by (rule stacks_keep [OF I(1) w F(1) cr(1)]) (use pl in simp_all)
  moreover have "flags_ok W T ?c" by (rule flags_keep [OF I(2)]) (use F(11) b in simp_all)
  moreover have "exits_ok W T ?c" by (rule exits_keep [OF I(3) w F(1) cr(1)]) (use F(7-9) in \<open>auto split: if_splits\<close>)
  moreover have "events_ok W T ?c" by (rule events_keep [OF I(4) _ F(2,5)]) (use F(3,4,7,9) V(5) t in \<open>auto split: if_splits\<close>)
  moreover have "waits_ok W T ?c"
    by (rule waits_posted [OF I(5) t, where s = s]) (use F(6-10,12) cr b pl in auto)
  ultimately show ?thesis by (simp add: crew_inv_def)
qed

lemma crew_step_inv:
  assumes "crew_inv W T c" and "crew_step W T c c'"
  shows "crew_inv W T c'"
  using assms(2)
proof (cases rule: crew_step.cases)
  case (dispatch_none w e l s)
  then show ?thesis using crew_dispatch [OF assms(1), of w e l None s] by simp
next
  case (dispatch_some w e l t s)
  then show ?thesis using crew_dispatch [OF assms(1), of w e l "Some t" s] by simp
next
  case (schedule w stay s)
  from schedule(4) obtain e where "waits c (cur c w) = Some e" by auto
  from crew_schedule [OF assms(1) schedule(2,3) this schedule(5)] schedule(1) show ?thesis by simp
next
  case (wake_all w wq s)
  note V = events_okD [OF crew_invD(4) [OF assms(1)]]
  have v: "wf_ev (view w c)" "lists_unlocked (view w c)" "eventfd_ok (view w c)" using V by simp_all
  show ?thesis unfolding wake_all(1) by (rule crew_wake [OF assms(1) wake_all(2) _ wakeup_all_facts [OF v wake_all(4)]]) (use wake_all(3) in blast)
next
  case (wake_one w wq m s)
  note V = events_okD [OF crew_invD(4) [OF assms(1)]]
  have v: "wf_ev (view w c)" "lists_unlocked (view w c)" "eventfd_ok (view w c)" using V by simp_all
  show ?thesis unfolding wake_one(1) by (rule crew_wake [OF assms(1) wake_one(2) _ wakeup_one_facts [OF v wake_one(4)]]) (use wake_one(3) in blast)
next
  case (alert w d s)
  have "wf_ev (view w c)" using events_okD(1) [OF crew_invD(4) [OF assms(1)]] by simp
  moreover have s: "s = (view w c)\<lparr>syslog := syslog (view w c) @ [iwi_of (view w c) d]\<rparr>"
    using alert(4) u_iwi_immediate_eq [of "view w c" d] events_okD(4) [OF crew_invD(4) [OF assms(1)]] by simp
  ultimately show ?thesis unfolding alert(1)
    by (intro crew_wake [OF assms(1) alert(2,3)]) (auto simp: same_owners_def same_stacks_def intro: wf_ev_cong [THEN iffD2])
next
  case (note_fd w f)
  have "wf_ev (view w c)" using events_okD(1) [OF crew_invD(4) [OF assms(1)]] by simp
  then have "wf_ev (upd_cur_worker (woken_by_tcfd_update (\<lambda>_. f)) (view w c))"
    by (subst wf_ev_cong [of _ "view w c"]) (simp_all add: upd_defs)
  then have "crew_inv W T (move_to w (place_of c w) (upd_cur_worker (woken_by_tcfd_update (\<lambda>_. f)) (view w c)) c)"
    by (intro crew_wake [OF assms(1) note_fd(2)]) (use note_fd(3) in \<open>auto simp: same_owners_def same_stacks_def upd_defs\<close>)
  then show ?thesis using note_fd by simp
qed (use assms(1) in \<open>auto intro: crew_enter crew_first crew_arrive crew_begin crew_end crew_leave crew_spawn crew_die crew_free\<close>)


section \<open>The start\<close>

text \<open>All workers look for work, nobody holds a list, the threads are ready: their only events are on the immediate list.\<close>

definition crew_start :: "wid set \<Rightarrow> tid set \<Rightarrow> crew \<Rightarrow> bool" where
  "crew_start W T c \<longleftrightarrow> events_ok W T c \<and> freed (proc c) = {} \<and> ended c = {} \<and> (\<forall>t. waits c t = None) \<and>
     inj_on (\<lambda>w. sched_p2 (wrk (proc c) w)) W \<and>
     (\<forall>w \<in> W. place_of c w = At_part2 \<and> cur c w = sched_p2 (wrk (proc c) w) \<and> cur c w \<notin> T \<and> tc_cr (thr (proc c) (cur c w))) \<and>
     (\<forall>t w. locks (proc c) (L_running t) = Some w \<longleftrightarrow> w \<in> W \<and> t = cur c w) \<and>
     (\<forall>t \<in> T. tc_cr (thr (proc c) t) \<and> TF_RUNNING \<notin> tc_flags (thr (proc c) t)) \<and>
     (\<forall>e. ev_el (evs (proc c) e) \<noteq> None \<longrightarrow> ev_flags (evs (proc c) e) \<noteq> EF_EXITING \<and> (\<forall>t. ev_el (evs (proc c) e) \<noteq> Some (Pending t)))"

lemma crew_start_inv:
  assumes "crew_start W T c"
  shows "crew_inv W T c"
proof -
  have p: "w \<in> W \<Longrightarrow> place_of c w = At_part2" for w using assms by (simp add: crew_start_def)
  have n: "w \<in> W \<Longrightarrow> \<not> busy c w t" for w t using p by (simp add: busy_def)
  have "stacks_ok W T c" using assms by (auto simp: crew_start_def stacks_ok_def gone_def has_running_def)
  moreover have "flags_ok W T c" using assms n by (auto simp: crew_start_def flags_ok_def)
  moreover have "exits_ok W T c" using assms by (auto simp: crew_start_def exits_ok_def gone_def)
  moreover have "waits_ok W T c" using assms n p by (auto simp: crew_start_def waits_ok_def deaf_def)
  ultimately show ?thesis using assms by (simp add: crew_inv_def crew_start_def)
qed

interpretation crew_sys: inv_system "crew_start W T" "crew_step W T" "crew_inv W T" for W T
  by unfold_locales (auto intro: crew_start_inv crew_step_inv)

text \<open>Who holds the lock \<^verbatim>\<open>running\<close> of a thread that another worker wants to enter or to free is leaving it.\<close>

lemma running_holder:
  assumes inv: "crew_inv W T c" and t: "t \<in> T" "\<not> gone c t" and n: "\<And>v. v \<in> W \<Longrightarrow> cur c v = t \<Longrightarrow> \<not> busy c v t" and h: "locks (proc c) (L_running t) = Some v"
  shows "v \<in> W \<and> (place_of c v = To_part2 \<and> cur c v = t \<or> place_of c v = Left t)"
proof -
  note S = stacks_okD [OF crew_invD(1) [OF inv]]
  have v: "v \<in> W" "has_running c v t" using S(7) [OF t(2), of v] h by simp_all
  have "cur c v = t \<Longrightarrow> place_of c v = To_part2"
    using n [OF v(1)] S(2,5) [OF v(1)] t(1) by (cases "place_of c v") (auto simp: busy_def)
  then show ?thesis using v S(2) [OF v(1)] t(1) by (auto simp: has_running_def)
qed


text \<open>Two workers that look for work, and thread 5 whose event 7 is on the immediate list; worker 0 dispatches it.\<close>

definition small_crew :: crew where
  "small_crew = \<lparr>proc = (link 7 Immediate 5 process_image)\<lparr>immediate_count := 1, sysres := (\<lambda>_. SIZEOF_EVENTFD),
       thr := (thr (link 7 Immediate 5 process_image))(5 := zero_thread\<lparr>tc_cr := True, refcnt := 1\<rparr>, 100 := zero_thread\<lparr>tc_cr := True\<rparr>, 101 := zero_thread\<lparr>tc_cr := True\<rparr>),
       wrk := (\<lambda>w. zero_worker\<lparr>sched_p2 := 100 + w\<rparr>), locks := (\<lambda>_. None)(L_running 100 := Some 0, L_running 101 := Some 1)\<rparr>,
     cur = (\<lambda>w. 100 + w), place_of = (\<lambda>_. At_part2), home = (\<lambda>_. 0), waits = (\<lambda>_. None), ended = {}\<rparr>"

lemma small_crew_start: "crew_start {0, 1} {5} small_crew"
proof -
  let ?l = "(link 7 Immediate 5 process_image)\<lparr>immediate_count := immediate_count process_image + 1\<rparr>"
  have "wf_ev ?l" by (rule wf_ev_link_immediate) simp_all
  then have "wf_ev (proc small_crew)" by (subst wf_ev_cong [of _ ?l]) (auto simp: small_crew_def link_def)
  then have "events_ok {0, 1} {5} small_crew"
    by (simp add: events_ok_def) (auto simp: small_crew_def link_def lists_unlocked_def signals_ok_def eventfd_ok_def)
  then show ?thesis
    by (simp add: crew_start_def) (auto simp: small_crew_def link_def)
qed

lemma small_crew_reach: "reach (crew_start {0, 1} {5}) (crew_step {0, 1} {5}) small_crew"
  by (rule reach_init) (rule small_crew_start)

definition thread_taken :: crew where
  "thread_taken = move_to 0 (To_thread 5) (snd (dispatched 7 Immediate (view 0 small_crew))) small_crew"

lemma thread_taken_reach: "reach (crew_start {0, 1} {5}) (crew_step {0, 1} {5}) thread_taken"
proof (rule reach_step [OF small_crew_reach])
  note V = events_okD [OF crew_invD(4) [OF crew_start_inv [OF small_crew_start]]]
  have e: "ev_el (evs (proc small_crew) 7) = Some Immediate" "ev_flags (evs (proc small_crew) 7) = EF_READY" "ev_tc (evs (proc small_crew) 7) = 5"
    by (simp_all add: small_crew_def link_def)
  have "\<not> must_queue 7 5 (view 0 small_crew)" by (simp add: must_queue_def small_crew_def link_def)
  then have r: "fst (dispatched 7 Immediate (view 0 small_crew)) = Some 5" and f: "ev_flags (evs (snd (dispatched 7 Immediate (view 0 small_crew))) 7) = EF_READY"
    using dispatched_facts(3,11) [of "view 0 small_crew" 7 Immediate] V e by simp_all
  have "dispatch Immediate 7 (view 0 small_crew) = Inr (dispatched 7 Immediate (view 0 small_crew))"
    by (rule dispatch_eq) (use V e in simp_all)
  then have "dispatch Immediate 7 (view 0 small_crew) = Inr (Some 5, snd (dispatched 7 Immediate (view 0 small_crew)))"
    using r by (metis prod.collapse)
  from crew_step.dispatch_some [where W = "{0, 1}" and T = "{5}" and w = 0, OF _ _ e(1) _ _ this] f
  show "crew_step {0, 1} {5} small_crew thread_taken"
    by (simp add: thread_taken_def) (simp add: small_crew_def)
qed

section \<open>Properties\<close>

text \<open>C2: Under every interleaving of the workers no two of them execute on the same stack, although a thread that is about to leave its stack may be woken and
  dispatched by another worker; the stack a worker executes on is not freed, nor one it is about to enter; at most one worker executes or is about to enter a thread, and a thread that is not ending is marked as
  running exactly when there is such a worker.\<close>

theorem crew_stacks:
  assumes "reach (crew_start W T) (crew_step W T) c"
  shows "inj_on (cur c) W \<and>
    (\<forall>w \<in> W. O_cr (cur c w) \<notin> freed (proc c) \<and> O_thread (cur c w) \<notin> freed (proc c)) \<and>
    (\<forall>w \<in> W. \<forall>t. place_of c w = To_thread t \<longrightarrow> O_cr t \<notin> freed (proc c)) \<and>
    (\<forall>w \<in> W. \<forall>v \<in> W. \<forall>t. busy c w t \<longrightarrow> busy c v t \<longrightarrow> w = v) \<and>
    (\<forall>t \<in> T - ended c. TF_RUNNING \<in> tc_flags (thr (proc c) t) \<longleftrightarrow> (\<exists>w \<in> W. busy c w t))"
proof -
  note I = crew_invD [OF crew_sys.reach_inv [OF assms]]
  note X = exits_okD [OF I(3)]
  note F = flags_okD [OF I(2)]
  have g: "\<not> gone c (cur c w)" if "w \<in> W" for w using X(2) [of "cur c w" w] that by auto
  have "inj_on (cur c) W"
  proof (rule inj_onI)
    fix w v assume "w \<in> W" "v \<in> W" "cur c w = cur c v"
    then show "w = v" using stack_unique [OF I(1) g [of w], of w v] by (auto simp: has_running_def)
  qed
  moreover have "\<not> gone c t" if "w \<in> W" "place_of c w = To_thread t" for w t
    using X(1) [of t] F(4) [OF that(1), of t] that(2) by (auto simp: busy_def)
  ultimately show ?thesis using g F(2,5) by (auto simp: gone_def)
qed

theorem crew_stacks_witness:
  "busy thread_taken 0 5 \<and> \<not> busy thread_taken 1 5 \<and> inj_on (cur thread_taken) {0, 1}"
proof -
  have b: "busy thread_taken 0 5" by (simp add: thread_taken_def busy_def)
  note k = crew_stacks [OF thread_taken_reach]
  have i: "inj_on (cur thread_taken) {0, 1}" by (rule conjunct1 [OF k])
  note u = conjunct1 [OF conjunct2 [OF conjunct2 [OF conjunct2 [OF k]]]]
  have "\<not> busy thread_taken 1 5" using u [rule_format, of 0 1 5] b by auto
  then show ?thesis using b i by blast
qed

text \<open>C3: No wake-up is lost between the workers: a thread that no worker executes or is about to enter has no pending event that would make it continue; when it is in a wait, the
  event of the wait is on a list other than its pending list, and the next worker that dispatches that event takes the thread to run. A thread that continues inside a wait
  was continued by the event it waits for or by a signal, which is what the functions that wait rely on.\<close>

theorem crew_no_lost_wakeup:
  assumes "reach (crew_start W T) (crew_step W T) c"
  shows "(\<forall>t \<in> T - ended c. (\<forall>w \<in> W. \<not> busy c w t) \<longrightarrow> pick_pending (proc c) t = None \<and>
      (\<forall>e. waits c t = Some e \<longrightarrow> (\<exists>l. ev_el (evs (proc c) e) = Some l \<and> l \<noteq> Pending t) \<and> ev_tc (evs (proc c) e) = t \<and> \<not> must_queue e t (proc c))) \<and>
    (\<forall>w \<in> W. \<forall>e. place_of c w = Returned \<longrightarrow> waits c (cur c w) = Some e \<longrightarrow> continued (cur c w) e (view w c))"
proof (intro conjI ballI impI allI)
  note inv = crew_sys.reach_inv [OF assms]
  note I = crew_invD [OF inv]
  note D = waits_okD [OF I(5)]
  fix t assume t: "t \<in> T - ended c" "\<forall>w \<in> W. \<not> busy c w t"
  have d: "deaf (proc c) t" by (rule D(3)) (use t in auto)
  then show "pick_pending (proc c) t = None" using deaf_pick [OF events_okD(1) [OF I(4)]] by simp
  fix e assume e: "waits c t = Some e"
  then obtain l where l: "ev_el (evs (proc c) e) = Some l" using D(2) [OF e] t(2) by (cases "ev_el (evs (proc c) e)") auto
  then have "l \<noteq> Pending t" using d D(1) [OF e] by (auto simp: deaf_def)
  then show "\<exists>l. ev_el (evs (proc c) e) = Some l \<and> l \<noteq> Pending t" using l by blast
  show "ev_tc (evs (proc c) e) = t" using D(1) [OF e] by simp
  have "TF_RUNNING \<notin> tc_flags (thr (proc c) t)" using flags_okD(2) [OF I(2), of t] t by auto
  then show "\<not> must_queue e t (proc c)" using D(1) [OF e] by (simp add: must_queue_def)
next
  fix w e assume "w \<in> W" "place_of c w = Returned" "waits c (cur c w) = Some e"
  then show "continued (cur c w) e (view w c)" using crew_continued [OF crew_sys.reach_inv [OF assms]] by blast
qed

theorem crew_no_lost_wakeup_witness:
  "\<not> busy small_crew 0 5 \<and> \<not> busy small_crew 1 5 \<and> pick_pending (proc small_crew) 5 = None"
proof -
  have b: "\<not> busy small_crew 0 5" "\<not> busy small_crew 1 5" by (simp_all add: small_crew_def busy_def)
  moreover have "5 \<in> {5} - ended small_crew" by (simp add: small_crew_def)
  ultimately show ?thesis using crew_no_lost_wakeup [OF small_crew_reach] by blast
qed

text \<open>C4: Switching threads never deadlocks: a worker that is to enter a thread does so, or it spins on the lock \<^verbatim>\<open>running\<close> of the thread, and then another worker is on
  its way out of that thread; the same holds for a worker that is to free a thread, whatever is the reason it cannot yet. The way out itself
  never waits: both halves of the switch to \<^verbatim>\<open>scheduler_part2\<close> succeed.\<close>

theorem crew_progress:
  assumes "reach (crew_start W T) (crew_step W T) c" and "w \<in> W"
  shows "(\<forall>t. place_of c w = To_thread t \<longrightarrow> (\<exists>s. enter_thread t (view w c) = Inr ((), s)) \<or>
      (enter_thread t (view w c) = Inl (Spins (L_running t)) \<and> (\<exists>v \<in> W - {w}. place_of c v = To_part2 \<and> cur c v = t \<or> place_of c v = Left t))) \<and>
    (\<forall>t. place_of c w = To_free t \<longrightarrow> tc_thread_free t (view w c) = Inl (Spins (L_running t)) \<longrightarrow>
      (\<exists>v \<in> W - {w}. place_of c v = To_part2 \<and> cur c v = t \<or> place_of c v = Left t)) \<and>
    (place_of c w = To_part2 \<longrightarrow> (\<exists>s. switch_out (sched_p2 (wrk (proc c) w)) (view w c) = Inr ((), s))) \<and>
    (\<forall>t. place_of c w = Left t \<longrightarrow> (\<exists>s. switch_in (view w c) = Inr ((), s) \<and> locks s (L_running t) = None))"
proof (intro conjI allI impI)
  note inv = crew_sys.reach_inv [OF assms(1)]
  note I = crew_invD [OF inv]
  note S = stacks_okD [OF I(1)]
  note F = flags_okD [OF I(2)]
  note X = exits_okD [OF I(3)]
  { fix t assume pl: "place_of c w = To_thread t"
    then have b: "busy c w t" by (simp add: busy_def)
    have t: "t \<in> T" "\<not> gone c t" using F(3,4) [OF assms(2) b] X(1) [of t] by auto
    have cr: "tc_cr (thr (proc c) t)" using X(4) t by simp
    have n: "\<not> busy c v t" if "v \<in> W" "cur c v = t" for v
      using F(5) [OF assms(2) b that(1)] that(2) pl S(2,5) [OF assms(2)] t(1) by auto
    show "(\<exists>s. enter_thread t (view w c) = Inr ((), s)) \<or>
      (enter_thread t (view w c) = Inl (Spins (L_running t)) \<and> (\<exists>v \<in> W - {w}. place_of c v = To_part2 \<and> cur c v = t \<or> place_of c v = Left t))"
    proof (cases "locks (proc c) (L_running t)")
      case None
      then show ?thesis using cr by (simp add: enter_thread_def switch_out_def op_defs upd_defs)
    next
      case (Some v)
      note h = running_holder [OF inv t n Some]
      then have "v \<noteq> w" using pl by auto
      with h show ?thesis using cr Some by (auto simp: enter_thread_def switch_out_def op_defs upd_defs)
    qed
  next
    fix t assume pl: "place_of c w = To_free t" and sp: "tc_thread_free t (view w c) = Inl (Spins (L_running t))"
    have t: "t \<in> T" "\<not> gone c t" "t \<in> ended c" using X(5,6) [OF assms(2) pl] F(1) by auto
    obtain v where v: "locks (proc c) (L_running t) = Some v"
      using sp by (cases "locks (proc c) (L_running t)")
        (auto simp: tc_thread_free_def tc_waitq_unregister_def u_iwi_immediate_def op_defs upd_defs Let_def split: if_splits)
    have n: "\<not> busy c v t" if "v \<in> W" "cur c v = t" for v using F(4) [OF that(1), of t] t(3) by auto
    note h = running_holder [OF inv t(1,2) n v]
    then show "\<exists>v \<in> W - {w}. place_of c v = To_part2 \<and> cur c v = t \<or> place_of c v = Left t" using pl by auto
  next
    assume pl: "place_of c w = To_part2"
    have "\<not> has_running c v (sched_p2 (wrk (proc c) w))" if "v \<in> W" for v
      using that pl S(2) [OF assms(2)] S(5,6,9) [OF that] inj_onD [OF S(1), of v w] assms(2)
      by (cases "on_part2 (place_of c v)") (auto simp: has_running_def)
    then have "locks (proc c) (L_running (sched_p2 (wrk (proc c) w))) = None"
      using S(7) [OF S(4) [OF assms(2)]] by (cases "locks (proc c) (L_running (sched_p2 (wrk (proc c) w)))") auto
    then show "\<exists>s. switch_out (sched_p2 (wrk (proc c) w)) (view w c) = Inr ((), s)"
      using S(3) [OF assms(2)] by (simp add: switch_out_def op_defs)
  next
    fix t assume "place_of c w = Left t"
    then show "\<exists>s. switch_in (view w c) = Inr ((), s) \<and> locks s (L_running t) = None"
      using S(5,10) [OF assms(2)] by (auto simp: switch_in_eq cr_caller_def)
  }
qed

theorem crew_progress_witness:
  "(\<exists>s. enter_thread 5 (view 0 thread_taken) = Inr ((), s)) \<or> enter_thread 5 (view 0 thread_taken) = Inl (Spins (L_running 5))"
proof -
  have "place_of thread_taken 0 = To_thread 5" by (simp add: thread_taken_def)
  then show ?thesis using crew_progress [OF thread_taken_reach, of 0] by blast
qed

end
