(* ===== verification/Domains.thy ===== *)
theory Domains
  imports Threads Fd
begin

text \<open>
  Domains and their workers: setting up a domain (descriptors, the number of workers, the context for asynchronous I/O), starting and
  joining the pthreads, the initialisation of a worker on a CPU of its own, and \<^verbatim>\<open>tc_run\<close>, which starts the library and returns when its
  main thread has ended.

  What memory allocation, the C library and the kernel answer while a domain or a worker is set up is collected in the records \<open>boot\<close> and
  \<open>wboot\<close>. Before a pthread has a worker its marker in spin locks is \<^verbatim>\<open>~0\<close>; here it is the value \<open>this_worker\<close> has then.
  \<^verbatim>\<open>WITH_OTHER_DOMAIN\<close> is \<open>with_other_domain\<close> of theory \<open>Threads\<close>.
\<close>

section \<open>Domains\<close>

definition DEFAULT_STACK_SIZE :: int where "DEFAULT_STACK_SIZE = 1024 * 16"

definition CPU_SETSIZE :: nat where "CPU_SETSIZE = 1024"

definition CPU_ISSET :: "nat \<Rightarrow> bool list \<Rightarrow> bool" where
  "CPU_ISSET ci cs \<longleftrightarrow> ci < length cs \<and> cs ! ci"

definition cpus :: "bool list \<Rightarrow> nat list" where
  "cpus cs = filter (\<lambda>ci. CPU_ISSET ci cs) [0..<CPU_SETSIZE]"

definition CPU_COUNT :: "bool list \<Rightarrow> int" where
  "CPU_COUNT cs = int (length (cpus cs))"

text \<open>
  \<open>b_affinity\<close> is the mask \<^verbatim>\<open>sched_getaffinity\<close> stores, \<open>b_threads\<close> tells whether the array of pthreads could be allocated.
\<close>

record boot =
  b_sigrtmin :: int
  b_sigrtmax :: int
  b_affinity :: "bool list"
  b_rand :: u32
  b_threads :: bool

text \<open>\<open>mem\<close> is what \<^verbatim>\<open>calloc\<close> returns: the address of the domain and that of the \<^verbatim>\<open>struct tc_fd\<close> in it.\<close>

definition new_domain :: "(did \<times> fdid) option \<Rightarrow> did option tcop" where
  "new_domain mem = (case mem of
      None \<Rightarrow> ret None
    | Some (d, tf) \<Rightarrow> thn (block [
        mdf (upd_dom d (\<lambda>_. zero_domain\<lparr>timer_tcfd := tf\<rparr>)),
        mdf (upd_fd tf (\<lambda>_. zero_fd)),
        mdf (upd_dom d (d_stack_size_update (\<lambda>_. DEFAULT_STACK_SIZE))),
        bnd (sys_call Getpriority) (\<lambda>n. mdf (upd_dom d (nice_level_update (\<lambda>_. n))))]) (ret (Some d)))"

definition upd_this_dom :: "(tc_domain \<Rightarrow> tc_domain) \<Rightarrow> tcr \<Rightarrow> tcr" where
  "upd_this_dom f s = upd_dom (this_domain s) f s"

definition tc_set_stack_size :: "int \<Rightarrow> unit tcop" where
  "tc_set_stack_size n = ifm has_domain (mdf (upd_this_dom (d_stack_size_update (\<lambda>_. n)))) (throw (Null_deref ''tc_this_pthread_domain''))"

text \<open>A lock of the current domain, as \<^verbatim>\<open>spin_lock_init\<close> leaves it.\<close>

definition init_lock :: "(did \<Rightarrow> lock) \<Rightarrow> unit tcop" where
  "init_lock l = rdm (\<lambda>s. spin_unlock (l (this_domain s)))"

definition tc_init :: "boot \<Rightarrow> unit tcop" where
  "tc_init b = block [
     mdf (upd_this_dom (d_threads_update (\<lambda>_. []))),
     init_lock L_domain,
     whn (\<lambda>_. b_sigrtmin b + 6 > b_sigrtmax b) (msg_exit ''libTCR: bad value for SIGNAL_FOR_WAKEUP''),
     sys_ignore (Sig_handler (b_sigrtmin b + 6)),
     init_lock L_sync,
     mdf (upd_this_dom (sync_barrier_update (\<lambda>_. 0))),
     mdf (upd_this_dom (sleeping_workers_update (\<lambda>_. []))),
     bnd (sys_call Epoll_create) (\<lambda>r. thn (mdf (upd_this_dom (d_efd_update (\<lambda>_. r)))) (if r < 0 then msg_exit ''epoll_create failed'' else ret ())),
     init_lock L_timer,
     mdf (upd_this_dom (timer_sleepers_update (\<lambda>_. 0))),
     rdm (\<lambda>s. mdf (tc_mutex_init (Timer_mutex (this_domain s)))),
     bnd (sys_call Timerfd_create) (\<lambda>fd. if fd = -1 then msg_exit ''timerfd_create''
       else rdm (\<lambda>s. u_tc_fd_init (timer_tcfd (cur_domain s)) fd)),
     bnd (sys_call Eventfd) (\<lambda>r. mdf (upd_this_dom (immediate_fd_update (\<lambda>_. r)))),
     bnd (sys_call Eventfd) (\<lambda>r. mdf (upd_this_dom (aio_eventfd_update (\<lambda>_. r)))),
     whn (\<lambda>s. immediate_fd (cur_domain s) = -1 \<or> aio_eventfd (cur_domain s) = -1) (msg_exit ''eventfd() failed''),
     whn (\<lambda>s. CPU_COUNT (common_cpus s) = 0) (bnd (sys_call Sched_getaffinity) (\<lambda>r.
       if r \<noteq> 0 then msg_exit ''sched_getaffinity'' else mdf (\<lambda>s. s\<lparr>common_cpus := b_affinity b\<rparr>))),
     init_lock L_workers,
     mdf (upd_this_dom (worker_list_update (\<lambda>_. []))),
     arm_immediate EPOLL_CTL_ADD,
     arm_aio_efd EPOLL_CTL_ADD,
     mdf (upd_this_dom (aio_ctx_update (\<lambda>_. None)))]"

definition aio_max :: "int \<Rightarrow> int" where
  "aio_max workers = (let m = workers * 4 in if m > 256 then 256 else m)"

definition tc_aio_init :: "unit tcop" where
  "tc_aio_init = rdm (\<lambda>s. let m = aio_max (nr_of_workers (cur_domain s)) in
     bnd (sys_call (Io_setup m)) (\<lambda>r. if r \<noteq> 0 then msg_exit ''io_setup failed'' else mdf (upd_this_dom (aio_ctx_update (\<lambda>_. Some m)))))"

definition too_many :: "int \<Rightarrow> int \<Rightarrow> bool" where
  "too_many avail_cpu n \<longleftrightarrow> 0 < n \<and> n > avail_cpu"

text \<open>The number of workers for an argument of \<^verbatim>\<open>tc_run\<close>; 0 and negative numbers count from the number of CPUs.\<close>

definition worker_count :: "int \<Rightarrow> int \<Rightarrow> int" where
  "worker_count avail_cpu n = (if n \<le> 0 then
     (let m = avail_cpu + n in if m < 1 then 1 else if m > avail_cpu then avail_cpu else m) else n)"

definition u_setup_domain :: "boot \<Rightarrow> did \<Rightarrow> int \<Rightarrow> unit tcop" where
  "u_setup_domain b n_d n = block [
     with_other_domain n_d (block [
       tc_init b,
       mdf (\<lambda>s. upd_dom n_d (available_cpus_update (\<lambda>_. common_cpus s)) s),
       rdm (\<lambda>s. let avail_cpu = CPU_COUNT (available_cpus (doms s n_d)) in block [
         whn (\<lambda>_. too_many avail_cpu n) (msg ''tc_run(): got more workers than available CPUs''),
         mdf (upd_dom n_d (nr_of_workers_update (\<lambda>_. worker_count avail_cpu n)))]),
       mdf (upd_dom n_d (last_thread_id_update (\<lambda>_. b_rand b))),
       tc_aio_init,
       (if b_threads b then mdf (\<lambda>s. upd_dom n_d (d_pthreads_update (\<lambda>_. nr_of_workers (doms s n_d))) s)
        else msg_exit ''malloc() in tc_run failed'')]),
     whn has_domain (rdm (\<lambda>s. mdf (upd_dom n_d (d_stack_size_update (\<lambda>_. d_stack_size (cur_domain s))))))]"

text \<open>The results of \<^verbatim>\<open>pthread_create\<close> are not looked at. With \<open>reuse\<close> the current pthread is the worker of index 0.\<close>

definition start_pthreads :: "did \<Rightarrow> bool \<Rightarrow> unit tcop" where
  "start_pthreads n_d reuse = rdm (\<lambda>s.
     formap (\<lambda>i. sys_ignore (Pthread_create n_d i)) [(if reuse then 1 else 0) .. nr_of_workers (doms s n_d) - 1])"

text \<open>Both callers of \<^verbatim>\<open>new_domain\<close> use its result unchecked.\<close>

definition tc_new_domain :: "(did \<times> fdid) option \<Rightarrow> boot \<Rightarrow> int \<Rightarrow> did tcop" where
  "tc_new_domain mem b n = bnd (new_domain mem) (\<lambda>r. case r of
      None \<Rightarrow> throw (Null_deref ''n_d'')
    | Some n_d \<Rightarrow> thn (block [
        u_setup_domain b n_d n,
        ifm has_domain (ret ()) (throw (Null_deref ''tc_this_pthread_domain'')),
        mdf (\<lambda>s. upd_dom n_d (domain_chain_update (\<lambda>_. domain_chain (cur_domain s))) s),
        mdf (upd_this_dom (domain_chain_update (\<lambda>_. n_d))),
        start_pthreads n_d False]) (ret n_d))"

definition tc_renice_domain :: "did option \<Rightarrow> int \<Rightarrow> unit tcop" where
  "tc_renice_domain dm new_nice = rdm (\<lambda>s. let d = (case dm of None \<Rightarrow> this_domain s | Some d \<Rightarrow> d) in block [
     mdf (upd_dom d (nice_level_update (\<lambda>_. new_nice))),
     spin_lock (L_workers d),
     rdm (\<lambda>s. formap (\<lambda>w. sys_ignore (Setpriority (w_tid (wrk s w)) new_nice)) (worker_list (doms s d))),
     spin_unlock (L_workers d)])"

section \<open>Workers\<close>

text \<open>
  \<open>wb_mem\<close> is what \<^verbatim>\<open>calloc\<close> returns for the worker: its address and those of the two threads in it; the names are what \<^verbatim>\<open>asprintf\<close>
  allocates; \<open>wb_main_cr\<close> and \<open>wb_sched_cr\<close> tell whether \<^verbatim>\<open>cr_create\<close> succeeded for \<^verbatim>\<open>__tc_main\<close> and for the scheduler.
\<close>

record wboot =
  wb_mem :: "(wid \<times> tid \<times> tid) option"
  wb_main_name :: "string option"
  wb_sched_name :: "string option"
  wb_main_cr :: bool
  wb_sched_cr :: bool

definition asprintf_rv :: "string option \<Rightarrow> int" where
  "asprintf_rv r = (case r of None \<Rightarrow> -1 | Some nm \<Rightarrow> int (length nm))"

definition ENOMEM :: int where "ENOMEM = 12"

unbundle bit_operations_syntax

text \<open>The fields of \<^verbatim>\<open>main_thread\<close> and \<^verbatim>\<open>sched_p2\<close>; the memory was zeroed.\<close>

definition init_main_thread :: "int \<Rightarrow> tid \<Rightarrow> string option \<Rightarrow> unit tcop" where
  "init_main_thread n mt nm = block [
     mdf (upd_thr mt (\<lambda>t. case nm of None \<Rightarrow> t | Some x \<Rightarrow> t\<lparr>tc_name := x\<rparr>)),
     rdm (\<lambda>s. mdf (upd_thr mt (\<lambda>t. t\<lparr>tc_dom := this_domain s, tc_cr := True\<rparr>))),
     mdf (\<lambda>s. s\<lparr>cr_current := mt, has_tc := True\<rparr>),
     mdf (tc_waitq_init (Exit_wq mt)),
     mdf (upd_thr mt (refcnt_update (\<lambda>_. 0))),
     spin_unlock (L_running mt),
     spin_lock (L_running mt),
     mdf (upd_thr mt (tc_flags_update (\<lambda>_. {TF_RUNNING}))),
     mdf (event_list_init (Pending mt)),
     mdf (upd_thr mt (worker_nr_update (\<lambda>_. n)))]"

definition init_sched_p2 :: "int \<Rightarrow> tid \<Rightarrow> unit tcop" where
  "init_sched_p2 n sp = block [
     mdf (upd_thr sp (tc_cr_update (\<lambda>_. True))),
     mdf (tc_waitq_init (Exit_wq sp)),
     mdf (upd_thr sp (refcnt_update (\<lambda>_. 0))),
     spin_unlock (L_running sp),
     mdf (upd_thr sp (tc_flags_update (\<lambda>_. {}))),
     mdf (event_list_init (Pending sp)),
     mdf (upd_thr sp (worker_nr_update (\<lambda>_. n)))]"

definition u_worker_initialize :: "wboot \<Rightarrow> int \<Rightarrow> int tcop" where
  "u_worker_initialize b n = (case wb_mem b of
      None \<Rightarrow> ret ENOMEM
    | Some (w, mt, sp) \<Rightarrow> (let rv1 = asprintf_rv (wb_main_name b); rv = rv1 OR asprintf_rv (wb_sched_name b) in
        thn (block [
          mdf (upd_wrk w (\<lambda>_. zero_worker\<lparr>main_thread := mt, sched_p2 := sp\<rparr>)),
          mdf (upd_thr mt (\<lambda>_. zero_thread)),
          mdf (upd_thr sp (\<lambda>_. zero_thread)),
          mdf (\<lambda>s. s\<lparr>this_worker := w, has_worker := True\<rparr>),
          mdf (upd_cur_worker (w_nr_update (\<lambda>_. n))),
          bnd (sys_call Gettid) (\<lambda>t. mdf (upd_cur_worker (w_tid_update (\<lambda>_. t)))),
          init_main_thread n mt (wb_main_name b),
          mdf (upd_thr sp (\<lambda>t. case wb_sched_name b of None \<Rightarrow> t | Some x \<Rightarrow> t\<lparr>tc_name := x\<rparr>)),
          whn (\<lambda>_. rv = -1) (msg_exit ''allocation in asprintf() failed''),
          whn (\<lambda>_. \<not> wb_sched_cr b) (msg_exit ''allocation of worker->sched_p2 failed''),
          init_sched_p2 n sp,
          mdf (upd_cur_worker (\<lambda>v. v\<lparr>must_sync := False, is_on_sleeping_list := False, w_is_init := True\<rparr>))]) (ret rv)))"

text \<open>The search for the CPU with the number \<open>my\<close> among the available ones.\<close>

fun cpu_search :: "bool list \<Rightarrow> int \<Rightarrow> int \<Rightarrow> nat list \<Rightarrow> nat option" where
  "cpu_search cs my seen [] = None"
| "cpu_search cs my seen (ci # cis) =
     (if CPU_ISSET ci cs then if seen = my then Some ci else cpu_search cs my (seen + 1) cis
      else cpu_search cs my seen cis)"

definition tc_worker_init :: "wboot \<Rightarrow> unit tcop" where
  "tc_worker_init b = whn (\<lambda>s. \<not> has_worker s) (rdm (\<lambda>s0. let i = pthread_counter s0; cs = available_cpus (cur_domain s0) in
     thn (mdf (\<lambda>s. s\<lparr>pthread_counter := pthread_counter s + 1\<rparr>))
     (if CPU_COUNT cs = 0 then throw Division_by_zero
      else (case cpu_search cs (i mod CPU_COUNT cs) 0 [0..<CPU_SETSIZE] of
         None \<Rightarrow> msg_exit ''could not find my CPU''
       | Some ci \<Rightarrow> block [
           bnd (sys_call (Setaffinity ci)) (\<lambda>r. if r \<noteq> 0 then msg_exit ''sched_setaffinity'' else ret ()),
           thn (u_worker_initialize b i) (ret ()),
           rdm (\<lambda>s. spin_lock (L_workers (this_domain s))),
           ifm has_worker (mdf (\<lambda>s. upd_this_dom (worker_list_update (Cons (this_worker s))) s)) (throw (Null_deref ''worker'')),
           rdm (\<lambda>s. spin_unlock (L_workers (this_domain s))),
           rdm (\<lambda>s. sys_ignore (Setpriority (w_tid (cur_worker s)) (nice_level (cur_domain s))))]))))"

section \<open>Running\<close>

text \<open>
  \<^verbatim>\<open>__tc_main\<close> may end in another pthread than it began in; it continues behind the \<^verbatim>\<open>cr_init\<close> of that one. \<open>e\<close> is the event of its wait.
\<close>

definition uu_tc_main :: "wboot \<Rightarrow> eid \<Rightarrow> unit bop" where
  "uu_tc_main b e = block [
     lift (tc_worker_init b),
     rds (\<lambda>s. thn (tc_thread_wait_ref e (tc_main s)) (ret ())),
     lift (rdm (\<lambda>s. u_iwi_immediate (this_domain s))),
     lift (mdf (\<lambda>s. s\<lparr>vars := (vars s)(Pt_done := 1)\<rparr>))]"

definition call_tc_main :: "wboot \<Rightarrow> eid \<Rightarrow> unit bop" where
  "call_tc_main b e = block [
     (if wb_main_cr b then uu_tc_main b e else throw (Null_deref ''co->ctx'')),
     lift (assertm ''pt_done'' (\<lambda>s. vars s Pt_done \<noteq> 0))]"

definition worker_pthread :: "wboot \<Rightarrow> eid \<Rightarrow> did \<Rightarrow> unit bop" where
  "worker_pthread b e d = block [
     lift (mdf (\<lambda>s. s\<lparr>this_domain := d, has_domain := True\<rparr>)),
     call_tc_main b e]"

text \<open>\<^verbatim>\<open>tc_run\<close> until the workers run, and the whole of it.\<close>

definition tc_run_start :: "(did \<times> fdid) option \<Rightarrow> boot \<Rightarrow> (tid \<times> eid) option \<Rightarrow> bool \<Rightarrow> string \<Rightarrow> int \<Rightarrow> did tcop" where
  "tc_run_start mem b tmem cr_ok name n = thn (block [
       mdf (event_list_init Immediate),
       mdf (\<lambda>s. s\<lparr>immediate_count := 0\<rparr>)])
     (bnd (new_domain mem) (\<lambda>r. case r of
        None \<Rightarrow> throw (Null_deref ''n_d'')
      | Some n_d \<Rightarrow> thn (block [
          u_setup_domain b n_d n,
          mdf (upd_dom n_d (domain_chain_update (\<lambda>_. n_d))),
          mdf (\<lambda>s. s\<lparr>this_domain := n_d, has_domain := True\<rparr>),
          bnd (tc_thread_new_ref tmem cr_ok name) (\<lambda>t. mdf (\<lambda>s. s\<lparr>tc_main := t\<rparr>)),
          start_pthreads n_d True]) (ret n_d)))"

definition tc_run ::
  "(did \<times> fdid) option \<Rightarrow> boot \<Rightarrow> (tid \<times> eid) option \<Rightarrow> bool \<Rightarrow> wboot \<Rightarrow> eid \<Rightarrow> string \<Rightarrow> int \<Rightarrow> unit bop" where
  "tc_run mem b tmem cr_ok wb e name n = bnd (lift (tc_run_start mem b tmem cr_ok name n)) (\<lambda>n_d. block [
     call_tc_main wb e,
     lift (formap (\<lambda>i. sys_ignore (Pthread_join n_d i)) [1 .. n - 1])])"

section \<open>CPUs\<close>

lemma cpu_search_eq:
  "cpu_search cs my seen cis = (let l = filter (\<lambda>ci. CPU_ISSET ci cs) cis in
     if seen \<le> my \<and> my - seen < int (length l) then Some (l ! nat (my - seen)) else None)"
proof (induction cis arbitrary: seen)
  case (Cons ci cis)
  show ?case
  proof (cases "CPU_ISSET ci cs \<and> seen \<noteq> my")
    case True
    then show ?thesis using Cons [of "seen + 1"] by (auto simp: Let_def nth_Cons' nat_diff_distrib' diff_diff_eq [symmetric] intro: arg_cong [of _ _ "(!) xs" for xs])
  next
    case False
    then show ?thesis using Cons [of seen] by (auto simp: Let_def)
  qed
qed simp

lemma cpu_found:
  assumes "0 \<le> i" and "CPU_COUNT cs > 0"
  shows "cpu_search cs (i mod CPU_COUNT cs) 0 [0..<CPU_SETSIZE] = Some (cpus cs ! nat (i mod CPU_COUNT cs))"
    and "CPU_ISSET (cpus cs ! nat (i mod CPU_COUNT cs)) cs"
proof -
  have b: "0 \<le> i mod CPU_COUNT cs" "i mod CPU_COUNT cs < CPU_COUNT cs" using assms(2) by simp_all
  show "cpu_search cs (i mod CPU_COUNT cs) 0 [0..<CPU_SETSIZE] = Some (cpus cs ! nat (i mod CPU_COUNT cs))"
    using b unfolding cpu_search_eq Let_def by (simp add: cpus_def CPU_COUNT_def)
  have "cpus cs ! nat (i mod CPU_COUNT cs) \<in> set (cpus cs)"
    by (rule nth_mem) (use b in \<open>simp add: CPU_COUNT_def nat_less_iff\<close>)
  then show "CPU_ISSET (cpus cs ! nat (i mod CPU_COUNT cs)) cs" unfolding cpus_def by simp
qed

text \<open>Workers with consecutive numbers share a CPU only when there are more of them than CPUs.\<close>

lemma cpus_differ:
  assumes "0 \<le> i" and "i < j" and "j - i < CPU_COUNT cs"
  shows "cpus cs ! nat (i mod CPU_COUNT cs) \<noteq> cpus cs ! nat (j mod CPU_COUNT cs)"
proof -
  have n: "i mod CPU_COUNT cs \<noteq> j mod CPU_COUNT cs"
    using assms by (metis diff_gt_0_iff_gt mod_eq_dvd_iff zdvd_not_zless)
  have "0 < CPU_COUNT cs" using assms by simp
  then have "nat (i mod CPU_COUNT cs) < length (cpus cs)" "nat (j mod CPU_COUNT cs) < length (cpus cs)"
    by (simp_all add: CPU_COUNT_def nat_less_iff)
  then show ?thesis using n assms by (simp add: nth_eq_iff_index_eq cpus_def nat_eq_iff)
qed

section \<open>Starting a domain\<close>

text \<open>The kernel's answer to the system call number \<open>k\<close> from now on.\<close>

definition answer :: "tcr \<Rightarrow> nat \<Rightarrow> int" where
  "answer s k = sysres s (length (syslog s) + k)"

lemma answers:
  "sysres s (length (syslog s)) = answer s 0"
  "sysres s (Suc (length (syslog s))) = answer s 1"
  "sysres s (Suc (Suc (length (syslog s)))) = answer s 2"
  "sysres s (Suc (Suc (Suc (length (syslog s))))) = answer s 3"
  "sysres s (Suc (Suc (Suc (Suc (length (syslog s)))))) = answer s 4"
  "sysres s (Suc (Suc (Suc (Suc (Suc (length (syslog s))))))) = answer s 5"
  "sysres s (Suc (Suc (Suc (Suc (Suc (Suc (length (syslog s)))))))) = answer s 6"
  "sysres s (Suc (Suc (Suc (Suc (Suc (Suc (Suc (length (syslog s))))))))) = answer s 7"
  "sysres s (Suc (Suc (Suc (Suc (Suc (Suc (Suc (Suc (length (syslog s)))))))))) = answer s 8"
  "sysres s (Suc (Suc (Suc (Suc (Suc (Suc (Suc (Suc (Suc (length (syslog s))))))))))) = answer s 9"
  "sysres s (Suc (Suc (Suc (Suc (Suc (Suc (Suc (Suc (Suc (Suc (length (syslog s)))))))))))) = answer s 10"
  "sysres s (Suc (Suc (Suc (Suc (Suc (Suc (Suc (Suc (Suc (Suc (Suc (length (syslog s))))))))))))) = answer s 11"
  by (simp_all add: answer_def eval_nat_numeral)

definition boot_ok :: "boot \<Rightarrow> tcr \<Rightarrow> bool" where
  "boot_ok b s \<longleftrightarrow> b_sigrtmin b + 6 \<le> b_sigrtmax b \<and> b_threads b \<and> CPU_COUNT (common_cpus s) = 0 \<and>
     0 \<le> answer s 1 \<and> answer s 2 \<noteq> -1 \<and> answer s 3 = 0 \<and> 0 \<le> answer s 4 \<and> 0 \<le> answer s 5 \<and> answer s 6 \<noteq> -1 \<and> answer s 7 \<noteq> -1 \<and>
     answer s 8 = 0 \<and> answer s 9 = 0 \<and> answer s 10 = 0 \<and> answer s 11 = 0"

definition boot_calls :: "boot \<Rightarrow> tcr \<Rightarrow> int \<Rightarrow> syscall list" where
  "boot_calls b s w = [Sig_handler (b_sigrtmin b + 6), Epoll_create, Timerfd_create,
     Epoll_ctl (answer s 1) EPOLL_CTL_ADD (answer s 2) 0, Fcntl_getfl (answer s 2), Fcntl_setfl (answer s 2) (answer s 4 OR O_NONBLOCK),
     Eventfd, Eventfd, Sched_getaffinity, Epoll_ctl (answer s 1) EPOLL_CTL_ADD (answer s 6) (EPOLLIN OR EPOLLONESHOT),
     Epoll_ctl (answer s 1) EPOLL_CTL_ADD (answer s 7) (EPOLLIN OR EPOLLONESHOT), Io_setup (aio_max w)]"

definition booted_domain :: "boot \<Rightarrow> tcr \<Rightarrow> int \<Rightarrow> tc_domain \<Rightarrow> tc_domain" where
  "booted_domain b s w d = d\<lparr>d_threads := [], sync_barrier := 0, sleeping_workers := [], d_efd := answer s 1, timer_sleepers := 0,
     immediate_fd := answer s 6, aio_eventfd := answer s 7, worker_list := [], available_cpus := b_affinity b,
     nr_of_workers := w, last_thread_id := b_rand b, aio_ctx := Some (aio_max w), d_pthreads := w\<rparr>"

lemmas boot_defs = op_defs upd_defs upd_this_dom_def init_lock_def tc_mutex_init_def tc_waitq_init_def event_list_init_def

lemmas start_defs = boot_defs u_tc_fd_init_def u_tc_fd_init_keep_blocking_def tcfd_epoll_ctl_def mark_dead_def
  arm_immediate_def arm_aio_efd_def tc_aio_init_def

text \<open>The state \<^verbatim>\<open>_setup_domain\<close> leaves when every call it depends on succeeds.\<close>

definition booted :: "boot \<Rightarrow> did \<Rightarrow> int \<Rightarrow> tcr \<Rightarrow> tcr" where
  "booted b d n s = (let w = worker_count (CPU_COUNT (b_affinity b)) n; tf = timer_tcfd (doms s d);
     wq = Waiters (Mutex_wq (Timer_mutex d)); D = booted_domain b s w (doms s d) in
     s\<lparr>syslog := syslog s @ boot_calls b s w, common_cpus := b_affinity b,
       msgs := msgs s @ (if too_many (CPU_COUNT (b_affinity b)) n then [''tc_run(): got more workers than available CPUs''] else []),
       doms := (doms s)(d := (if has_domain s then D\<lparr>d_stack_size := d_stack_size (cur_domain s)\<rparr> else D)),
       fds := (fds s)(tf := \<lparr>fd_fd = answer s 2, err_hup = False, fd_ep_events = 0, was_allocated = True\<rparr>),
       evl := (evl s)(wq := [], Fd_events tf := []), m_owner := (m_owner s)(Timer_mutex d := None),
       locks := (locks s)(L_domain d := None, L_sync d := None, L_timer d := None, L_list wq := None, L_list (Fd_events tf) := None,
         L_workers d := None)\<rparr>)"

lemma whn_msg: "whn (\<lambda>_. c) (msg m) s = Inr ((), s\<lparr>msgs := msgs s @ (if c then [m] else [])\<rparr>)"
  by (simp add: whn_def msg_def mdf_def)

lemma tc_init_eq:
  assumes "boot_ok b s" and "tf = timer_tcfd (doms s d)" and "wq = Waiters (Mutex_wq (Timer_mutex d))"
  shows "tc_init b (s\<lparr>this_domain := d, has_domain := True\<rparr>) = Inr ((), s\<lparr>this_domain := d, has_domain := True,
       m_owner := (m_owner s)(Timer_mutex d := None),
       fds := (fds s)(tf := \<lparr>fd_fd = answer s 2, err_hup = False, fd_ep_events = 0, was_allocated = True\<rparr>),
       evl := (evl s)(wq := [], Fd_events tf := []), common_cpus := b_affinity b,
       locks := (locks s)(L_domain d := None, L_sync d := None, L_timer d := None, L_list wq := None, L_list (Fd_events tf) := None,
         L_workers d := None),
       syslog := syslog s @ take 11 (boot_calls b s 0),
       doms := (doms s)(d := (doms s d)\<lparr>d_threads := [], sync_barrier := 0, sleeping_workers := [], d_efd := answer s 1, timer_sleepers := 0,
         immediate_fd := answer s 6, aio_eventfd := answer s 7, worker_list := [], aio_ctx := None\<rparr>)\<rparr>)"
  using assms unfolding boot_ok_def tc_init_def
  by (simp add: start_defs answers [of s] boot_calls_def)

lemma setup_domain_eq:
  assumes "boot_ok b s" and "has_domain s \<Longrightarrow> this_domain s \<noteq> d"
  shows "u_setup_domain b d n s = Inr ((), booted b d n s)"
proof -
  have 2: "answer s 11 = 0" "b_threads b" using assms by (simp_all add: boot_ok_def)
  note 1 = tc_init_eq [OF assms(1) refl refl, of d]
  show ?thesis
  proof (cases "has_domain s")
    case True
    show ?thesis
      unfolding u_setup_domain_def with_other_domain_def
      by (simp add: rdm_def thn_def mdf_def bnd_def 1 whn_msg Let_def split del: if_split, simp add: op_defs upd_defs upd_this_dom_def tc_aio_init_def 2 answers [of s] boot_calls_def Let_def assms(2) True split del: if_split,
        rule tcr.equality, simp_all add: True booted_def booted_domain_def boot_calls_def Let_def)
  next
    case False
    show ?thesis
      unfolding u_setup_domain_def with_other_domain_def
      by (simp add: rdm_def thn_def mdf_def bnd_def 1 whn_msg Let_def split del: if_split, simp add: op_defs upd_defs upd_this_dom_def tc_aio_init_def 2 answers [of s] boot_calls_def Let_def False split del: if_split,
        rule tcr.equality, simp_all add: False booted_def booted_domain_def boot_calls_def Let_def)
  qed
qed

lemma worker_count_bounds:
  "1 \<le> worker_count a n" "0 < n \<Longrightarrow> worker_count a n = n" "n \<le> 0 \<Longrightarrow> worker_count a n \<le> max 1 a"
  by (auto simp: worker_count_def Let_def)

lemma aio_max_eq: "aio_max w = min (4 * w) 256"
  by (simp add: aio_max_def Let_def)

lemma start_pthreads_loop:
  "formap (\<lambda>i. sys_ignore (Pthread_create d i)) is s = Inr ((), s\<lparr>syslog := syslog s @ map (Pthread_create d) is\<rparr>)"
  by (induction "is" arbitrary: s) (simp_all add: sys_ignore_def sys_call_def bnd_def ret_def)

text \<open>The state after \<^verbatim>\<open>new_domain\<close>.\<close>

definition zeroed :: "did \<Rightarrow> fdid \<Rightarrow> tcr \<Rightarrow> tcr" where
  "zeroed d tf s = s\<lparr>doms := (doms s)(d := zero_domain\<lparr>timer_tcfd := tf, d_stack_size := DEFAULT_STACK_SIZE, nice_level := answer s 0\<rparr>),
     fds := (fds s)(tf := zero_fd), syslog := syslog s @ [Getpriority]\<rparr>"

lemma new_domain_eq: "new_domain (Some (d, tf)) s = Inr (Some d, zeroed d tf s)"
  by (simp add: new_domain_def op_defs upd_defs zeroed_def answer_def)

lemma tc_new_domain_eq:
  assumes "boot_ok b (zeroed d tf s)" and "has_domain s" and "this_domain s \<noteq> d"
    and "s1 = booted b d n (zeroed d tf s)" and "w = worker_count (CPU_COUNT (b_affinity b)) n"
  shows "tc_new_domain (Some (d, tf)) b n s = Inr (d, s1\<lparr>
    doms := (doms s1)(d := (doms s1 d)\<lparr>domain_chain := domain_chain (cur_domain s)\<rparr>, this_domain s := (cur_domain s)\<lparr>domain_chain := d\<rparr>),
    syslog := syslog s1 @ map (Pthread_create d) [0 .. w - 1]\<rparr>)"
proof -
  have 1: "u_setup_domain b d n (zeroed d tf s) = Inr ((), s1)"
    unfolding assms(4) by (rule setup_domain_eq) (use assms in \<open>simp_all add: zeroed_def\<close>)
  have 2: "has_domain s1" "this_domain s1 = this_domain s" "doms s1 (this_domain s) = cur_domain s" "nr_of_workers (doms s1 d) = w"
    using assms by (simp_all add: booted_def booted_domain_def zeroed_def Let_def)
  show ?thesis
    unfolding tc_new_domain_def bnd_def [of "new_domain (Some (d, tf))"] new_domain_eq
    using 1 2 assms(3) by (simp add: op_basic_defs upd_this_dom_def upd_defs start_pthreads_def start_pthreads_loop)
qed


text \<open>A second domain on a machine with CPUs 1 and 2; every system call answers 0.\<close>

definition two_cpus :: boot where
  "two_cpus = \<lparr>b_sigrtmin = 34, b_sigrtmax = 64, b_affinity = [False, True, True], b_rand = 7, b_threads = True\<rparr>"

lemma cpus_two: "cpus [False, True, True] = [1, 2]"
proof -
  have "[0..<CPU_SETSIZE] = [0..<3] @ [3..<CPU_SETSIZE]"
    using upt_add_eq_append [of 0 3 1021] by (simp add: CPU_SETSIZE_def)
  moreover have "filter (\<lambda>ci. CPU_ISSET ci [False, True, True]) [3..<CPU_SETSIZE] = []"
    by (auto simp: filter_empty_conv CPU_ISSET_def)
  moreover have "[0..<3] = [0, 1, 2 :: nat]" by (simp add: eval_nat_numeral)
  ultimately show ?thesis by (simp add: cpus_def CPU_ISSET_def)
qed

lemma cpus_none: "cpus [] = []"
  by (auto simp: cpus_def CPU_ISSET_def)


text \<open>The same for the first domain, up to where its first thread is created.\<close>

lemma first_domain:
  assumes "boot_ok b (zeroed d tf s)" and "\<not> has_domain s" and "wf_ev s" and "lists_unlocked s" and "fresh_thread t ea s"
    and "evl s (Waiters (Mutex_wq (Timer_mutex d))) = []" and "evl s (Fd_events tf) = []"
    and "w = worker_count (CPU_COUNT (b_affinity b)) n"
    and "s2 = (booted b d n (zeroed d tf s))\<lparr>this_domain := d, has_domain := True\<rparr>"
    and "s3 = s2\<lparr>doms := (doms s2)(d := (doms s2 d)\<lparr>domain_chain := d\<rparr>)\<rparr>"
  shows "wf_ev s3" "lists_unlocked s3" "fresh_thread t ea s3" "free_lock s3 (L_domain d)" "evl s3 = evl s" "wrk s3 = wrk s" "this_domain s3 = d" "has_domain s3"
    "syslog s3 = syslog s @ [Getpriority] @ boot_calls b (zeroed d tf s) w" "sysres s3 = sysres s" "freed s3 = freed s"
    "doms s3 d = (booted_domain b (zeroed d tf s) w (doms (zeroed d tf s) d))\<lparr>domain_chain := d\<rparr>"
    "locks s3 = (locks s)(L_domain d := None, L_sync d := None, L_timer d := None, L_workers d := None)"
proof -
  have l: "(evl s)(Waiters (Mutex_wq (Timer_mutex d)) := [], Fd_events tf := []) = evl s" using assms(6,7) by (simp add: fun_eq_iff)
  have k: "(locks s)(L_domain d := None, L_sync d := None, L_timer d := None, L_list (Waiters (Mutex_wq (Timer_mutex d))) := None,
      L_list (Fd_events tf) := None, L_workers d := None) = (locks s)(L_domain d := None, L_sync d := None, L_timer d := None, L_workers d := None)"
    using assms(4) by (auto simp: lists_unlocked_def fun_eq_iff)
  show f: "evl s3 = evl s" "wrk s3 = wrk s" "this_domain s3 = d" "has_domain s3" "sysres s3 = sysres s" "freed s3 = freed s"
    "syslog s3 = syslog s @ [Getpriority] @ boot_calls b (zeroed d tf s) w"
    "doms s3 d = (booted_domain b (zeroed d tf s) w (doms (zeroed d tf s) d))\<lparr>domain_chain := d\<rparr>"
    "locks s3 = (locks s)(L_domain d := None, L_sync d := None, L_timer d := None, L_workers d := None)"
    using l k assms(2,8-10) by (simp_all add: booted_def Let_def zeroed_def)
  have e: "evs s3 = evs s" "thr s3 = thr s" "immediate_count s3 = immediate_count s"
    using assms(9,10) by (simp_all add: booted_def Let_def zeroed_def)
  show "wf_ev s3" using assms(3) by (subst wf_ev_cong [of _ s]) (simp_all add: e f)
  show "lists_unlocked s3" "fresh_thread t ea s3" "free_lock s3 (L_domain d)"
    using assms(4,5) by (simp_all add: f e lists_unlocked_def fresh_thread_def free_lock_def refs_def)
qed

text \<open>C36: The start of the program: when the calls it depends on succeed, \<^verbatim>\<open>tc_run\<close> on an idle process sets up the first domain with the number of workers asked for, as a ring of
  its own, creates one pthread less than workers (the calling pthread is the first), and leaves exactly one event to run, that of the main thread, on the immediate list of
  this domain; the reference the workers wait for names that thread and is valid; nobody holds a lock, and the queue invariant and the invariant of the sleeping workers hold.\<close>

theorem run_start_correct:
  assumes "boot_ok b (zeroed d tf s)" and "answer s 13 = SIZEOF_EVENTFD" and "\<not> has_domain s" and "wf_ev s" and "lists_unlocked s" and "fresh_thread t ea s"
    and "evl s Immediate = []" and "evl s (Waiters (Mutex_wq (Timer_mutex d))) = []" and "evl s (Fd_events tf) = []"
  shows "\<exists>s' w. tc_run_start (Some (d, tf)) b (Some (t, ea)) True name n s = Inr (d, s') \<and>
    this_domain s' = d \<and> has_domain s' \<and> domain_chain (doms s' d) = d \<and> nr_of_workers (doms s' d) = w \<and>
    1 \<le> w \<and> (0 < n \<longrightarrow> w = n) \<and> (n \<le> 0 \<longrightarrow> w = max 1 (CPU_COUNT (b_affinity b) + n)) \<and>
    syslog s' = syslog s @ [Getpriority] @ boot_calls b (zeroed d tf s) w @ [Eventfd_write (immediate_fd (doms s' d))] @ map (Pthread_create d) [1 .. w - 1] \<and>
    tc_main s' = \<lparr>r_thr = Some t, r_domain = d, r_id = tc_id (thr s' t)\<rparr> \<and> tc_id (thr s' t) \<noteq> 0 \<and> u_thread_valid d t s' = RV_OK \<and>
    evl s' Immediate = [ea] \<and> ev_tc (evs s' ea) = t \<and> ev_domain (evs s' ea) = tc_dom (thr s' t) \<and>
    lists_unlocked s' \<and> (\<forall>l \<in> {L_domain d, L_sync d, L_timer d, L_workers d}. free_lock s' l) \<and> sync_inv d s' \<and> wf_ev s'"
proof -
  define w where "w = worker_count (CPU_COUNT (b_affinity b)) n"
  define s1 where "s1 = booted b d n (zeroed d tf s)"
  define s2 where "s2 = s1\<lparr>this_domain := d, has_domain := True\<rparr>"
  define s3 where "s3 = s2\<lparr>doms := (doms s2)(d := (doms s2 d)\<lparr>domain_chain := d\<rparr>)\<rparr>"
  note f = first_domain [OF assms(1,3-6,8,9) w_def s2_def [unfolded s1_def] s3_def]
  have "length (boot_calls b (zeroed d tf s) w) = 12" by (simp add: boot_calls_def)
  then have ans: "sysres s3 (length (syslog s3)) = SIZEOF_EVENTFD" using assms(2) by (simp add: f answer_def eval_nat_numeral)
  from new_ref_result [OF f(1-3) ans f(4), of name] obtain s4 where s4: "tc_thread_new_ref_in_domain (Some (t, ea)) True name d s3 =
      Inr (\<lparr>r_thr = Some t, r_domain = d, r_id = tc_id (thr s4 t)\<rparr>, s4)" "tc_id (thr s4 t) \<noteq> 0"
    "evl s4 = (evl s3)(Immediate := evl s3 Immediate @ [ea])" "ev_tc (evs s4 ea) = t" "ev_domain (evs s4 ea) = d"
    "tc_dom (thr s4 t) = d" "syslog s4 = syslog s3 @ [iwi_of s3 d]" "this_domain s4 = this_domain s3" "has_domain s4 = has_domain s3"
    "locks s4 = locks s3" "wf_ev s4" "doms s4 = (doms s3)(d := with_thread t d (doms s3 d))" "wrk s4 = wrk s3" "freed s4 \<subseteq> freed s3"
    by metis
  define s5 where "s5 = s4\<lparr>tc_main := \<lparr>r_thr = Some t, r_domain = d, r_id = tc_id (thr s4 t)\<rparr>\<rparr>"
  define s' where "s' = s5\<lparr>syslog := syslog s4 @ map (Pthread_create d) [1 .. w - 1]\<rparr>"
  have i: "event_list_init Immediate s = s" "immediate_count s = 0"
    using assms(4,5,7) by (simp_all add: event_list_init_def lists_unlocked_def wf_ev_def fun_upd_idem)
  then have i0: "s\<lparr>immediate_count := 0\<rparr> = s" by simp
  have 1: "u_setup_domain b d n (zeroed d tf s) = Inr ((), s1)"
    unfolding s1_def by (rule setup_domain_eq [OF assms(1)]) (use assms(3) in \<open>simp add: zeroed_def\<close>)
  have 2: "s1\<lparr>doms := (doms s1)(d := (doms s1 d)\<lparr>domain_chain := d\<rparr>), this_domain := d, has_domain := True\<rparr> = s3" by (simp add: s3_def s2_def)
  have nw: "nr_of_workers (doms s4 d) = w" by (simp add: s4(12) f with_thread_def booted_domain_def)
  have r: "tc_run_start (Some (d, tf)) b (Some (t, ea)) True name n s = Inr (d, s')"
    by (simp add: tc_run_start_def op_basic_defs i(1) i0 new_domain_eq 1 upd_dom_def 2 tc_thread_new_ref_def f(7) s4(1) s5_def [symmetric])
      (simp add: start_pthreads_def op_basic_defs start_pthreads_loop s5_def s'_def nw)
  have "wf_ev s'" using s4(11) by (subst wf_ev_cong [of _ s4]) (simp_all add: s'_def s5_def)
  moreover have "n \<le> 0 \<Longrightarrow> w = max 1 (CPU_COUNT (b_affinity b) + n)" by (auto simp: w_def worker_count_def Let_def)
  moreover have "1 \<le> w" "0 < n \<Longrightarrow> w = n" using worker_count_bounds by (simp_all add: w_def)
  moreover have D: "doms s' d = with_thread t d ((booted_domain b (zeroed d tf s) w (doms (zeroed d tf s) d))\<lparr>domain_chain := d\<rparr>)"
    by (simp add: s'_def s5_def s4(12) f)
  moreover have "sync_inv d s'"
    by (simp add: sync_inv_def syncing_def D with_thread_def booted_domain_def zeroed_def) (simp add: s'_def s5_def s4(10) f)
  ultimately show ?thesis
    using f assms(5,7) s4 by (intro exI [of _ s'] exI [of _ w])
      (simp add: r, simp add: s'_def s5_def with_thread_def booted_domain_def u_thread_valid_def lists_unlocked_def free_lock_def iwi_of_def)
qed

text \<open>A machine with CPUs 1 and 2; the write to the eventfd, the fourteenth system call, answers 8, the others 0.\<close>

theorem run_start_correct_witness:
  "\<exists>s'. tc_run_start (Some (5, 9)) two_cpus (Some (3, 40)) True ''main'' 0 (process_image\<lparr>sysres := (\<lambda>k. if k = 13 then 8 else 0)\<rparr>) = Inr (5, s') \<and>
    nr_of_workers (doms s' 5) = 2 \<and> evl s' Immediate = [40] \<and> u_thread_valid 5 3 s' = RV_OK \<and> wf_ev s'"
proof -
  let ?s = "process_image\<lparr>sysres := (\<lambda>k. if k = 13 then 8 else 0)\<rparr>"
  have "boot_ok two_cpus (zeroed 5 9 ?s)" "answer ?s 13 = SIZEOF_EVENTFD"
    by (simp_all add: boot_ok_def two_cpus_def zeroed_def answer_def CPU_COUNT_def cpus_none SIZEOF_EVENTFD_def)
  moreover have "wf_ev ?s" "lists_unlocked ?s" "fresh_thread 3 40 ?s"
    by (simp_all add: wf_ev_def refs_def lists_unlocked_def fresh_thread_def free_lock_def)
  moreover have "CPU_COUNT (b_affinity two_cpus) = 2" by (simp add: two_cpus_def CPU_COUNT_def cpus_two)
  ultimately show ?thesis using run_start_correct [of two_cpus 5 9 ?s 3 40 "''main''" 0] by auto
qed

section \<open>Starting a worker\<close>

text \<open>What the memory of a new worker may be assumed to be: nothing refers to it or to the two threads in it.\<close>

definition fresh_worker :: "wid \<Rightarrow> tid \<Rightarrow> tid \<Rightarrow> tcr \<Rightarrow> bool" where
  "fresh_worker w mt sp s \<longleftrightarrow> mt \<noteq> sp \<and> w \<notin> set (worker_list (cur_domain s)) \<and>
     (\<forall>t \<in> {mt, sp}. refs s t = {} \<and> evl s (Waiters (Exit_wq t)) = [] \<and> evl s (Pending t) = [])"

definition started_worker :: "wboot \<Rightarrow> int \<Rightarrow> int \<Rightarrow> wid \<Rightarrow> tid \<Rightarrow> tid \<Rightarrow> tcr \<Rightarrow> tcr" where
  "started_worker b n t w mt sp s = s\<lparr>this_worker := w, has_worker := True, cr_current := mt, has_tc := True,
     wrk := (wrk s)(w := zero_worker\<lparr>main_thread := mt, sched_p2 := sp, w_nr := n, w_tid := t, must_sync := False,
       is_on_sleeping_list := False, w_is_init := True\<rparr>),
     thr := (thr s)(mt := zero_thread\<lparr>tc_name := the (wb_main_name b), tc_dom := this_domain s, tc_cr := True, refcnt := 0,
         tc_flags := {TF_RUNNING}, worker_nr := n\<rparr>,
       sp := zero_thread\<lparr>tc_name := the (wb_sched_name b), tc_cr := True, refcnt := 0, tc_flags := {}, worker_nr := n\<rparr>),
     evl := (evl s)(Waiters (Exit_wq mt) := [], Pending mt := [], Waiters (Exit_wq sp) := [], Pending sp := []),
     locks := (locks s)(L_list (Waiters (Exit_wq mt)) := None, L_running mt := Some w, L_list (Pending mt) := None,
       L_list (Waiters (Exit_wq sp)) := None, L_running sp := None, L_list (Pending sp) := None),
     syslog := syslog s @ [Gettid]\<rparr>"

lemma asprintf_or:
  assumes "wb_main_name b = Some x" and "wb_sched_name b = Some y"
  shows "asprintf_rv (wb_main_name b) OR asprintf_rv (wb_sched_name b) \<noteq> -1"
proof -
  have "0 \<le> asprintf_rv (wb_main_name b) OR asprintf_rv (wb_sched_name b)" using assms by (simp add: asprintf_rv_def)
  then show ?thesis by linarith
qed

lemma worker_initialize_eq:
  assumes "wb_mem b = Some (w, mt, sp)" and "wb_main_name b = Some x" and "wb_sched_name b = Some y" and "wb_sched_cr b" and "mt \<noteq> sp"
  shows "\<exists>rv. u_worker_initialize b n s = Inr (rv, started_worker b n (answer s 0) w mt sp s)"
proof -
  note a = asprintf_or [OF assms(2,3)]
  show ?thesis
    using a assms unfolding u_worker_initialize_def
    by (simp add: init_main_thread_def init_sched_p2_def op_defs upd_defs tc_waitq_init_def event_list_init_def Let_def answers [of s])
      (rule tcr.equality, simp_all add: started_worker_def fun_eq_iff)
qed

text \<open>C35: A pthread without a worker becomes one in \<^verbatim>\<open>tc_worker_init\<close>, if there is memory and the kernel accepts its CPU: that is an available one
  chosen by its number, a different one for each of as many consecutive numbers as there are CPUs; it runs as the main thread of its worker,
  with that thread's lock; its scheduler can be switched to; the worker is on the list of its domain, awake and at its priority; the invariant of
  the sleeping workers and the queue invariant still hold, and a second call does nothing. Without memory the process dies on
  the null pointer, inside the lock of the list.\<close>

theorem worker_init_correct:
  assumes "\<not> has_worker s" and "0 < CPU_COUNT cs" and "cs = available_cpus (cur_domain s)" and "0 \<le> i" and "i = pthread_counter s"
    and "answer s 0 = 0" and "free_lock s (L_workers (this_domain s))"
    and "wb_main_name b = Some x" and "wb_sched_name b = Some y" and "wb_sched_cr b"
    and "wf_ev s" and "sync_inv (this_domain s) s" and "fresh_worker w mt sp s"
  shows "(wb_mem b = Some (w, mt, sp) \<longrightarrow> (\<exists>s' ci. tc_worker_init b s = Inr ((), s') \<and>
      ci = cpus cs ! nat (i mod CPU_COUNT cs) \<and> CPU_ISSET ci cs \<and> (\<forall>j. i < j \<and> j - i < CPU_COUNT cs \<longrightarrow> ci \<noteq> cpus cs ! nat (j mod CPU_COUNT cs)) \<and>
      syslog s' = syslog s @ [Setaffinity ci, Gettid, Setpriority (answer s 1) (nice_level (cur_domain s))] \<and>
      pthread_counter s' = i + 1 \<and> has_worker s' \<and> this_worker s' = w \<and> w_nr (cur_worker s') = i \<and> tc_current s' = mt \<and>
      TF_RUNNING \<in> tc_flags (thr s' mt) \<and> holds s' (L_running mt) \<and> tc_cr (thr s' sp) \<and> free_lock s' (L_running sp) \<and> sched_p2 (cur_worker s') = sp \<and>
      worker_list (cur_domain s') = w # worker_list (cur_domain s) \<and> awake s' w \<and> sync_inv (this_domain s) s' \<and> wf_ev s' \<and>
      tc_worker_init b' s' = Inr ((), s'))) \<and>
    (wb_mem b = None \<longrightarrow> tc_worker_init b s = Inl (Null_deref ''worker''))"
proof -
  define ci where "ci = cpus cs ! nat (i mod CPU_COUNT cs)"
  let ?s0 = "s\<lparr>pthread_counter := i + 1, syslog := syslog s @ [Setaffinity ci]\<rparr>" and ?d = "this_domain s"
  have c: "cpu_search cs (i mod CPU_COUNT cs) 0 [0..<CPU_SETSIZE] = Some ci" "CPU_ISSET ci cs"
    using cpu_found [OF assms(4,2)] by (simp_all add: ci_def)
  have a: "answer ?s0 0 = answer s 1" "sysres s (length (syslog s)) = 0" using assms(6) by (simp_all add: answer_def)
  have 1: "tc_worker_init b s = block [thn (u_worker_initialize b i) (ret ()), rdm (\<lambda>s. spin_lock (L_workers (this_domain s))),
      ifm has_worker (mdf (\<lambda>s. upd_this_dom (worker_list_update (Cons (this_worker s))) s)) (throw (Null_deref ''worker'')),
      rdm (\<lambda>s. spin_unlock (L_workers (this_domain s))),
      rdm (\<lambda>s. sys_ignore (Setpriority (w_tid (cur_worker s)) (nice_level (cur_domain s))))] ?s0"
    using assms(1,2,3,5) c(1) a(2) by (simp add: tc_worker_init_def op_basic_defs sys_call_def Let_def)
  have "tc_worker_init b s = Inl (Null_deref ''worker'')" if "wb_mem b = None"
    unfolding 1 using assms(1,7) that by (simp add: u_worker_initialize_def op_defs free_lock_def)
  moreover have "\<exists>s'. tc_worker_init b s = Inr ((), s') \<and>
      syslog s' = syslog s @ [Setaffinity ci, Gettid, Setpriority (answer s 1) (nice_level (cur_domain s))] \<and>
      pthread_counter s' = i + 1 \<and> has_worker s' \<and> this_worker s' = w \<and> w_nr (cur_worker s') = i \<and> tc_current s' = mt \<and>
      TF_RUNNING \<in> tc_flags (thr s' mt) \<and> holds s' (L_running mt) \<and> tc_cr (thr s' sp) \<and> free_lock s' (L_running sp) \<and> sched_p2 (cur_worker s') = sp \<and>
      worker_list (cur_domain s') = w # worker_list (cur_domain s) \<and> awake s' w \<and> sync_inv (this_domain s) s' \<and> wf_ev s' \<and>
      tc_worker_init b' s' = Inr ((), s')" if m: "wb_mem b = Some (w, mt, sp)"
  proof -
    have ne: "mt \<noteq> sp" and fw: "w \<notin> set (worker_list (cur_domain s))" using assms(13) by (simp_all add: fresh_worker_def)
    define s1 where "s1 = started_worker b i (answer s 1) w mt sp ?s0"
    obtain rv where 2: "u_worker_initialize b i ?s0 = Inr (rv, s1)"
      using worker_initialize_eq [OF m assms(8-10) ne, of i ?s0] unfolding a(1) s1_def by blast
    let ?s' = "s1\<lparr>doms := (doms s)(?d := worker_list_update (Cons w) (cur_domain s)),
      syslog := syslog s @ [Setaffinity ci, Gettid, Setpriority (answer s 1) (nice_level (cur_domain s))]\<rparr>"
    have f: "doms s1 = doms s" "this_domain s1 = ?d" "this_worker s1 = w" "has_worker s1" "locks s1 (L_workers ?d) = None"
      "syslog s1 = syslog s @ [Setaffinity ci, Gettid]" "w_tid (wrk s1 w) = answer s 1"
      using assms(7) by (simp_all add: s1_def started_worker_def free_lock_def)
    have 3: "tc_worker_init b s = Inr ((), ?s')"
      unfolding 1 by (simp add: op_defs upd_this_dom_def upd_defs 2 f) (rule tcr.equality, simp_all add: f fun_upd_idem)
    have l: "evl ?s' = evl s" using assms(13) by (auto simp: fresh_worker_def s1_def started_worker_def)
    have rc: "refcnt (thr s t) = 0" if "t = mt \<or> t = sp" for t
      using that assms(11,13) by (auto simp: wf_ev_def fresh_worker_def)
    have "wf_ev ?s'" using assms(11) l rc by (subst wf_ev_cong [of _ s]) (auto simp: s1_def started_worker_def)
    moreover have "sync_inv ?d ?s'"
    proof -
      have W: "wrk ?s' v = wrk s v" if "v \<in> set (worker_list (cur_domain s))" for v using that fw by (auto simp: s1_def started_worker_def)
      have n: "\<not> must_sync (wrk ?s' w)" "\<not> is_on_sleeping_list (wrk ?s' w)" by (simp_all add: s1_def started_worker_def)
      have "syncing ?d ?s' = syncing ?d s" using W n by (auto simp: syncing_def)
      moreover have "locks ?s' (L_sync ?d) = locks s (L_sync ?d)" "freed ?s' = freed s" by (simp_all add: s1_def started_worker_def)
      ultimately show ?thesis using assms(12) W n fw unfolding sync_inv_def by auto
    qed
    moreover have "tc_worker_init b' ?s' = Inr ((), ?s')" using f(4) by (simp add: tc_worker_init_def whn_def)
    ultimately show ?thesis
      by (intro exI [of _ ?s'] conjI 3) (simp_all add: s1_def started_worker_def tc_current_def holds_def free_lock_def awake_def ne)
  qed
  ultimately show ?thesis using c(2) cpus_differ [OF assms(4), of _ cs] unfolding ci_def by blast
qed

theorem worker_init_correct_witness:
  "\<exists>s'. tc_worker_init \<lparr>wb_mem = Some (4, 8, 9), wb_main_name = Some ''m'', wb_sched_name = Some ''s'', wb_main_cr = True, wb_sched_cr = True\<rparr>
      (process_image\<lparr>doms := (\<lambda>_. zero_domain\<lparr>available_cpus := [False, True, True]\<rparr>), pthread_counter := 3\<rparr>) = Inr ((), s') \<and>
    syslog s' = [Setaffinity 2, Gettid, Setpriority 0 0] \<and> tc_current s' = 8 \<and> awake s' 4"
proof -
  let ?b = "\<lparr>wb_mem = Some (4, 8, 9), wb_main_name = Some ''m'', wb_sched_name = Some ''s'', wb_main_cr = True, wb_sched_cr = True\<rparr>"
  let ?s = "process_image\<lparr>doms := (\<lambda>_. zero_domain\<lparr>available_cpus := [False, True, True]\<rparr>), pthread_counter := 3\<rparr>"
  have c: "CPU_COUNT [False, True, True] = 2" by (simp add: CPU_COUNT_def cpus_two)
  have "wf_ev ?s" "sync_inv 0 ?s" "fresh_worker 4 8 9 ?s"
    by (simp_all add: wf_ev_def refs_def sync_inv_def syncing_def fresh_worker_def)
  then show ?thesis
    using worker_init_correct [of ?s "[False, True, True]" 3 ?b "''m''" "''s''" 4 8 9 ?b]
    by (auto simp: c free_lock_def answer_def cpus_two)
qed

text \<open>\<^verbatim>\<open>tc_run\<close> joins the pthreads it counts with its argument, not with the number of workers: none when the argument is not positive.\<close>

lemma tc_run_no_join:
  assumes "n \<le> 1"
  shows "tc_run mem b tmem cr_ok wb e name n =
    bnd (lift (tc_run_start mem b tmem cr_ok name n)) (\<lambda>_. call_tc_main wb e)"
  using assms by (auto simp: tc_run_def op_defs fun_eq_iff split: sum.splits prod.splits)

end
