(* ===== verification/Spinlock.thy ===== *)
theory Spinlock
  imports Prelude
begin

text \<open>
  Spin locks (\<^verbatim>\<open>spinlock.h\<close>, \<^verbatim>\<open>spinlock.c\<close>) and atomic counters (\<^verbatim>\<open>atomic.h\<close>) at the level of the words in memory, for little-endian machines
  with 64 bits: the marker of a lock holds the thread id in its low and the CPU in its high half. Taking a lock is modelled step by step,
  one step for every access to the shared words, so that any number of pthreads may be anywhere in the code; the rest of the
  development uses the abstraction proved here, a lock that is free or held by one worker.

  Not modelled: how long a pthread sleeps between two attempts, and the warnings it writes to syslog.
\<close>

unbundle bit_operations_syntax

section \<open>Atomic counters\<close>

type_synonym atomic_t = "64 word"

definition atomic_read :: "atomic_t \<Rightarrow> 64 word" where
  "atomic_read v = v"

definition atomic_set :: "64 word \<Rightarrow> atomic_t" where
  "atomic_set i = i"

text \<open>Operations that return a value give it with the new counter.\<close>

definition atomic_add_return :: "64 word \<Rightarrow> atomic_t \<Rightarrow> 64 word \<times> atomic_t" where
  "atomic_add_return i v = (v + i, v + i)"

definition atomic_sub_return :: "64 word \<Rightarrow> atomic_t \<Rightarrow> 64 word \<times> atomic_t" where
  "atomic_sub_return i v = (v - i, v - i)"

definition atomic_set_if_eq :: "64 word \<Rightarrow> 64 word \<Rightarrow> atomic_t \<Rightarrow> 64 word \<times> atomic_t" where
  "atomic_set_if_eq new_val eq_val v = (if v = eq_val then (1, new_val) else (0, v))"

definition atomic_swap :: "atomic_t \<Rightarrow> 64 word \<Rightarrow> 64 word \<times> atomic_t" where
  "atomic_swap v i = (v, i)"

text \<open>\<^verbatim>\<open>1 << bnr\<close> has the type \<^verbatim>\<open>int\<close> and is widened with its sign.\<close>

definition int_bit :: "nat \<Rightarrow> 64 word" where
  "int_bit bnr = scast (push_bit bnr 1 :: 32 word)"

definition atomic_set_bit :: "nat \<Rightarrow> atomic_t \<Rightarrow> atomic_t" where
  "atomic_set_bit bnr v = v OR int_bit bnr"

definition atomic_clear_bit :: "nat \<Rightarrow> atomic_t \<Rightarrow> atomic_t" where
  "atomic_clear_bit bnr v = v AND NOT (int_bit bnr)"

definition atomic_test_bit :: "nat \<Rightarrow> atomic_t \<Rightarrow> 64 word" where
  "atomic_test_bit bnr v = v AND int_bit bnr"

definition atomic_inc :: "atomic_t \<Rightarrow> 64 word \<times> atomic_t" where
  "atomic_inc v = atomic_add_return 1 v"

definition atomic_dec :: "atomic_t \<Rightarrow> 64 word \<times> atomic_t" where
  "atomic_dec v = atomic_sub_return 1 v"

section \<open>The lock and its users\<close>

record spinlock_t =
  lock_m :: "64 word"
  spinners :: "32 word"
  l_file :: "string option"
  l_line :: int

definition m_tid :: "64 word \<Rightarrow> 32 word" where
  "m_tid m = ucast m"

definition m_cpu :: "64 word \<Rightarrow> 32 word" where
  "m_cpu m = ucast (drop_bit 32 m)"

definition spin_lock_init :: "spinlock_t \<Rightarrow> spinlock_t" where
  "spin_lock_init l = l\<lparr>l_line := 0, spinners := 0, l_file := None, lock_m := 0\<rparr>"

definition spin_unlock_plain :: "spinlock_t \<Rightarrow> spinlock_t" where
  "spin_unlock_plain l = l\<lparr>lock_m := 0\<rparr>"

text \<open>The old lock word is returned as an \<^verbatim>\<open>int\<close>, which keeps its low half.\<close>

definition spin_trylock_plain :: "64 word \<Rightarrow> spinlock_t \<Rightarrow> 32 word \<times> spinlock_t" where
  "spin_trylock_plain me l = (ucast (lock_m l), if lock_m l = 0 then l\<lparr>lock_m := me\<rparr> else l)"

definition spin_trylock :: "64 word \<Rightarrow> spinlock_t \<Rightarrow> bool \<times> spinlock_t" where
  "spin_trylock me l = (case spin_trylock_plain me l of (r, l') \<Rightarrow> (r = 0, l'))"

definition u_must_hold :: "64 word \<Rightarrow> spinlock_t \<Rightarrow> bool" where
  "u_must_hold me l \<longleftrightarrow> lock_m l = me"

text \<open>
  Where a pthread is: outside; before the attempt of \<^verbatim>\<open>_spin_lock\<close> and that of \<^verbatim>\<open>__spin_lock\<close>; announcing itself; before the dirty read, the attempt and
  the checks of the loop; before it goes to sleep and when it wakes up; leaving the loop; noting file and line; inside; and before the release.
\<close>

datatype pc = Outside | Try_fast | Try_slow | Announce | Peek | Retry | Check | Doze | Wake | Withdraw | Note_holder | Inside | Release | Aborted

record spinner =
  at :: pc
  spins :: "32 word"
  current_owner :: "64 word"

record lock_state =
  the_lock :: spinlock_t
  users :: "nat \<Rightarrow> spinner"

definition spins_per_delay :: "32 word" where "spins_per_delay = 100"

definition goto :: "nat \<Rightarrow> pc \<Rightarrow> lock_state \<Rightarrow> lock_state" where
  "goto p a s = s\<lparr>users := (users s)(p := (users s p)\<lparr>at := a\<rparr>)\<rparr>"

definition set_spins :: "nat \<Rightarrow> 32 word \<Rightarrow> lock_state \<Rightarrow> lock_state" where
  "set_spins p n s = s\<lparr>users := (users s)(p := (users s p)\<lparr>spins := n\<rparr>)\<rparr>"

definition set_owner :: "nat \<Rightarrow> 64 word \<Rightarrow> lock_state \<Rightarrow> lock_state" where
  "set_owner p m s = s\<lparr>users := (users s)(p := (users s p)\<lparr>current_owner := m\<rparr>)\<rparr>"

definition set_lock :: "spinlock_t \<Rightarrow> lock_state \<Rightarrow> lock_state" where
  "set_lock l s = s\<lparr>the_lock := l\<rparr>"

section \<open>The steps\<close>

text \<open>\<open>me p\<close> is \<^verbatim>\<open>this_spinlock_owner.m\<close> of pthread \<open>p\<close>.\<close>

definition u_spin_lock_begin :: "(nat \<Rightarrow> 64 word) \<Rightarrow> nat \<Rightarrow> lock_state \<Rightarrow> lock_state" where
  "u_spin_lock_begin me p s = (case spin_trylock_plain (me p) (the_lock s) of (r, l) \<Rightarrow>
     goto p (if r \<noteq> 0 then Try_slow else Note_holder) (set_lock l s))"

definition uu_spin_lock_begin :: "(nat \<Rightarrow> 64 word) \<Rightarrow> nat \<Rightarrow> lock_state \<Rightarrow> lock_state" where
  "uu_spin_lock_begin me p s = (case spin_trylock_plain (me p) (the_lock s) of (r, l) \<Rightarrow>
     goto p (if r = 0 then Note_holder else Announce) (set_lock l s))"

definition uu_spin_lock_announce :: "(nat \<Rightarrow> 64 word) \<Rightarrow> nat \<Rightarrow> lock_state \<Rightarrow> lock_state" where
  "uu_spin_lock_announce me p s = (let sp = spinners (the_lock s) in
     goto p (if me p \<noteq> 0 then Peek else Aborted)
       (set_spins p (if min sp 10 \<noteq> 0 then spins_per_delay else 0) (set_lock ((the_lock s)\<lparr>spinners := sp + 1\<rparr>) s)))"

definition uu_spin_lock_peek :: "nat \<Rightarrow> lock_state \<Rightarrow> lock_state" where
  "uu_spin_lock_peek p s = (let m = lock_m (the_lock s) in goto p (if m = 0 then Retry else Check) (set_owner p m s))"

definition uu_spin_lock_retry :: "(nat \<Rightarrow> 64 word) \<Rightarrow> nat \<Rightarrow> lock_state \<Rightarrow> lock_state" where
  "uu_spin_lock_retry me p s = (case spin_trylock_plain (me p) (the_lock s) of (r, l) \<Rightarrow>
     goto p (if scast r = (0 :: 64 word) then Withdraw else Check) (set_owner p (scast r) (set_lock l s)))"

definition uu_spin_lock_check :: "(nat \<Rightarrow> 64 word) \<Rightarrow> nat \<Rightarrow> lock_state \<Rightarrow> lock_state" where
  "uu_spin_lock_check me p s = (let u = users s p in
     if m_tid (current_owner u) = m_tid (me p) then goto p Aborted s
     else if spins u > spins_per_delay \<or> m_cpu (current_owner u) = m_cpu (me p) then goto p Doze s
     else goto p Peek (set_spins p (spins u + 1) s))"

definition uu_spin_lock_doze :: "nat \<Rightarrow> lock_state \<Rightarrow> lock_state" where
  "uu_spin_lock_doze p s = goto p Wake (set_lock ((the_lock s)\<lparr>spinners := spinners (the_lock s) - 1\<rparr>) s)"

definition uu_spin_lock_wake :: "nat \<Rightarrow> lock_state \<Rightarrow> lock_state" where
  "uu_spin_lock_wake p s = (let sp = spinners (the_lock s) in
     goto p Peek (set_spins p ((if sp \<noteq> 0 then spins_per_delay * sp div 10 else 0) + 1)
       (set_lock ((the_lock s)\<lparr>spinners := sp + 1\<rparr>) s)))"

definition uu_spin_lock_end :: "nat \<Rightarrow> lock_state \<Rightarrow> lock_state" where
  "uu_spin_lock_end p s = goto p Note_holder (set_lock ((the_lock s)\<lparr>spinners := spinners (the_lock s) - 1\<rparr>) s)"

definition u_spin_lock_end :: "string \<Rightarrow> int \<Rightarrow> nat \<Rightarrow> lock_state \<Rightarrow> lock_state" where
  "u_spin_lock_end file line p s = goto p Inside (set_lock ((the_lock s)\<lparr>l_file := Some file, l_line := line\<rparr>) s)"

definition spin_unlock_begin :: "nat \<Rightarrow> lock_state \<Rightarrow> lock_state" where
  "spin_unlock_begin p s = goto p Release (set_lock ((the_lock s)\<lparr>l_file := Some ''(none)'', l_line := 0\<rparr>) s)"

definition spin_unlock_end :: "nat \<Rightarrow> lock_state \<Rightarrow> lock_state" where
  "spin_unlock_end p s = goto p Outside (set_lock (spin_unlock_plain (the_lock s)) s)"

text \<open>The next step of a pthread; outside it begins to lock, inside to unlock. \<open>f\<close> and \<open>n\<close> are file and line of the caller.\<close>

definition spin_next :: "(nat \<Rightarrow> 64 word) \<Rightarrow> string \<Rightarrow> int \<Rightarrow> nat \<Rightarrow> lock_state \<Rightarrow> lock_state" where
  "spin_next me f n p s = (case at (users s p) of
      Outside \<Rightarrow> goto p Try_fast s
    | Try_fast \<Rightarrow> u_spin_lock_begin me p s
    | Try_slow \<Rightarrow> uu_spin_lock_begin me p s
    | Announce \<Rightarrow> uu_spin_lock_announce me p s
    | Peek \<Rightarrow> uu_spin_lock_peek p s
    | Retry \<Rightarrow> uu_spin_lock_retry me p s
    | Check \<Rightarrow> uu_spin_lock_check me p s
    | Doze \<Rightarrow> uu_spin_lock_doze p s
    | Wake \<Rightarrow> uu_spin_lock_wake p s
    | Withdraw \<Rightarrow> uu_spin_lock_end p s
    | Note_holder \<Rightarrow> u_spin_lock_end f n p s
    | Inside \<Rightarrow> spin_unlock_begin p s
    | Release \<Rightarrow> spin_unlock_end p s
    | Aborted \<Rightarrow> s)"

inductive spin_step :: "(nat \<Rightarrow> 64 word) \<Rightarrow> nat set \<Rightarrow> lock_state \<Rightarrow> lock_state \<Rightarrow> bool" for me P where
  step: "p \<in> P \<Longrightarrow> t = spin_next me f n p s \<Longrightarrow> spin_step me P s t"

inductive_cases spin_stepE: "spin_step me P s t"

lemmas spin_defs = goto_def set_spins_def set_owner_def set_lock_def u_spin_lock_begin_def uu_spin_lock_begin_def
  uu_spin_lock_announce_def uu_spin_lock_peek_def uu_spin_lock_retry_def uu_spin_lock_check_def uu_spin_lock_doze_def
  uu_spin_lock_wake_def uu_spin_lock_end_def u_spin_lock_end_def spin_unlock_begin_def spin_unlock_end_def
  spin_trylock_plain_def spin_unlock_plain_def

section \<open>The invariant\<close>

text \<open>Every pthread has a thread id of its own, which is not 0.\<close>

definition markers_ok :: "(nat \<Rightarrow> 64 word) \<Rightarrow> nat set \<Rightarrow> bool" where
  "markers_ok me P \<longleftrightarrow> finite P \<and> (\<forall>p \<in> P. m_tid (me p) \<noteq> 0) \<and> inj_on (\<lambda>p. m_tid (me p)) P"

definition holding :: "pc \<Rightarrow> bool" where
  "holding a \<longleftrightarrow> a \<in> {Withdraw, Note_holder, Inside, Release}"

definition counted :: "pc \<Rightarrow> bool" where
  "counted a \<longleftrightarrow> a \<in> {Peek, Retry, Check, Doze, Withdraw}"

definition spin_idle :: "(nat \<Rightarrow> 64 word) \<Rightarrow> nat set \<Rightarrow> lock_state \<Rightarrow> bool" where
  "spin_idle me P s \<longleftrightarrow> markers_ok me P \<and> lock_m (the_lock s) = 0 \<and> spinners (the_lock s) = 0 \<and> (\<forall>p. at (users s p) = Outside)"

definition spin_inv :: "(nat \<Rightarrow> 64 word) \<Rightarrow> nat set \<Rightarrow> lock_state \<Rightarrow> bool" where
  "spin_inv me P s \<longleftrightarrow> markers_ok me P \<and>
     (\<forall>p. holding (at (users s p)) \<longrightarrow> lock_m (the_lock s) = me p) \<and>
     (lock_m (the_lock s) \<noteq> 0 \<longrightarrow> (\<exists>p. holding (at (users s p)))) \<and>
     (\<forall>p. at (users s p) = Check \<longrightarrow> m_tid (current_owner (users s p)) \<noteq> m_tid (me p)) \<and>
     (\<forall>p. at (users s p) \<noteq> Aborted) \<and> (\<forall>p. p \<notin> P \<longrightarrow> at (users s p) = Outside) \<and>
     spinners (the_lock s) = of_nat (card {p \<in> P. counted (at (users s p))})"

lemma spin_invD:
  assumes "spin_inv me P s"
  shows "markers_ok me P" "finite P" "\<And>p. holding (at (users s p)) \<Longrightarrow> lock_m (the_lock s) = me p"
    "lock_m (the_lock s) \<noteq> 0 \<Longrightarrow> \<exists>p. holding (at (users s p))"
    "\<And>p. at (users s p) = Check \<Longrightarrow> m_tid (current_owner (users s p)) \<noteq> m_tid (me p)"
    "\<And>p. at (users s p) \<noteq> Aborted" "\<And>p. p \<notin> P \<Longrightarrow> at (users s p) = Outside"
    "spinners (the_lock s) = of_nat (card {p \<in> P. counted (at (users s p))})"
  using assms unfolding spin_inv_def markers_ok_def by blast+

lemma holder_in:
  assumes "spin_inv me P s" and "holding (at (users s p))"
  shows "p \<in> P"
  using spin_invD(7) [OF assms(1), of p] assms(2) by (cases "p \<in> P") (auto simp: holding_def)

lemma markers_okD:
  assumes "markers_ok me P" and "p \<in> P"
  shows "m_tid (me p) \<noteq> 0" and "me p \<noteq> 0" and "q \<in> P \<Longrightarrow> m_tid (me p) = m_tid (me q) \<Longrightarrow> p = q" and "q \<in> P \<Longrightarrow> me p = me q \<Longrightarrow> p = q"
proof -
  show n: "m_tid (me p) \<noteq> 0" and i: "q \<in> P \<Longrightarrow> m_tid (me p) = m_tid (me q) \<Longrightarrow> p = q" for q
    using assms by (auto simp: markers_ok_def dest: inj_onD)
  show "me p \<noteq> 0" using n by (auto simp: m_tid_def)
  show "q \<in> P \<Longrightarrow> me p = me q \<Longrightarrow> p = q" using i [of q] by simp
qed

lemma one_holder:
  assumes "spin_inv me P s" and "holding (at (users s p))" and "holding (at (users s q))"
  shows "p = q"
  using spin_invD(3) [OF assms(1)] assms(2,3) holder_in [OF assms(1)] markers_okD(4) [OF spin_invD(1) [OF assms(1)]] by metis

lemma holder_marker: "spin_inv me P s \<Longrightarrow> lock_m (the_lock s) \<noteq> 0 \<Longrightarrow> \<exists>q \<in> P. holding (at (users s q)) \<and> lock_m (the_lock s) = me q"
  using spin_invD(3,4) holder_in by metis

text \<open>A pthread that does not hold the lock meets the marker of another one.\<close>

lemma other_owner:
  assumes "spin_inv me P s" and "\<not> holding (at (users s p))" and "lock_m (the_lock s) \<noteq> 0" and "p \<in> P"
  shows "m_tid (lock_m (the_lock s)) \<noteq> m_tid (me p)" and "m_tid (lock_m (the_lock s)) \<noteq> 0"
  using holder_marker [OF assms(1,3)] assms(2,4) markers_okD [OF spin_invD(1) [OF assms(1)]] by metis+

lemma counted_update:
  assumes "finite P" and "p \<in> P"
  shows "(of_nat (card {q \<in> P. counted (at (((users s)(p := u)) q))}) :: 32 word) =
    of_nat (card {q \<in> P. counted (at (users s q))}) + of_bool (counted (at u)) - of_bool (counted (at (users s p)))"
proof -
  let ?C = "{q \<in> P. counted (at (users s q))}" and ?D = "{q \<in> P. counted (at (((users s)(p := u)) q))}"
  have f: "finite ?C" "finite ?D" using assms(1) by simp_all
  have D: "?D = (if counted (at u) then insert p (?C - {p}) else ?C - {p})" using assms(2) by auto
  have "card ?C = card (?C - {p}) + of_bool (counted (at (users s p)))"
    using assms(2) card.remove [OF f(1), of p] by (cases "counted (at (users s p))") simp_all
  moreover have "card ?D = card (?C - {p}) + of_bool (counted (at u))" unfolding D using f(1) by (simp add: card.insert_remove)
  ultimately show ?thesis by simp
qed

text \<open>A step changes the state of one pthread and the lock; it takes the free lock, releases the lock it holds, or does neither.\<close>

lemma spin_invI:
  assumes inv: "spin_inv me P s" and p: "p \<in> P" and u: "users t = (users s)(p := u)" and a: "at u \<noteq> Aborted"
    and c: "at u = Check \<Longrightarrow> m_tid (current_owner u) \<noteq> m_tid (me p)"
    and n: "spinners (the_lock t) = spinners (the_lock s) + of_bool (counted (at u)) - of_bool (counted (at (users s p)))"
    and l: "lock_m (the_lock t) = lock_m (the_lock s) \<and> (holding (at u) \<longleftrightarrow> holding (at (users s p))) \<or>
      lock_m (the_lock s) = 0 \<and> lock_m (the_lock t) = me p \<and> holding (at u) \<or>
      holding (at (users s p)) \<and> lock_m (the_lock t) = 0 \<and> \<not> holding (at u)"
  shows "spin_inv me P t"
proof -
  note D = spin_invD [OF inv] and M = markers_okD [OF spin_invD(1) [OF inv]]
  have nz: "\<not> holding (at (users s q))" if "lock_m (the_lock s) = 0" for q using D(3) [of q] M(2) [of q] holder_in [OF inv] that by auto
  have 1: "lock_m (the_lock t) = me q" if "holding (at (users t q))" for q
    using that l u D(3) one_holder [OF inv] nz by (auto split: if_splits)
  have 2: "\<exists>q. holding (at (users t q))" if "lock_m (the_lock t) \<noteq> 0"
    using that l u D(4) by (metis fun_upd_apply)
  have "spinners (the_lock t) = of_nat (card {q \<in> P. counted (at (users t q))})"
    unfolding u counted_update [OF D(2) p] n D(8) ..
  then show ?thesis
    unfolding spin_inv_def using D(1,2,5,6,7) 1 2 a c p by (auto simp: u)
qed

lemma trylock_old: "spin_inv me P s \<Longrightarrow> p \<in> P \<Longrightarrow> \<not> holding (at (users s p)) \<Longrightarrow> (ucast (lock_m (the_lock s)) :: 32 word) = 0 \<longleftrightarrow> lock_m (the_lock s) = 0"
  using other_owner(2) [of me P s p] by (auto simp: m_tid_def)

lemma tid_of_int: "m_tid (scast (r :: 32 word)) = r"
  unfolding m_tid_def by (rule bit_word_eqI) (auto simp: bit_simps)

lemma scast_zero: "(scast r :: 64 word) = 0 \<longleftrightarrow> r = 0" for r :: "32 word"
  using tid_of_int [of r] by (auto simp: m_tid_def)

lemma spin_next_effect:
  assumes inv: "spin_inv me P s" and p: "p \<in> P"
  shows "users (spin_next me f n p s) = (users s)(p := users (spin_next me f n p s) p)"
    and "lock_m (the_lock (spin_next me f n p s)) = lock_m (the_lock s) \<and>
        (holding (at (users (spin_next me f n p s) p)) \<longleftrightarrow> holding (at (users s p))) \<or>
      lock_m (the_lock s) = 0 \<and> lock_m (the_lock (spin_next me f n p s)) = me p \<and> holding (at (users (spin_next me f n p s) p)) \<or>
      holding (at (users s p)) \<and> lock_m (the_lock (spin_next me f n p s)) = 0 \<and> \<not> holding (at (users (spin_next me f n p s) p))"
proof -
  show "users (spin_next me f n p s) = (users s)(p := users (spin_next me f n p s) p)"
    by (auto simp: spin_next_def spin_defs Let_def fun_eq_iff split: pc.splits)
  have free: "(ucast (lock_m (the_lock s)) :: 32 word) = 0 \<longleftrightarrow> lock_m (the_lock s) = 0" if "\<not> holding (at (users s p))"
    by (rule trylock_old [OF inv p that])
  then show "lock_m (the_lock (spin_next me f n p s)) = lock_m (the_lock s) \<and>
        (holding (at (users (spin_next me f n p s) p)) \<longleftrightarrow> holding (at (users s p))) \<or>
      lock_m (the_lock s) = 0 \<and> lock_m (the_lock (spin_next me f n p s)) = me p \<and> holding (at (users (spin_next me f n p s) p)) \<or>
      holding (at (users s p)) \<and> lock_m (the_lock (spin_next me f n p s)) = 0 \<and> \<not> holding (at (users (spin_next me f n p s) p))"
    by (auto simp: spin_next_def spin_defs Let_def holding_def scast_zero split: pc.splits)
qed

lemma spin_next_inv:
  assumes inv: "spin_inv me P s" and p: "p \<in> P"
  shows "spin_inv me P (spin_next me f n p s)"
proof -
  note M = markers_okD [OF spin_invD(1) [OF inv] p]
  have own: "at (users s p) = Check \<Longrightarrow> m_tid (current_owner (users s p)) \<noteq> m_tid (me p)" by (rule spin_invD(5) [OF inv])
  have ab: "at (users s p) \<noteq> Aborted" by (rule spin_invD(6) [OF inv])
  have free: "(ucast (lock_m (the_lock s)) :: 32 word) = 0 \<longleftrightarrow> lock_m (the_lock s) = 0" if "\<not> holding (at (users s p))"
    by (rule trylock_old [OF inv p that])
  have other: "m_tid (lock_m (the_lock s)) \<noteq> m_tid (me p)" if "\<not> holding (at (users s p))" "lock_m (the_lock s) \<noteq> 0"
    by (rule other_owner(1) [OF inv that p])
  let ?t = "spin_next me f n p s"
  show ?thesis
  proof (rule spin_invI [OF inv p spin_next_effect(1) [OF inv p] _ _ _ spin_next_effect(2) [OF inv p]])
    show "at (users ?t p) \<noteq> Aborted"
      using own ab M(2) by (auto simp: spin_next_def spin_defs Let_def split: pc.splits)
    show "at (users ?t p) = Check \<Longrightarrow> m_tid (current_owner (users ?t p)) \<noteq> m_tid (me p)"
      using own other free tid_of_int by (auto simp: spin_next_def spin_defs Let_def holding_def m_tid_def split: pc.splits if_splits)
    show "spinners (the_lock ?t) = spinners (the_lock s) + of_bool (counted (at (users ?t p))) - of_bool (counted (at (users s p)))"
      using own M(2) by (auto simp: spin_next_def spin_defs Let_def counted_def split: pc.splits)
  qed
qed

interpretation spin_sys: inv_system "spin_idle me P" "spin_step me P" "spin_inv me P" for me P
proof
  show "spin_idle me P s \<Longrightarrow> spin_inv me P s" for s
    by (auto simp: spin_idle_def spin_inv_def holding_def counted_def)
  show "spin_inv me P s \<Longrightarrow> spin_step me P s t \<Longrightarrow> spin_inv me P t" for s t
    by (auto elim!: spin_stepE intro: spin_next_inv)
qed

section \<open>Properties\<close>

text \<open>C1: However the pthreads interleave in the lock code, at most one is between \<^verbatim>\<open>spin_lock\<close> and \<^verbatim>\<open>spin_unlock\<close>, the lock word is its
  marker, so that \<^verbatim>\<open>__must_hold\<close> holds for it and for nobody else, nobody is ever stopped by the deadlock check, and the number of announced
  spinners is exact (as long as it fits its 32 bits), in particular 0 when nobody is spinning.\<close>

theorem spinlock_exclusive:
  assumes "reach (spin_idle me P) (spin_step me P) s"
  shows "(at (users s p) = Inside \<longrightarrow> u_must_hold (me p) (the_lock s) \<and>
      (\<forall>q \<in> P. q \<noteq> p \<longrightarrow> at (users s q) \<noteq> Inside \<and> \<not> u_must_hold (me q) (the_lock s))) \<and>
    at (users s p) \<noteq> Aborted \<and> spinners (the_lock s) = of_nat (card {q \<in> P. counted (at (users s q))})"
proof -
  have inv: "spin_inv me P s" by (rule spin_sys.reach_inv [OF assms])
  have h: "holding Inside" by (simp add: holding_def)
  show ?thesis
    using spin_invD(3,6,8) [OF inv] one_holder [OF inv] holder_in [OF inv] markers_okD(4) [OF spin_invD(1) [OF inv]] h
    unfolding u_must_hold_def by metis
qed

text \<open>The markers of three pthreads on one CPU and a lock at rest.\<close>

definition three :: "nat \<Rightarrow> 64 word" where
  "three p = of_nat p + 1"

definition at_rest :: lock_state where
  "at_rest = \<lparr>the_lock = \<lparr>lock_m = 0, spinners = 0, l_file = None, l_line = 0\<rparr>,
     users = (\<lambda>_. \<lparr>at = Outside, spins = 0, current_owner = 0\<rparr>)\<rparr>"

lemma tid_three: "m_tid (three 0) = 1" "m_tid (three (Suc 0)) = 2" "m_tid (three 2) = 3"
  by (simp_all add: m_tid_def three_def)

lemma at_rest_idle: "spin_idle three {0, 1, 2} at_rest"
  by (auto simp: spin_idle_def at_rest_def markers_ok_def tid_three inj_on_def)

lemma spin_run:
  assumes "reach (spin_idle me P) (spin_step me P) s" and "set ps \<subseteq> P"
  shows "reach (spin_idle me P) (spin_step me P) (fold (spin_next me f n) ps s)"
  using assms
proof (induction ps arbitrary: s)
  case (Cons p ps)
  then have "reach (spin_idle me P) (spin_step me P) (spin_next me f n p s)" by (auto intro: reach_step spin_step.step [of p])
  then show ?case using Cons by simp
qed simp

theorem spinlock_exclusive_witness:
  "let s = fold (spin_next three ''f'' 7) [0, 0, 1, 1, 1, 1, 1, 0] at_rest in
    at (users s 0) = Inside \<and> at (users s 1) = Check \<and> u_must_hold (three 0) (the_lock s) \<and> at (users s 2) \<noteq> Inside \<and>
    spinners (the_lock s) = 1"
proof -
  let ?s = "fold (spin_next three ''f'' 7) [0, 0, 1, 1, 1, 1, 1, 0] at_rest"
  have r: "reach (spin_idle three {0, 1, 2}) (spin_step three {0, 1, 2}) ?s"
    by (intro spin_run reach_init at_rest_idle) simp
  have "at (users ?s 0) = Inside" "at (users ?s 1) = Check" "spinners (the_lock ?s) = 1"
    by (simp_all add: at_rest_def spin_next_def spin_defs three_def)
  then show ?thesis using spinlock_exclusive [OF r, of 0] by (auto simp: Let_def)
qed

text \<open>
  The lock as the rest of the library sees it: free, or held by one. Taking it and releasing it are single steps; everything else the code
  does is invisible.
\<close>

inductive lock_spec :: "nat option \<Rightarrow> nat option \<Rightarrow> bool" where
  taken: "lock_spec None (Some p)"
| released: "lock_spec (Some p) None"
| invisible: "lock_spec h h"

definition holder :: "nat set \<Rightarrow> lock_state \<Rightarrow> nat option" where
  "holder P s = List.find (\<lambda>p. holding (at (users s p))) (sorted_list_of_set P)"

lemma holder_Some:
  assumes inv: "spin_inv me P s"
  shows "holder P s = Some p \<longleftrightarrow> holding (at (users s p))"
proof -
  let ?l = "sorted_list_of_set P"
  have l: "set ?l = P" using spin_invD(2) [OF inv] by simp
  show ?thesis
  proof
    assume "holder P s = Some p"
    then show "holding (at (users s p))" by (auto simp: holder_def find_Some_iff)
  next
    assume h: "holding (at (users s p))"
    then obtain q where q: "holder P s = Some q"
      using holder_in [OF inv h] l by (cases "holder P s") (auto simp: holder_def find_None_iff)
    then have "holding (at (users s q))" by (auto simp: holder_def find_Some_iff)
    then show "holder P s = Some p" using q one_holder [OF inv h] by simp
  qed
qed

lemma holder_None: "spin_inv me P s \<Longrightarrow> holder P s = None \<longleftrightarrow> lock_m (the_lock s) = 0"
  using holder_Some [of me P s] holder_marker [of me P s] spin_invD(1,3) [of me P s] holder_in [of me P s] markers_okD(2) [of me P]
  by (metis not_Some_eq)

lemma spin_step_spec:
  assumes s: "spin_inv me P s" and st: "spin_step me P s t"
  shows "lock_spec (holder P s) (holder P t)"
proof -
  have t: "spin_inv me P t" by (rule spin_sys.step_inv [OF s st])
  obtain p f n where p: "p \<in> P" "t = spin_next me f n p s" using st by (rule spin_stepE)
  have u: "users t = (users s)(p := users t p)" using spin_next_effect(1) [OF s p(1), of f n] p(2) by simp
  show ?thesis
    using spin_next_effect(2) [OF s p(1), of f n] unfolding p(2) [symmetric]
  proof (elim disjE conjE)
    assume "holding (at (users t p)) \<longleftrightarrow> holding (at (users s p))"
    then have "holding (at (users t q)) \<longleftrightarrow> holding (at (users s q))" for q using u by (cases "q = p") (metis fun_upd_other)+
    then have "holder P t = holder P s" by (simp add: holder_def)
    then show ?thesis by (simp add: invisible)
  next
    assume "lock_m (the_lock s) = 0" "holding (at (users t p))"
    then have "holder P s = None" "holder P t = Some p" using holder_None [OF s] holder_Some [OF t] by simp_all
    then show ?thesis by (simp add: taken)
  next
    assume "holding (at (users s p))" "lock_m (the_lock t) = 0"
    then have "holder P s = Some p" "holder P t = None" using holder_None [OF t] holder_Some [OF s] by simp_all
    then show ?thesis by (simp add: released)
  qed
qed

lemma idle_free:
  assumes "spin_idle me P s"
  shows "holder P s = None"
proof -
  have "spin_inv me P s" by (rule spin_sys.init_inv [OF assms])
  then show ?thesis using holder_None assms by (simp add: spin_idle_def)
qed

interpretation spin_sim: simulation "spin_idle me P" "spin_step me P" "spin_inv me P" "holder P" "\<lambda>h. h = None" lock_spec for me P
  by unfold_locales (erule idle_free, erule (1) spin_step_spec)

text \<open>C28: The code refines the abstract lock: what every reachable state says of the holder is reachable there; every step of every pthread takes a free lock for
  that pthread, or releases a held one, or does not change who holds it; and the lock is free exactly when the lock word is 0.\<close>

theorem spinlock_refines:
  assumes "reach (spin_idle me P) (spin_step me P) s" and "spin_step me P s t"
  shows "reach (\<lambda>h. h = None) lock_spec (holder P s) \<and> lock_spec (holder P s) (holder P t) \<and> (holder P t = None \<longleftrightarrow> lock_m (the_lock t) = 0)"
  using spin_sim.reach_abs [OF assms(1)] spin_sim.steps_abs [OF assms] holder_None [OF spin_sys.step_inv [OF spin_sys.reach_inv [OF assms(1)] assms(2)]]
  by simp

theorem spinlock_refines_witness:
  "lock_spec (holder {0, 1, 2} (spin_next three ''f'' 7 1 at_rest)) (holder {0, 1, 2} (spin_next three ''f'' 7 1 (spin_next three ''f'' 7 1 at_rest)))"
proof -
  have "reach (spin_idle three {0, 1, 2}) (spin_step three {0, 1, 2}) (spin_next three ''f'' 7 1 at_rest)"
    using spin_run [OF reach_init [of "spin_idle three {0, 1, 2}", OF at_rest_idle], of "[1]" "''f''" 7] by simp
  moreover have "spin_step three {0, 1, 2} (spin_next three ''f'' 7 1 at_rest) (spin_next three ''f'' 7 1 (spin_next three ''f'' 7 1 at_rest))"
    by (rule spin_step.step [of 1]) simp_all
  ultimately show ?thesis using spinlock_refines by blast
qed

text \<open>A pthread that takes the lock it holds is stopped with a diagnostic, after an attempt on every path.\<close>

lemma relock_detected:
  assumes "m_tid (me p) \<noteq> 0" and "lock_m (the_lock s) = me p" and "at (users s p) = Try_fast"
  shows "at (users (((spin_next me f n p) ^^ 5) s) p) = Aborted"
proof -
  have "(ucast (me p) :: 32 word) \<noteq> 0" "me p \<noteq> 0" using assms(1) by (auto simp: m_tid_def)
  then show ?thesis
    using assms(2,3) by (simp add: numeral_eq_Suc spin_next_def spin_defs Let_def)
qed

text \<open>Counters of the library are integers elsewhere: that is what the atomic operations compute as long as they do not overflow.\<close>

lemma atomic_add_exact:
  assumes "- (2 ^ 63) \<le> sint v + sint i" and "sint v + sint i < 2 ^ 63"
  shows "sint (fst (atomic_add_return i v)) = sint v + sint i"
  using assms by (simp add: atomic_add_return_def sint_word_ariths signed_take_bit_int_eq_self)

text \<open>Setting bit 31 sets all higher bits, too.\<close>

lemma atomic_set_bit_31: "atomic_set_bit 31 0 = 18446744071562067968"
  by (simp add: atomic_set_bit_def int_bit_def)

end
