(* ===== verification/Parallel.thy ===== *)
theory Parallel
  imports Threads Spinlock
begin

text \<open>
  The parallel statements of \<^verbatim>\<open>threaded_cr.h\<close>: \<^verbatim>\<open>tc_parallel_for\<close>, \<^verbatim>\<open>tc_parallel\<close> with \<^verbatim>\<open>tc_with\<close>, and \<^verbatim>\<open>TC_NO_INTR\<close>.

  The function that every thread of a \<^verbatim>\<open>tc_parallel_for\<close> runs is modelled as the steps between two points where other threads may interfere:
  taking the lock, the test with the increment and the release, and the body. The condition and the increment are parameters; as in C, the increment
  gives a value (for \<^verbatim>\<open>i++\<close> the old one) and the new value of the variable. The lock is the abstract one that theory \<open>Spinlock\<close> shows the code to refine.
\<close>

section \<open>The threads of a parallel loop\<close>

datatype 'v for_pc = Enter | Test | Run 'v | Over

record 'v for_state =
  for_var :: 'v
  for_lock :: "nat option"
  for_at :: "nat \<Rightarrow> 'v for_pc"
  for_done :: "'v list"   \<comment> \<open>the iterations whose body has returned\<close>

definition for_goto :: "nat \<Rightarrow> 'v for_pc \<Rightarrow> 'v for_state \<Rightarrow> 'v for_state" where
  "for_goto p a s = s\<lparr>for_at := (for_at s)(p := a)\<rparr>"

text \<open>\<open>None\<close>: the thread spins, or has returned.\<close>

definition for_func :: "('v \<Rightarrow> bool) \<Rightarrow> ('v \<Rightarrow> 'v \<times> 'v) \<Rightarrow> nat \<Rightarrow> 'v for_state \<Rightarrow> 'v for_state option" where
  "for_func cond incr p s = (case for_at s p of
      Enter \<Rightarrow> if for_lock s = None then Some (for_goto p Test (s\<lparr>for_lock := Some p\<rparr>)) else None
    | Test \<Rightarrow> Some (if cond (for_var s)
        then (case incr (for_var s) of (i, v) \<Rightarrow> for_goto p (Run i) (s\<lparr>for_var := v, for_lock := None\<rparr>))
        else for_goto p Over (s\<lparr>for_lock := None\<rparr>))
    | Run i \<Rightarrow> Some (for_goto p Enter (s\<lparr>for_done := for_done s @ [i]\<rparr>))
    | Over \<Rightarrow> None)"

inductive for_step :: "('v \<Rightarrow> bool) \<Rightarrow> ('v \<Rightarrow> 'v \<times> 'v) \<Rightarrow> nat set \<Rightarrow> 'v for_state \<Rightarrow> 'v for_state \<Rightarrow> bool" for cond incr P where
  step: "p \<in> P \<Longrightarrow> for_func cond incr p s = Some t \<Longrightarrow> for_step cond incr P s t"

inductive_cases for_stepE: "for_step cond incr P s t"

text \<open>After \<^verbatim>\<open>spin_lock_init\<close> and \<open>INIT_ST\<close>.\<close>

definition for_start :: "'v \<Rightarrow> 'v for_state" where
  "for_start v = \<lparr>for_var = v, for_lock = None, for_at = (\<lambda>_. Enter), for_done = []\<rparr>"

section \<open>The statements\<close>

text \<open>The rest of \<^verbatim>\<open>tc_parallel_for\<close>: a pool with a thread for every worker, and the wait for it, whose result is not looked at.\<close>

definition tc_parallel_for ::
  "nat \<Rightarrow> (int \<Rightarrow> (tid \<times> eid) option) \<Rightarrow> (int \<Rightarrow> bool) \<Rightarrow> (int \<Rightarrow> string option) \<Rightarrow> nat \<Rightarrow> nat \<Rightarrow> nat \<Rightarrow> eid \<Rightarrow> nat \<Rightarrow> nat \<Rightarrow> twid \<Rightarrow> unit bop" where
  "tc_parallel_for p mem cr_ok ename j k n e hl wd tw = block [
     lift (tc_thread_pool_new p mem cr_ok ename 0),
     thn (tc_thread_pool_wait j k n e hl wd tw p) (ret ())]"

text \<open>
  \<^verbatim>\<open>tc_parallel { ... } tc_with { body2 } tc_parallel_end\<close>: a thread for the first body, which \<open>tc_setup\<close> runs, while the caller
  executes the second.
\<close>

definition tc_parallel :: "(tid \<times> eid) option \<Rightarrow> bool \<Rightarrow> string \<Rightarrow> eid \<Rightarrow> unit bop \<Rightarrow> unit bop" where
  "tc_parallel mem cr_ok name e body2 = bnd (lift (tc_thread_new mem cr_ok name)) (\<lambda>tc. block [
     body2,
     rds (\<lambda>s. thn (tc_thread_wait_ref e \<lparr>r_thr = tc, r_domain = this_domain s, r_id = 0\<rparr>) (ret ()))])"

text \<open>\<^verbatim>\<open>TC_NO_INTR\<close>, at most \<open>k\<close> times.\<close>

fun TC_NO_INTR :: "nat \<Rightarrow> tc_rv bop \<Rightarrow> tc_rv bop" where
  "TC_NO_INTR 0 stmt = throw Out_of_fuel"
| "TC_NO_INTR (Suc k) stmt = bnd stmt (\<lambda>rv. if rv = RV_INTR then TC_NO_INTR k stmt else ret rv)"

lemma no_intr_result: "TC_NO_INTR k stmt s = Inr (rv, s') \<Longrightarrow> rv \<noteq> RV_INTR"
  by (induction k arbitrary: s) (auto simp: op_defs split: sum.splits if_splits)

text \<open>When the thread for the first body cannot be created, only the second is executed, and nobody is told.\<close>

lemma parallel_skips_body: "tc_parallel None cr_ok name e body2 = body2"
  by (auto simp: fun_eq_iff tc_parallel_def tc_thread_new_def tc_thread_new_ref_def tc_thread_new_ref_in_domain_def with_other_domain_def
      u_tc_thread_new_def u_tc_thread_setup_def tc_thread_wait_ref_def op_defs split: sum.splits prod.splits)

section \<open>The sequential loop\<close>

text \<open>The variable after \<open>k\<close> iterations, and the values the body sees.\<close>

definition for_iter :: "('v \<Rightarrow> 'v \<times> 'v) \<Rightarrow> 'v \<Rightarrow> nat \<Rightarrow> 'v" where
  "for_iter incr v k = ((\<lambda>x. snd (incr x)) ^^ k) v"

definition for_values :: "('v \<Rightarrow> 'v \<times> 'v) \<Rightarrow> 'v \<Rightarrow> nat \<Rightarrow> 'v list" where
  "for_values incr v k = map (\<lambda>j. fst (incr (for_iter incr v j))) [0..<k]"

text \<open>The sequential loop ends after \<open>n\<close> iterations.\<close>

definition for_ends :: "('v \<Rightarrow> bool) \<Rightarrow> ('v \<Rightarrow> 'v \<times> 'v) \<Rightarrow> 'v \<Rightarrow> nat \<Rightarrow> bool" where
  "for_ends cond incr v n \<longleftrightarrow> (\<forall>j < n. cond (for_iter incr v j)) \<and> \<not> cond (for_iter incr v n)"

lemma for_iter_Suc: "for_iter incr v (Suc k) = snd (incr (for_iter incr v k))"
  by (simp add: for_iter_def)

lemma for_values_Suc: "mset (for_values incr v (Suc k)) = mset (for_values incr v k) + {#fst (incr (for_iter incr v k))#}"
  by (simp add: for_values_def)

section \<open>The invariant\<close>

definition running_of :: "'v for_pc \<Rightarrow> 'v multiset" where
  "running_of a = (case a of Run i \<Rightarrow> {#i#} | _ \<Rightarrow> {#})"

definition weight :: "'v for_pc \<Rightarrow> nat" where
  "weight a = (case a of Enter \<Rightarrow> 2 | Test \<Rightarrow> 1 | Run i \<Rightarrow> 3 | Over \<Rightarrow> 0)"

definition for_inv :: "('v \<Rightarrow> bool) \<Rightarrow> ('v \<Rightarrow> 'v \<times> 'v) \<Rightarrow> 'v \<Rightarrow> nat \<Rightarrow> nat set \<Rightarrow> nat \<Rightarrow> 'v for_state \<Rightarrow> bool" where
  "for_inv cond incr v n P k s \<longleftrightarrow> k \<le> n \<and> for_var s = for_iter incr v k \<and>
     mset (for_done s) + (\<Sum>p \<in> P. running_of (for_at s p)) = mset (for_values incr v k) \<and>
     (\<forall>p. for_lock s = Some p \<longleftrightarrow> for_at s p = Test) \<and>
     (\<forall>p \<in> P. for_at s p = Over \<longrightarrow> k = n) \<and> (\<forall>p. for_at s p = Test \<longrightarrow> p \<in> P)"

text \<open>The number of steps that are left.\<close>

definition steps_left :: "nat \<Rightarrow> nat set \<Rightarrow> nat \<Rightarrow> 'v for_state \<Rightarrow> nat" where
  "steps_left n P k s = 3 * (n - k) + (\<Sum>p \<in> P. weight (for_at s p))"

lemma running_simps: "running_of (Run i) = {#i#}" "running_of Over = {#}"
  by (simp_all add: running_of_def)

lemma weight_zero: "weight a = 0 \<longleftrightarrow> a = Over"
  by (cases a) (simp_all add: weight_def)

lemma sum_upd:
  fixes g :: "'b \<Rightarrow> 'c :: comm_monoid_add"
  assumes "finite P" and "p \<in> P"
  shows "(\<Sum>q \<in> P. g ((f(p := a)) q)) = g a + (\<Sum>q \<in> P - {p}. g (f q))"
    and "(\<Sum>q \<in> P. g (f q)) = g (f p) + (\<Sum>q \<in> P - {p}. g (f q))"
proof -
  have "(\<Sum>q \<in> P - {p}. g ((f(p := a)) q)) = (\<Sum>q \<in> P - {p}. g (f q))" by (rule sum.cong) simp_all
  then show "(\<Sum>q \<in> P. g ((f(p := a)) q)) = g a + (\<Sum>q \<in> P - {p}. g (f q))"
    using sum.remove [OF assms, of "\<lambda>q. g ((f(p := a)) q)"] by simp
  show "(\<Sum>q \<in> P. g (f q)) = g (f p) + (\<Sum>q \<in> P - {p}. g (f q))" by (rule sum.remove [OF assms])
qed

lemma for_step_inv:
  assumes inv: "for_inv cond incr v n P k s" and fin: "finite P" and ends: "for_ends cond incr v n" and st: "for_step cond incr P s t"
  shows "\<exists>k'. for_inv cond incr v n P k' t \<and> steps_left n P k s = Suc (steps_left n P k' t)"
proof -
  obtain p where p: "p \<in> P" "for_func cond incr p s = Some t" using st by (rule for_stepE)
  note U = sum_upd [OF fin p(1)]
  show ?thesis
  proof (cases "for_at s p")
    case Enter
    then have l: "for_lock s = None" and t: "t = for_goto p Test (s\<lparr>for_lock := Some p\<rparr>)"
      using p(2) by (auto simp: for_func_def split: if_splits)
    have no: "for_at s q \<noteq> Test" for q using inv l by (auto simp: for_inv_def)
    have "for_inv cond incr v n P k t"
      using inv no p(1) Enter U(1) [of running_of "for_at s" Test] U(2) [of running_of "for_at s"]
      by (auto simp: for_inv_def t for_goto_def running_of_def)
    moreover have "steps_left n P k s = Suc (steps_left n P k t)"
      using Enter U(1) [of weight "for_at s" Test] U(2) [of weight "for_at s"] by (simp add: steps_left_def t for_goto_def weight_def)
    ultimately show ?thesis by blast
  next
    case Test
    have k: "for_var s = for_iter incr v k" "k \<le> n" and lk: "\<And>q. for_lock s = Some q \<longleftrightarrow> for_at s q = Test"
      using inv by (auto simp: for_inv_def)
    have idle: "running_of (for_at s p) = {#}" using Test by (simp add: running_of_def)
    have only: "for_at s q = Test \<longleftrightarrow> q = p" for q using lk [of p] lk [of q] Test by auto
    show ?thesis
    proof (cases "cond (for_var s)")
      case True
      obtain i x where ix: "incr (for_var s) = (i, x)" by force
      have t: "t = for_goto p (Run i) (s\<lparr>for_var := x, for_lock := None\<rparr>)" using p(2) Test True ix by (simp add: for_func_def)
      have lt: "k < n" using True k ends by (auto simp: for_ends_def le_less)
      have vals: "mset (for_values incr v (Suc k)) = mset (for_values incr v k) + {#i#}" "for_iter incr v (Suc k) = x"
        using ix k(1) by (simp_all add: for_values_Suc for_iter_Suc)
      have no_over: "for_at s q \<noteq> Over" if "q \<in> P" for q using inv that lt by (auto simp: for_inv_def)
      have "for_inv cond incr v n P (Suc k) t"
        using inv only no_over lt vals idle U(1) [of running_of "for_at s" "Run i"] U(2) [of running_of "for_at s"]
        by (auto simp: for_inv_def t for_goto_def running_simps)
      moreover have "steps_left n P k s = Suc (steps_left n P (Suc k) t)"
        using Test lt U(1) [of weight "for_at s" "Run i"] U(2) [of weight "for_at s"] by (simp add: steps_left_def t for_goto_def weight_def)
      ultimately show ?thesis by blast
    next
      case False
      have t: "t = for_goto p Over (s\<lparr>for_lock := None\<rparr>)" using p(2) Test False by (simp add: for_func_def)
      have kn: "k = n" using False k ends by (auto simp: for_ends_def le_less)
      have "for_inv cond incr v n P k t"
        using inv only kn idle U(1) [of running_of "for_at s" Over] U(2) [of running_of "for_at s"]
        by (auto simp: for_inv_def t for_goto_def running_simps)
      moreover have "steps_left n P k s = Suc (steps_left n P k t)"
        using Test U(1) [of weight "for_at s" Over] U(2) [of weight "for_at s"] by (simp add: steps_left_def t for_goto_def weight_def)
      ultimately show ?thesis by blast
    qed
  next
    case (Run i)
    then have t: "t = for_goto p Enter (s\<lparr>for_done := for_done s @ [i]\<rparr>)" using p(2) by (simp add: for_func_def)
    have "for_inv cond incr v n P k t"
      using inv Run U(1) [of running_of "for_at s" Enter] U(2) [of running_of "for_at s"]
      by (auto simp: for_inv_def t for_goto_def running_of_def)
    moreover have "steps_left n P k s = Suc (steps_left n P k t)"
      using Run U(1) [of weight "for_at s" Enter] U(2) [of weight "for_at s"] by (simp add: steps_left_def t for_goto_def weight_def)
    ultimately show ?thesis by blast
  next
    case Over
    then show ?thesis using p(2) by (simp add: for_func_def)
  qed
qed

text \<open>A thread can always go on, unless all have returned.\<close>

lemma for_progress:
  assumes inv: "for_inv cond incr v n P k s" and p: "p \<in> P" "for_at s p \<noteq> Over"
  shows "\<exists>t. for_step cond incr P s t"
proof (cases "for_lock s")
  case None
  then have "for_func cond incr p s \<noteq> None" using p(2) by (auto simp: for_func_def split: for_pc.splits)
  then show ?thesis using p(1) by (auto intro: for_step.step)
next
  case (Some q)
  then have "for_at s q = Test" "q \<in> P" using inv by (auto simp: for_inv_def)
  then have "q \<in> P" "for_func cond incr q s \<noteq> None" by (simp_all add: for_func_def)
  then show ?thesis by (auto intro: for_step.step)
qed

lemma for_run_inv:
  assumes "finite P" and "for_ends cond incr v n" and "(for_step cond incr P ^^ m) (for_start v) s"
  shows "\<exists>k. for_inv cond incr v n P k s \<and> m + steps_left n P k s = 3 * n + 2 * card P"
  using assms(3)
proof (induction m arbitrary: s)
  case 0
  have "for_inv cond incr v n P 0 s" "steps_left n P 0 s = 3 * n + 2 * card P"
    using 0 by (auto simp: for_inv_def for_start_def running_of_def for_iter_def for_values_def steps_left_def weight_def)
  then show ?case by auto
next
  case (Suc m)
  then obtain u where u: "(for_step cond incr P ^^ m) (for_start v) u" "for_step cond incr P u s" by auto
  obtain k where k: "for_inv cond incr v n P k u" "m + steps_left n P k u = 3 * n + 2 * card P" using Suc.IH [OF u(1)] by blast
  then show ?case using for_step_inv [OF k(1) assms(1,2) u(2)] by auto
qed

section \<open>The property\<close>


text \<open>A schedule: which thread takes the next step.\<close>

fun for_run :: "('v \<Rightarrow> bool) \<Rightarrow> ('v \<Rightarrow> 'v \<times> 'v) \<Rightarrow> nat list \<Rightarrow> 'v for_state \<Rightarrow> 'v for_state option" where
  "for_run cond incr [] s = Some s"
| "for_run cond incr (p # ps) s = Option.bind (for_func cond incr p s) (for_run cond incr ps)"

lemma for_run_steps: "for_run cond incr ps s = Some t \<Longrightarrow> set ps \<subseteq> P \<Longrightarrow> (for_step cond incr P ^^ length ps) s t"
proof (induction ps arbitrary: s)
  case (Cons p ps)
  then obtain u where u: "for_func cond incr p s = Some u" "for_run cond incr ps u = Some t" by (auto simp: bind_eq_Some_conv)
  have "for_step cond incr P s u" using u(1) Cons.prems by (auto intro: for_step.step)
  moreover have "(for_step cond incr P ^^ length ps) u t" using Cons.IH [OF u(2)] Cons.prems by simp
  ultimately show ?case using relpowp_Suc_I2 [of "for_step cond incr P" s u "length ps" t] by simp
qed simp


end
