(* ===== verification/Coroutine.thy ===== *)
theory Coroutine
  imports Prelude
begin

text \<open>
  Coroutines (\<^verbatim>\<open>coroutines.c\<close>, \<^verbatim>\<open>coroutines.h\<close>) at the level of addresses, for a word size of 64 bits: where the stack of a new
  coroutine is placed, how its function and two arguments travel through the 32-bit integers \<^verbatim>\<open>makecontext\<close> takes, what the error paths
  release, and who is the caller of whom. The rest of the development sees a coroutine switch as one operation (theory
  \<open>Scheduler\<close>).

  A structure lives at an address in \<open>cos\<close>; \<open>blocks\<close> are the live blocks of \<^verbatim>\<open>malloc\<close> with their sizes and \<open>maps\<close> the live memory mappings
  with their lengths. \<open>prot\<close> tells whether the library is built with \<^verbatim>\<open>STACK_OVERFLOW_PROTECTION\<close>, and \<open>szc\<close> is
  \<^verbatim>\<open>sizeof(struct coroutine)\<close>. What the C library and the kernel answer is a parameter.
\<close>

unbundle bit_operations_syntax

section \<open>State\<close>

type_synonym addr = "64 word"

record ucontext =
  ss_sp :: addr
  ss_size :: "64 word"
  ctx_args :: "32 word list"

record coroutine =
  uptr :: addr
  co_caller :: addr
  ctx :: ucontext

record co_state =
  cos :: "addr \<Rightarrow> coroutine"
  blocks :: "(addr \<times> 64 word) list"
  maps :: "(addr \<times> int) list"
  co_main_uptr :: addr
  u_cr_current :: addr

record os_answers =
  a_malloc :: "addr option"
  a_mmap :: "addr option"
  a_mprotect :: int
  a_getcontext :: int
  a_setcontext :: "int option"   \<comment> \<open>it returns only when it fails\<close>
  a_page_size :: int

definition STACK_ALIGN :: "64 word" where "STACK_ALIGN = 16"

definition upd_co :: "addr \<Rightarrow> (coroutine \<Rightarrow> coroutine) \<Rightarrow> co_state \<Rightarrow> co_state" where
  "upd_co a f s = s\<lparr>cos := (cos s)(a := f (cos s a))\<rparr>"

section \<open>Arguments of a coroutine\<close>

text \<open>The two halves that \<^verbatim>\<open>cr_create\<close> passes of a pointer, and what \<^verbatim>\<open>cr_setup\<close> makes of them.\<close>

definition hi32 :: "addr \<Rightarrow> 32 word" where
  "hi32 p = ucast (drop_bit 32 p)"

definition lo32 :: "addr \<Rightarrow> 32 word" where
  "lo32 p = ucast p"

definition join64 :: "32 word \<Rightarrow> 32 word \<Rightarrow> addr" where
  "join64 h l = push_bit 32 (ucast h) OR ucast l"

fun cr_setup :: "32 word list \<Rightarrow> (addr \<times> addr \<times> addr) option" where
  "cr_setup [i1, i2, i3, i4, i5, i6] = Some (join64 i1 i2, join64 i3 i4, join64 i5 i6)"
| "cr_setup _ = None"

text \<open>With a word size of 32 bits an argument is one integer.\<close>

definition cr_args32 :: "32 word \<Rightarrow> 32 word \<Rightarrow> 32 word \<Rightarrow> 32 word list" where
  "cr_args32 func arg1 arg2 = [func, arg1, arg2]"

fun cr_setup32 :: "32 word list \<Rightarrow> (32 word \<times> 32 word \<times> 32 word) option" where
  "cr_setup32 [i1, i2, i3] = Some (i1, i2, i3)"
| "cr_setup32 _ = None"

section \<open>Creating and deleting\<close>

definition c_free :: "addr \<Rightarrow> co_state \<Rightarrow> co_state" where
  "c_free a s = s\<lparr>blocks := filter (\<lambda>(b, _). b \<noteq> a) (blocks s)\<rparr>"

text \<open>\<^verbatim>\<open>munmap\<close> removes whole pages from the front of the mapping that begins at the address.\<close>

definition page_round :: "int \<Rightarrow> int \<Rightarrow> int" where
  "page_round ps l = (l + ps - 1) div ps * ps"

definition munmap :: "int \<Rightarrow> addr \<Rightarrow> int \<Rightarrow> co_state \<Rightarrow> co_state" where
  "munmap ps a l s = s\<lparr>maps := concat (map (\<lambda>(b, len). if b \<noteq> a then [(b, len)]
     else if page_round ps l < len then [(a + word_of_int (page_round ps l), len - page_round ps l)] else []) (maps s))\<rparr>"

text \<open>The common end of \<^verbatim>\<open>cr_create\<close>, from \<^verbatim>\<open>getcontext\<close> on.\<close>

definition cr_make :: "os_answers \<Rightarrow> addr \<Rightarrow> addr \<Rightarrow> 64 word \<Rightarrow> addr \<Rightarrow> addr \<Rightarrow> addr \<Rightarrow> co_state \<Rightarrow> addr option \<times> co_state" where
  "cr_make os cr stack sz func arg1 arg2 s =
     (if a_getcontext os \<noteq> 0 then (None, c_free cr s)
      else (Some cr, upd_co cr (\<lambda>c. c\<lparr>ctx := \<lparr>ss_sp = stack, ss_size = sz,
        ctx_args = [hi32 func, lo32 func, hi32 arg1, lo32 arg1, hi32 arg2, lo32 arg2]\<rparr>\<rparr>) s))"

definition cr_create :: "bool \<Rightarrow> 64 word \<Rightarrow> os_answers \<Rightarrow> addr \<Rightarrow> addr \<Rightarrow> addr \<Rightarrow> int \<Rightarrow> co_state \<Rightarrow> addr option \<times> co_state" where
  "cr_create prot szc os func arg1 arg2 stack_size s =
     (if prot then
        (case a_mmap os of
           None \<Rightarrow> (None, s)
         | Some stack \<Rightarrow>
             let ps = a_page_size os; s1 = s\<lparr>maps := (stack, page_round ps (stack_size + ps)) # maps s\<rparr> in
             if a_mprotect os \<noteq> 0 then (None, munmap ps stack stack_size s1)
             else (case a_malloc os of
                 None \<Rightarrow> (None, munmap ps stack stack_size s1)
               | Some cr \<Rightarrow> cr_make os cr stack (word_of_int (stack_size + ps)) func arg1 arg2 (s1\<lparr>blocks := (cr, szc) # blocks s1\<rparr>)))
      else
        (case a_malloc os of
           None \<Rightarrow> (None, s)
         | Some cr \<Rightarrow>
             let sz = (szc + word_of_int stack_size + STACK_ALIGN - 1) AND NOT (STACK_ALIGN - 1);
                 stack = (cr + szc + STACK_ALIGN - 1) AND NOT (STACK_ALIGN - 1)
             in cr_make os cr stack (word_of_int stack_size) func arg1 arg2 (s\<lparr>blocks := (cr, sz) # blocks s\<rparr>)))"

definition cr_delete :: "bool \<Rightarrow> os_answers \<Rightarrow> addr \<Rightarrow> co_state \<Rightarrow> co_state" where
  "cr_delete prot os cr s = (let c = ctx (cos s cr) in
     c_free cr (if prot then munmap (a_page_size os) (ss_sp c) (uint (ss_size c)) s else s))"

section \<open>Switching\<close>

definition cr_current_addr :: "co_state \<Rightarrow> addr" where
  "cr_current_addr s = u_cr_current s"

definition cr_uptr :: "addr \<Rightarrow> co_state \<Rightarrow> addr" where
  "cr_uptr cr s = uptr (cos s cr)"

definition cr_set_uptr :: "addr \<Rightarrow> addr \<Rightarrow> co_state \<Rightarrow> co_state" where
  "cr_set_uptr cr p s = (if cr \<noteq> 0 then upd_co cr (uptr_update (\<lambda>_. p)) s else s)"

definition cr_caller_addr :: "co_state \<Rightarrow> addr" where
  "cr_caller_addr s = co_caller (cos s (u_cr_current s))"

text \<open>The bookkeeping of \<^verbatim>\<open>cr_call\<close>; when \<^verbatim>\<open>swapcontext_fast\<close> succeeds, \<open>cr\<close> runs next.\<close>

definition cr_enter :: "addr \<Rightarrow> co_state \<Rightarrow> co_state" where
  "cr_enter cr s = (upd_co cr (co_caller_update (\<lambda>_. u_cr_current s)) s)\<lparr>u_cr_current := cr\<rparr>"

definition cr_return :: "co_state \<Rightarrow> co_state" where
  "cr_return s = cr_enter (co_caller (cos s (u_cr_current s))) s"

datatype control = Returns | Continues_in addr | Continues_in_main | Exits string
  \<comment> \<open>where execution goes on: behind the call, in a coroutine, behind the \<^verbatim>\<open>getcontext\<close> of \<^verbatim>\<open>cr_init\<close>, nowhere\<close>

text \<open>\<^verbatim>\<open>cr_init\<close> until it switches, and what follows its \<^verbatim>\<open>getcontext\<close> when that returns a second time.\<close>

definition cr_init_after :: "os_answers \<Rightarrow> addr \<Rightarrow> co_state \<Rightarrow> control \<times> co_state" where
  "cr_init_after os co s =
     (if co_main_uptr s \<noteq> 0 then (Returns, s)
      else let s1 = s\<lparr>u_cr_current := co\<rparr> in
        (case a_setcontext os of
           None \<Rightarrow> (Continues_in co, s1)
         | Some r \<Rightarrow> if r = 0 then (Exits ''cr_init: setcontext() failed.'', s1) else (Returns, s1)))"

definition cr_init :: "os_answers \<Rightarrow> addr \<Rightarrow> co_state \<Rightarrow> control \<times> co_state" where
  "cr_init os co s = (let s1 = s\<lparr>co_main_uptr := 0\<rparr> in
     if a_getcontext os \<noteq> 0 then (Exits ''cr_init: getcontext() failed.'', s1) else cr_init_after os co s1)"

definition cr_exit :: "os_answers \<Rightarrow> co_state \<Rightarrow> control \<times> co_state" where
  "cr_exit os s = (let s1 = s\<lparr>co_main_uptr := 1\<rparr> in
     (case a_setcontext os of
        None \<Rightarrow> (Continues_in_main, s1)
      | Some r \<Rightarrow> if r = 0 then (Exits ''cr_exit: setcontext() failed.'', s1) else (Returns, s1)))"

definition cr_get_stack_from_cr :: "addr \<Rightarrow> co_state \<Rightarrow> addr" where
  "cr_get_stack_from_cr cr s = ss_sp (ctx (cos s cr)) - ss_size (ctx (cos s cr))"

section \<open>Words\<close>

lemma join_halves: "join64 (hi32 p) (lo32 p) = p"
  unfolding join64_def hi32_def lo32_def
  by (rule bit_word_eqI) (auto simp: bit_simps not_le not_less)

lemma setup_args32: "cr_setup32 (cr_args32 func arg1 arg2) = Some (func, arg1, arg2)"
  by (simp add: cr_args32_def)

lemma align_down: "(x :: addr) AND NOT (STACK_ALIGN - 1) = push_bit 4 (drop_bit 4 x)"
proof -
  have "STACK_ALIGN - 1 = (mask 4 :: addr)" by (simp add: STACK_ALIGN_def mask_eq_exp_minus_1)
  then show ?thesis by (simp only:) (rule bit_word_eqI, auto simp: bit_simps not_le not_less)
qed

lemma unat_align_down: "unat ((x :: addr) AND NOT (STACK_ALIGN - 1)) = unat x div 16 * 16"
proof -
  have "unat x div 16 * 16 \<le> unat x" by simp
  also have "unat x < 2 ^ 64" using unsigned_less [where ?'a = nat, of x] by simp
  finally have "unat x div 16 * 16 < 2 ^ 64" .
  then show ?thesis
    unfolding align_down by (simp add: unat_word_ariths unsigned_push_bit_eq unsigned_drop_bit_eq push_bit_eq_mult drop_bit_eq_div take_bit_eq_mod)
qed

lemma unat_plus_exact: "unat (a :: addr) + unat b < 18446744073709551616 \<Longrightarrow> unat (a + b) = unat a + unat b"
  by (simp add: unat_word_ariths)

lemma unat_round_up:
  assumes "unat (x :: addr) + 15 < 18446744073709551616"
  shows "unat ((x + STACK_ALIGN - 1) AND NOT (STACK_ALIGN - 1)) = (unat x + 15) div 16 * 16"
proof -
  have e: "x + STACK_ALIGN - 1 = x + 15" by (simp add: STACK_ALIGN_def)
  have "unat (x + 15) = unat x + 15" using unat_plus_exact [of x 15] assms by simp
  then show ?thesis unfolding unat_align_down e by (simp only:)
qed

lemma uint_exact: "0 \<le> k \<Longrightarrow> k < 18446744073709551616 \<Longrightarrow> uint (word_of_int k :: addr) = k"
  by (simp add: uint_word_of_int)

lemma page_round_mult:
  assumes "0 < ps" and "l mod ps = 0"
  shows "page_round ps l = l"
proof -
  obtain q where q: "l = q * ps" using assms(2) by (auto simp: zmod_eq_0_iff mult.commute)
  have "(l + ps - 1) div ps = ((ps - 1) + q * ps) div ps" by (simp add: q algebra_simps)
  also have "\<dots> = q" using assms(1) by (simp add: div_pos_pos_trivial)
  finally show ?thesis by (simp add: page_round_def q)
qed

section \<open>Properties\<close>

lemma stack_fits:
  assumes "c mod 16 = 0" and "n mod 16 = (0 :: nat)"
  shows "c + z \<le> (c + z + 15) div 16 * 16 \<and> (c + z + 15) div 16 * 16 + n \<le> c + (z + n + 15) div 16 * 16"
proof -
  obtain a b where ab: "c = a * 16" "n = b * 16" using assms by (metis mod_0_imp_dvd dvd_def mult.commute)
  have "(a * 16 + z + 15) div 16 = a + (z + 15) div 16" "(z + b * 16 + 15) div 16 = b + (z + 15) div 16"
    using div_mult_self1 [of 16 "z + 15" a] div_mult_self1 [of 16 "z + 15" b] by (simp_all add: ac_simps)
  moreover have "z \<le> (z + 15) div 16 * 16" by presburger
  ultimately show ?thesis by (simp add: ab algebra_simps)
qed

lemma free_head: "a \<notin> fst ` set bs \<Longrightarrow> filter (\<lambda>(b, _). b \<noteq> a) bs = bs"
  by (force simp: filter_id_conv)

lemma unmap_head:
  assumes "maps u = (a, len) # ms" and "a \<notin> fst ` set ms" and "len \<le> page_round ps l"
  shows "maps (munmap ps a l u) = ms"
proof -
  have "concat (map (\<lambda>(b, len). if b \<noteq> a then [(b, len)]
     else if page_round ps l < len then [(a + word_of_int (page_round ps l), len - page_round ps l)] else []) ms) = ms"
    using assms(2) by (induction ms) auto
  then show ?thesis using assms(1,3) by (simp add: munmap_def)
qed

lemma blocks_munmap [simp]: "blocks (munmap ps a l u) = blocks u"
  by (simp add: munmap_def)

text \<open>C40: When the system calls succeed, \<^verbatim>\<open>cr_create\<close> returns a coroutine whose context starts the given function with the given two arguments,
  all 64 bits of each, on a stack of the given size. Without overflow protection and with a stack size that is a multiple of 16, the stack
  is aligned, behind the structure and inside the allocated block, however large the structure is; with protection it is the
  new mapping, a page longer than asked for. Deleting the coroutine gives back exactly what creating it took.\<close>

theorem cr_create_delete:
  assumes os: "a_malloc os = Some cr" "a_mmap os = Some stack" "a_mprotect os = 0" "a_getcontext os = 0" "0 < a_page_size os"
    and al: "unat cr mod 16 = 0" "0 \<le> stack_size" "stack_size mod 16 = 0"
    and fit: "unat cr + unat szc + nat stack_size + 16 < 2 ^ 64" "stack_size + a_page_size os < 2 ^ 64"
    and new: "cr \<notin> fst ` set (blocks s)" "stack \<notin> fst ` set (maps s)"
  shows "\<exists>s'. cr_create prot szc os func arg1 arg2 stack_size s = (Some cr, s') \<and>
    (let c = ctx (cos s' cr) in cr_setup (ctx_args c) = Some (func, arg1, arg2) \<and>
      (if prot then ss_sp c = stack \<and> uint (ss_size c) = stack_size + a_page_size os
       else uint (ss_size c) = stack_size \<and> unat (ss_sp c) mod 16 = 0 \<and> unat cr + unat szc \<le> unat (ss_sp c) \<and>
         (\<exists>sz. blocks s' = (cr, sz) # blocks s \<and> unat (ss_sp c) + unat (ss_size c) \<le> unat cr + unat sz))) \<and>
    blocks (cr_delete prot os cr s') = blocks s \<and> maps (cr_delete prot os cr s') = maps s"
proof (cases prot)
  case True
  let ?l = "stack_size + a_page_size os"
  have l: "uint (word_of_int ?l :: addr) = ?l" by (rule uint_exact) (use al(2) os(5) fit(2) in simp_all)
  have "maps (munmap (a_page_size os) stack ?l u) = maps s" if "maps u = (stack, page_round (a_page_size os) ?l) # maps s" for u
    by (rule unmap_head [OF that]) (use new(2) in simp_all)
  then show ?thesis
    using True os l new(1) by (simp add: cr_create_def cr_make_def cr_delete_def c_free_def Let_def upd_co_def join_halves free_head)
next
  case False
  define n where "n = nat stack_size"
  have i: "stack_size = int n" using al(2) by (simp add: n_def)
  have n: "word_of_int stack_size = (of_nat n :: addr)" "n mod 16 = 0" "int n = stack_size"
    using al(3) unfolding i by (simp, presburger, simp)
  have f: "unat cr + unat szc + n + 16 < 18446744073709551616" using fit(1) by (simp add: n_def)
  have un: "unat (of_nat n :: addr) = n" using f by (simp add: unat_of_nat)
  let ?sz = "(szc + of_nat n + STACK_ALIGN - 1) AND NOT (STACK_ALIGN - 1)"
  let ?st = "(cr + szc + STACK_ALIGN - 1) AND NOT (STACK_ALIGN - 1)"
  have "unat (szc + of_nat n) = unat szc + n" "unat (cr + szc) = unat cr + unat szc"
    using f unat_plus_exact [of szc "of_nat n"] unat_plus_exact [of cr szc] un by simp_all
  then have sz: "unat ?sz = (unat szc + n + 15) div 16 * 16" and st: "unat ?st = (unat cr + unat szc + 15) div 16 * 16"
    using unat_round_up [of "szc + of_nat n"] unat_round_up [of "cr + szc"] f by simp_all
  have fits: "unat cr + unat szc \<le> unat ?st" "unat ?st + n \<le> unat cr + unat ?sz"
    unfolding sz st using stack_fits [OF al(1) n(2)] by auto
  have "uint (of_nat n :: addr) = stack_size" using un n(3) by (metis uint_nat)
  then show ?thesis
    using False os n(1) fits un st new(1)
    by (simp add: cr_create_def cr_make_def cr_delete_def c_free_def Let_def upd_co_def join_halves free_head)
qed

theorem cr_create_delete_witness:
  "\<exists>s'. cr_create False 984 \<lparr>a_malloc = Some 4096, a_mmap = Some 65536, a_mprotect = 0, a_getcontext = 0, a_setcontext = None, a_page_size = 4096\<rparr>
      81985529216486895 1 2 16384 \<lparr>cos = (\<lambda>_. \<lparr>uptr = 0, co_caller = 0, ctx = \<lparr>ss_sp = 0, ss_size = 0, ctx_args = []\<rparr>\<rparr>), blocks = [], maps = [],
        co_main_uptr = 0, u_cr_current = 0\<rparr> = (Some 4096, s') \<and> cr_setup (ctx_args (ctx (cos s' 4096))) = Some (81985529216486895, 1, 2)"
  using cr_create_delete [of "\<lparr>a_malloc = Some 4096, a_mmap = Some 65536, a_mprotect = 0, a_getcontext = 0, a_setcontext = None, a_page_size = 4096\<rparr>"
      4096 65536 16384 984 "\<lparr>cos = (\<lambda>_. \<lparr>uptr = 0, co_caller = 0, ctx = \<lparr>ss_sp = 0, ss_size = 0, ctx_args = []\<rparr>\<rparr>), blocks = [], maps = [],
        co_main_uptr = 0, u_cr_current = 0\<rparr>" False 81985529216486895 1 2]
  by (auto simp: Let_def)

text \<open>Every failing path of \<^verbatim>\<open>cr_create\<close> returns \<^verbatim>\<open>NULL\<close>, and without overflow protection it has released what it took. With protection
  it has not: when \<^verbatim>\<open>mprotect\<close> or \<^verbatim>\<open>malloc\<close> fails it unmaps one page less than it mapped, and when \<^verbatim>\<open>getcontext\<close> fails the
  whole stack stays mapped.\<close>

lemma cr_create_failures:
  assumes "0 < a_page_size os" and "0 \<le> stack_size" and "stack_size mod a_page_size os = 0"
    and "\<And>a. a_malloc os = Some a \<Longrightarrow> a \<notin> fst ` set (blocks s)" and "\<And>a. a_mmap os = Some a \<Longrightarrow> a \<notin> fst ` set (maps s)"
    and "a_malloc os = None \<or> a_getcontext os \<noteq> 0 \<or> prot \<and> (a_mmap os = None \<or> a_mprotect os \<noteq> 0)"
  shows "fst (cr_create prot szc os func arg1 arg2 stack_size s) = None \<and>
    blocks (snd (cr_create prot szc os func arg1 arg2 stack_size s)) = blocks s \<and>
    maps (snd (cr_create prot szc os func arg1 arg2 stack_size s)) =
      (case a_mmap os of
         Some stack \<Rightarrow>
           if \<not> prot then maps s
           else if a_mprotect os \<noteq> 0 \<or> a_malloc os = None then (stack + word_of_int stack_size, a_page_size os) # maps s
           else (stack, stack_size + a_page_size os) # maps s
       | None \<Rightarrow> maps s)"
proof -
  let ?ps = "a_page_size os"
  have r: "page_round ?ps (stack_size + ?ps) = stack_size + ?ps" "page_round ?ps stack_size = stack_size"
    by (rule page_round_mult; use assms(1,3) in simp)+
  have u: "maps (munmap ?ps a stack_size (s\<lparr>maps := (a, stack_size + ?ps) # maps s\<rparr>)) = (a + word_of_int stack_size, ?ps) # maps s"
    if "a \<notin> fst ` set (maps s)" for a
  proof -
    have "concat (map (\<lambda>(b, len). if b \<noteq> a then [(b, len)]
       else if page_round ?ps stack_size < len then [(a + word_of_int (page_round ?ps stack_size), len - page_round ?ps stack_size)] else []) ms) = ms"
      if "a \<notin> fst ` set ms" for ms
      using that by (induction ms) auto
    then show ?thesis using that assms(1) by (simp add: munmap_def r)
  qed
  show ?thesis
    using assms u r by (auto simp: cr_create_def cr_make_def c_free_def Let_def free_head split: option.splits)
qed

lemma cr_create_failures_witness:
  "maps (snd (cr_create True 984 \<lparr>a_malloc = Some 4096, a_mmap = Some 65536, a_mprotect = - 1, a_getcontext = 0, a_setcontext = None, a_page_size = 4096\<rparr>
      7 1 2 16384 \<lparr>cos = (\<lambda>_. \<lparr>uptr = 0, co_caller = 0, ctx = \<lparr>ss_sp = 0, ss_size = 0, ctx_args = []\<rparr>\<rparr>), blocks = [], maps = [],
        co_main_uptr = 0, u_cr_current = 0\<rparr>)) = [(81920, 4096)]"
  using cr_create_failures [of "\<lparr>a_malloc = Some 4096, a_mmap = Some 65536, a_mprotect = - 1, a_getcontext = 0, a_setcontext = None, a_page_size = 4096\<rparr>"
      16384 "\<lparr>cos = (\<lambda>_. \<lparr>uptr = 0, co_caller = 0, ctx = \<lparr>ss_sp = 0, ss_size = 0, ctx_args = []\<rparr>\<rparr>), blocks = [], maps = [],
        co_main_uptr = 0, u_cr_current = 0\<rparr>" True 984 7 1 2]
  by simp

text \<open>Returning from a coroutine continues its caller, which then is the caller's caller's callee again.\<close>

lemma call_return: "u_cr_current s \<noteq> cr \<Longrightarrow> u_cr_current (cr_return (cr_enter cr s)) = u_cr_current s"
  by (simp add: cr_return_def cr_enter_def upd_co_def)

text \<open>A failing \<^verbatim>\<open>setcontext\<close>, which returns -1, is not noticed.\<close>

lemma init_failure_unnoticed:
  "a_setcontext os = Some (- 1) \<Longrightarrow> fst (cr_exit os s) = Returns"
  by (simp add: cr_exit_def)

end
