(* ===== verification/Spin_Delay.thy ===== *)
theory Spin_Delay
  imports Spinlock
begin

text \<open>
  How long a pthread waits in \<^verbatim>\<open>__spin_lock\<close> (\<^verbatim>\<open>spinlock.c\<close>): the time it sleeps between two attempts, the number of attempts before it sleeps, and the
  warnings and the abort of \<^verbatim>\<open>SPINLOCK_DEBUG\<close> and \<^verbatim>\<open>SPINLOCK_ABORT\<close>. Theory \<open>Spinlock\<close> has the accesses to the lock word in the same places. Also here: the
  marker of an owner for a word size of 32 bits, and the marker of a pthread that has not chosen one.
\<close>

unbundle bit_operations_syntax

section \<open>Sleeping\<close>

definition warn_after :: int where "warn_after = 5"
definition abort_after :: int where "abort_after = 30"
definition warn_only_every :: int where "warn_only_every = 120"

definition RAND_MAX :: "64 word" where "RAND_MAX = 2147483647"

text \<open>The argument of \<^verbatim>\<open>nanosleep\<close>: seconds and nanoseconds.\<close>

definition my_usleep :: "32 word \<Rightarrow> int \<times> 64 word" where
  "my_usleep usec = (0, ucast usec * 1000)"

text \<open>The locals of one call of \<^verbatim>\<open>__spin_lock\<close>, besides those of theory \<open>Spinlock\<close>; \<open>last_warn\<close> is static.\<close>

record waiter =
  delay_usec :: "64 word"
  delays :: "32 word"
  my_first_delay :: int

definition waiter_init :: waiter where
  "waiter_init = \<lparr>delay_usec = 0, delays = 0, my_first_delay = 0\<rparr>"

text \<open>\<open>r\<close> is what \<^verbatim>\<open>random()\<close> returns.\<close>

definition choose_delay :: "64 word \<Rightarrow> 64 word \<Rightarrow> 64 word" where
  "choose_delay r d = (if d = 0 then 50 + 100 * r div RAND_MAX else d)"

definition doze :: "64 word \<Rightarrow> waiter \<Rightarrow> spinlock_t \<Rightarrow> (int \<times> 64 word) \<times> waiter \<times> spinlock_t" where
  "doze r u l = (let d = choose_delay r (delay_usec u); sp = spinners l - 1 in
     (my_usleep (ucast (d + ucast (50 * min sp 10))), u\<lparr>delay_usec := d, delays := delays u + 1\<rparr>, l\<lparr>spinners := sp\<rparr>))"

definition warn_check :: "int \<Rightarrow> waiter \<Rightarrow> int \<Rightarrow> bool \<times> waiter \<times> int" where
  "warn_check now u last_warn = (let first = (if my_first_delay u = 0 then now else my_first_delay u);
       warn = (now - first > warn_after \<and> now - last_warn > warn_only_every) in
     (warn, u\<lparr>my_first_delay := first\<rparr>, if warn then now else last_warn))"

definition abort_check :: "int \<Rightarrow> waiter \<Rightarrow> bool" where
  "abort_check now u \<longleftrightarrow> now - my_first_delay u > abort_after"

text \<open>What is done when the pthread wakes up; the result is the warning and whether \<^verbatim>\<open>SPINLOCK_ABORT\<close> ends the process.\<close>

definition after_sleep :: "int \<Rightarrow> waiter \<Rightarrow> int \<Rightarrow> (bool \<times> bool) \<times> waiter \<times> int" where
  "after_sleep now u last_warn = (case warn_check now u last_warn of (w, u', l) \<Rightarrow> ((w, abort_check now u'), u', l))"

text \<open>The sleep changes the lock as \<open>uu_spin_lock_doze\<close> does.\<close>

lemma doze_lock: "the_lock (uu_spin_lock_doze p s) = snd (snd (doze r u (the_lock s)))"
  by (simp add: doze_def uu_spin_lock_doze_def goto_def set_lock_def Let_def)

lemma unat_widen: "unat (ucast (x :: 32 word) :: 64 word) = unat x"
  using unsigned_less [of x, where ?'a = nat] by (simp add: unsigned_ucast_eq take_bit_nat_eq_self)

lemma unat_narrow: "unat (ucast (x :: 64 word) :: 32 word) = unat x mod 2 ^ 32"
  by (simp add: unsigned_ucast_eq take_bit_eq_mod)

lemma choose_delay_bounds:
  assumes "r \<le> RAND_MAX" and "d = 0 \<or> (50 \<le> d \<and> d \<le> 150)"
  shows "50 \<le> choose_delay r d \<and> choose_delay r d \<le> 150"
proof -
  have r: "unat r \<le> 2147483647" using assms(1) by (simp add: RAND_MAX_def word_le_nat_alt)
  then have "unat (100 * r) = 100 * unat r" by (simp add: unat_word_ariths)
  then have q: "unat (100 * r div RAND_MAX) = 100 * unat r div 2147483647" by (simp add: unat_div RAND_MAX_def)
  moreover have "100 * unat r div 2147483647 \<le> 100" using r div_le_mono [of "100 * unat r" "100 * 2147483647" 2147483647] by simp
  ultimately have "unat (50 + 100 * r div RAND_MAX) = 50 + 100 * unat r div 2147483647" "50 + 100 * unat r div 2147483647 \<le> 150"
    by (simp_all add: unat_word_ariths)
  then show ?thesis using assms(2) by (auto simp: choose_delay_def word_le_nat_alt)
qed

text \<open>A sleep lasts from 50 to 650 microseconds, whatever the number of pthreads that spin, and \<^verbatim>\<open>nanosleep\<close> accepts its argument; the delay a pthread has chosen stays.\<close>

lemma doze_bounds:
  assumes "r \<le> RAND_MAX" and "delay_usec u = 0 \<or> (50 \<le> delay_usec u \<and> delay_usec u \<le> 150)" and "doze r u l = ((sec, nsec), u', l')"
  shows "sec = 0 \<and> 50000 \<le> unat nsec \<and> unat nsec \<le> 650000 \<and> 50 \<le> delay_usec u' \<and> delay_usec u' \<le> 150 \<and>
    (delay_usec u \<noteq> 0 \<longrightarrow> delay_usec u' = delay_usec u)"
proof -
  let ?d = "choose_delay r (delay_usec u)" and ?sp = "min (spinners l - 1) 10"
  have d: "50 \<le> unat ?d" "unat ?d \<le> 150" using choose_delay_bounds [OF assms(1,2)] by (simp_all add: word_le_nat_alt)
  have sp: "unat ?sp \<le> 10" using min.cobounded2 [of "spinners l - 1" 10] by (simp only: word_le_nat_alt) simp
  then have "unat (50 * ?sp) = 50 * unat ?sp" by (simp add: unat_word_ariths)
  then have x: "unat (?d + ucast (50 * ?sp)) = unat ?d + 50 * unat ?sp"
    using d sp by (simp add: unat_word_ariths unat_widen)
  then have y: "unat (ucast (?d + ucast (50 * ?sp)) :: 32 word) = unat ?d + 50 * unat ?sp"
    using d sp by (simp add: unat_narrow)
  then have "unat nsec = 1000 * (unat ?d + 50 * unat ?sp)"
    using assms(3) d sp by (auto simp: doze_def my_usleep_def Let_def unat_word_ariths unat_widen)
  then show ?thesis
    using assms(3) d sp by (auto simp: doze_def my_usleep_def Let_def word_le_nat_alt) (simp add: choose_delay_def)
qed

text \<open>A pthread that finds the lock taken does not spin for long: a round without sleep raises \<open>spins\<close>, and above \<open>spins_per_delay\<close> there is none.\<close>

lemma check_spins:
  assumes "at (users (uu_spin_lock_check me p s) p) = Peek"
  shows "spins (users s p) \<le> 100 \<and> unat (spins (users (uu_spin_lock_check me p s) p)) = unat (spins (users s p)) + 1"
proof -
  have a: "spins (users s p) \<le> 100" and b: "spins (users (uu_spin_lock_check me p s) p) = spins (users s p) + 1"
    using assms by (auto simp: uu_spin_lock_check_def goto_def set_spins_def Let_def spins_per_delay_def split: if_splits)
  then have "unat (spins (users s p)) \<le> 100" by (simp add: word_le_nat_alt)
  then show ?thesis using a b by (simp add: unat_word_ariths)
qed

section \<open>Warnings\<close>

text \<open>The checks of all pthreads of the process in the order in which they come: each with its time and the locals of its caller.\<close>

fun warnings :: "int \<Rightarrow> (int \<times> waiter) list \<Rightarrow> int list" where
  "warnings last_warn [] = []"
| "warnings last_warn ((now, u) # cs) = (case warn_check now u last_warn of (w, _, l) \<Rightarrow> (if w then [now] else []) @ warnings l cs)"

lemma warnings_apart: "sorted_wrt (\<lambda>a b. b - a > warn_only_every) (warnings last_warn cs) \<and> (\<forall>t \<in> set (warnings last_warn cs). t - last_warn > warn_only_every)"
proof (induction cs arbitrary: last_warn)
  case (Cons c cs)
  obtain now u where c: "c = (now, u)" by (cases c)
  show ?case using Cons [of now] Cons [of last_warn] by (auto simp: c warn_check_def Let_def warn_only_every_def)
qed simp

text \<open>A pthread warns only when it has slept for the first time more than five seconds ago, and the process at most every two minutes.\<close>

lemma warn_conditions:
  "fst (warn_check now u l) \<longleftrightarrow> my_first_delay u \<noteq> 0 \<and> now - my_first_delay u > 5 \<and> now - l > 120"
  by (auto simp: warn_check_def Let_def warn_after_def warn_only_every_def)

lemma abort_conditions:
  assumes "my_first_delay u \<noteq> 0"
  shows "snd (fst (after_sleep now u l)) \<longleftrightarrow> now - my_first_delay u > 30"
  using assms by (simp add: after_sleep_def warn_check_def abort_check_def Let_def abort_after_def)

section \<open>Markers\<close>

text \<open>\<^verbatim>\<open>this_spinlock_owner\<close> before \<^verbatim>\<open>_worker_initialize\<close> of the pthread.\<close>

definition no_marker :: "64 word" where "no_marker = - 1"

text \<open>Two pthreads that have not chosen a marker cannot tell each other from themselves: the second is stopped as if it had taken the lock twice.\<close>

lemma unmarked_confused:
  assumes "lock_m (the_lock s) = no_marker" and "me p = no_marker" and "at (users s p) = Try_fast"
  shows "at (users (((spin_next me f n p) ^^ 5) s) p) = Aborted"
proof (rule relock_detected)
  have "bit (ucast (- 1 :: 64 word) :: 32 word) 0" by (simp add: bit_simps)
  then show "m_tid (me p) \<noteq> 0" using assms(2) by (auto simp: no_marker_def m_tid_def)
qed (use assms in simp_all)

text \<open>For 32 bits the marker is one word, with 24 signed bits of the thread id and 8 of the CPU.\<close>

definition m_tid32 :: "32 word \<Rightarrow> int" where
  "m_tid32 m = signed_take_bit 23 (uint m)"

definition m_cpu32 :: "32 word \<Rightarrow> int" where
  "m_cpu32 m = signed_take_bit 7 (uint (drop_bit 24 m))"

definition marker32 :: "int \<Rightarrow> int \<Rightarrow> 32 word" where
  "marker32 tid cpu = word_of_int (take_bit 24 tid) OR push_bit 24 (word_of_int (take_bit 8 cpu))"

lemma bit_marker32: "bit (marker32 tid cpu) n \<longleftrightarrow> n < 32 \<and> (if n < 24 then bit tid n else bit cpu (n - 24))"
  by (auto simp: marker32_def bit_simps)

lemma marker32_tid: "m_tid32 (marker32 tid cpu) = signed_take_bit 23 tid"
  unfolding m_tid32_def by (rule bit_eqI) (auto simp: bit_signed_take_bit_iff bit_uint_iff bit_marker32 min_def)

lemma marker32_cpu: "m_cpu32 (marker32 tid cpu) = signed_take_bit 7 cpu"
  unfolding m_cpu32_def by (rule bit_eqI) (auto simp: bit_signed_take_bit_iff bit_uint_iff bit_drop_bit_eq bit_marker32 min_def)

text \<open>The kernel has at most \<open>2 ^ 22\<close> thread ids: they fit, so that markers of different threads differ and none is 0.\<close>

lemma marker32_ok:
  assumes "0 < t" and "t \<le> 2 ^ 22" and "0 < t'" and "t' \<le> 2 ^ 22"
  shows "m_tid32 (marker32 t c) = t" and "marker32 t c \<noteq> 0" and "marker32 t c = marker32 t' c' \<Longrightarrow> t = t'"
proof -
  have m: "m_tid32 (marker32 t c) = t" "m_tid32 (marker32 t' c') = t'"
    using assms by (simp_all add: marker32_tid signed_take_bit_int_eq_self)
  then show "m_tid32 (marker32 t c) = t" by simp
  have "m_tid32 0 = 0" by (simp add: m_tid32_def)
  then show "marker32 t c \<noteq> 0" using m(1) assms(1) by auto
  show "marker32 t c = marker32 t' c' \<Longrightarrow> t = t'" using m by auto
qed

end
