(* ===== verification/Union_Type.thy ===== *)
theory Union_Type
  imports Domains Parallel Rwlock
begin

text \<open>
  Type safety of the union in \<^verbatim>\<open>struct event\<close>: the member \<^verbatim>\<open>signal\<close> is read only of events whose \<^verbatim>\<open>flags\<close> say \<^verbatim>\<open>EF_SIGNAL\<close>. \<open>typed\<close> states that the
  union of such an event holds that member. Every function of the library keeps it and never reads the member of an event that does not hold it; the rules of
  \<open>safe\<close> carry this from the primitive operations to the public functions.
\<close>

section \<open>The invariant\<close>

definition typed :: "tcr \<Rightarrow> bool" where
  "typed s \<longleftrightarrow> (\<forall>e. ev_flags (evs s e) = EF_SIGNAL \<longrightarrow> signal_of (evs s e) \<noteq> None)"

definition wrong_member :: "fault set" where
  "wrong_member = {Null_deref ''e->signal''}"

text \<open>Operations that block need an environment that keeps the invariant as well.\<close>

definition typed_run :: "tcr \<times> env \<Rightarrow> bool" where
  "typed_run x \<longleftrightarrow> typed (fst x) \<and> (\<forall>g \<in> set (snd x). \<forall>s. typed s \<longrightarrow> typed (g s))"

abbreviation sound :: "'a tcop \<Rightarrow> bool" where
  "sound m \<equiv> safe typed wrong_member m"

abbreviation bsound :: "'a bop \<Rightarrow> bool" where
  "bsound m \<equiv> safe typed_run wrong_member m"

lemma typed_signals_ok: "typed s \<Longrightarrow> signals_ok s"
  by (simp add: typed_def signals_ok_def)

lemma typed_evs: "typed s \<Longrightarrow> evs s' = evs s \<Longrightarrow> typed s'"
  by (simp add: typed_def)

text \<open>Functions that change no event.\<close>

lemma typed_frame [safe_rules]:
  "typed s \<Longrightarrow> typed (upd_thr t f s)" "typed s \<Longrightarrow> typed (upd_fd d f1 s)" "typed s \<Longrightarrow> typed (upd_dom dm f2 s)" "typed s \<Longrightarrow> typed (upd_wrk w f3 s)"
  "typed s \<Longrightarrow> typed (upd_cur_worker f3 s)" "typed s \<Longrightarrow> typed (upd_aio a f4 s)" "typed s \<Longrightarrow> typed (upd_tw tw f5 s)"
  "typed s \<Longrightarrow> typed (circleq_insert_tail l e s)" "typed s \<Longrightarrow> typed (circleq_insert_head l e s)" "typed s \<Longrightarrow> typed (circleq_remove l e s)"
  "typed s \<Longrightarrow> typed (event_list_init l s)" "typed s \<Longrightarrow> typed (tc_waitq_init q s)" "typed s \<Longrightarrow> typed (clear_woken s)" "typed s \<Longrightarrow> typed (woken_by e s)"
  "typed s \<Longrightarrow> typed (woken_by_fd u s)" "typed s \<Longrightarrow> typed (set_running t s)" "typed s \<Longrightarrow> typed (clear_running t s)"
  by (simp_all add: typed_def upd_thr_def upd_fd_def upd_dom_def upd_wrk_def upd_cur_worker_def upd_aio_def upd_tw_def circleq_defs event_list_init_def
      tc_waitq_init_def clear_woken_def woken_by_def woken_by_fd_def set_running_def clear_running_def)

text \<open>Functions that change an event, and those that write its union write the flags with it.\<close>

lemma typed_event [safe_rules]:
  "typed s \<Longrightarrow> typed (upd_ev e (ev_el_update f) s)" "typed s \<Longrightarrow> typed (upd_ev e (ev_tc_update g) s)"
  "typed s \<Longrightarrow> typed (upd_ev e (next_in_stack_update h) s)" "typed s \<Longrightarrow> typed (tc_event_init e s)"
  "fl \<noteq> EF_SIGNAL \<Longrightarrow> typed s \<Longrightarrow> typed (upd_ev e (\<lambda>v. v\<lparr>ev_u := u, ev_flags := fl\<rparr>) s)" "typed s \<Longrightarrow> typed (upd_ev e (\<lambda>_. zero_event) s)"
  "typed s \<Longrightarrow> typed (signal_event g' e s)"
  by (auto simp: typed_def upd_ev_def tc_event_init_def signal_of_def signal_event_def)

section \<open>Primitive operations\<close>

lemma sound_prims [safe_rules]:
  "sound (spin_lock l)" "sound (spin_unlock l)" "sound (must_hold l)" "sound (assertm t c)" "sound (msg_exit t)" "sound (msg t)"
  "sound (sys_call k)" "sound clock_gettime" "sound (sys_ignore k)" "sound (free_obj p)" "sound gettimeofday" "sound (cas_owner m me)"
  by (auto simp: safe_def op_defs wrong_member_def typed_def gettimeofday_def cas_owner_def split: option.splits)

lemma sound_with_el [safe_rules]: "(\<And>l. sound (k l)) \<Longrightarrow> sound (with_el e k)"
  by (auto simp: safe_def with_el_def wrong_member_def split: option.splits)

lemma bsound_lift [safe_rules]: "sound m \<Longrightarrow> bsound (lift m)"
  by (rule safeI) (auto simp: lift_def typed_run_def dest: safe_Inl safe_Inr split: sum.splits)

lemma bsound_rds [safe_rules]: "(\<And>s. bsound (k s)) \<Longrightarrow> bsound (rds k)"
  by (auto simp: safe_def rds_def)

lemma bsound_cr_call [safe_rules]: "bsound (cr_call c)"
  by (auto simp: safe_def cr_call_def typed_run_def typed_def wrong_member_def Let_def split: list.splits)

lemma other_fault [simp]:
  "Suspended \<notin> wrong_member" "Out_of_fuel \<notin> wrong_member" "Assertion t \<notin> wrong_member" "Use_after_free p \<notin> wrong_member"
  "Division_by_zero \<notin> wrong_member" "Null_deref t \<notin> wrong_member \<longleftrightarrow> t \<noteq> ''e->signal''"
  by (simp_all add: wrong_member_def)

section \<open>Event lists and queues\<close>

lemma sound_set_el [safe_rules]: "sound (set_el e l)" "sound atomic_inc_immediate"
  unfolding set_el_def atomic_inc_immediate_def
  by (intro safe_rules; simp add: typed_def)+

lemma sound_unlink [safe_rules]: "sound (move_to_immediate e)" "sound (uu_remove_event e)"
  unfolding move_to_immediate_def uu_remove_event_def
  by (intro safe_rules; simp add: typed_def)+

lemma sound_remove [safe_rules]: "sound (u_remove_event e el)" "sound (move_event e l)"
  unfolding u_remove_event_def move_event_def
  by (intro safe_rules; simp add: typed_def)+

lemma sound_remove_event [safe_rules]: "sound (remove_event e)"
proof -
  have "sound (thn (block [spin_lock (L_list el), u_remove_event e el, spin_unlock (L_list el)]) (ret el))" for el by (intro safe_rules)
  then show ?thesis by (auto simp: safe_def remove_event_def wrong_member_def split: option.splits)
qed

lemma sound_remove_holding [safe_rules]: "sound (remove_event_holding_locks e els)"
proof -
  have "sound (u_remove_event e el)" "sound (thn (remove_event e) (ret ()))" for el by (intro safe_rules)+
  then show ?thesis unfolding remove_event_holding_locks_def by (auto simp: safe_def split: option.splits)
qed

lemma sound_add [safe_rules]: "sound (u_add_event e el tc)" "sound (uu_tc_event_on_tc_stack e tc)" "sound (u_iwi_immediate dm)" "sound (set_woken w tco)"
  unfolding u_add_event_def uu_tc_event_on_tc_stack_def u_iwi_immediate_def set_woken_def
  by (intro safe_rules; simp add: typed_def)+

lemma sound_on_stack [safe_rules]: "sound (u_tc_event_on_tc_stack e tc)" "sound (u_tc_waitq_prepare_to_wait wq e tc)" "fl \<noteq> EF_SIGNAL \<Longrightarrow> sound (add_event_cr e ep fl tc)" "sound (pop_event_stack tc e)"
  unfolding u_tc_event_on_tc_stack_def u_tc_waitq_prepare_to_wait_def add_event_cr_def pop_event_stack_def
  by (intro safe_rules; simp add: typed_def)+

lemma sound_waitq [safe_rules]: "sound (tc_waitq_prepare_to_wait wq e)" "sound (finish_wait_locked tc e)" "sound (tc_waitq_wakeup_one_owner wq m)" "sound (tc_waitq_unregister wq)"
  unfolding Let_def append.simps tc_waitq_prepare_to_wait_def finish_wait_locked_def tc_waitq_wakeup_one_owner_def tc_waitq_unregister_def
  by (intro safe_rules; simp add: typed_def)+

lemma sound_finish [safe_rules]: "sound (tc_waitq_finish_wait wqo e)" "sound (tc_waitq_wakeup_one wq)" "sound (wakeup_all_body wq e al)"
  unfolding tc_waitq_finish_wait_def tc_waitq_wakeup_one_def wakeup_all_body_def
  by (intro safe_rules; simp add: typed_def)+

lemma sound_wakeup_all_loop [safe_rules]: "sound (wakeup_all_loop wq es al)"
  by (induction es arbitrary: al) (simp_all add: safe_rules)

lemma sound_wakeup_all [safe_rules]: "sound (tc_waitq_wakeup_all wq)"
  unfolding tc_waitq_wakeup_all_def
  by (intro safe_rules; simp add: typed_def)+

section \<open>Descriptors and sleeping workers\<close>

lemma sound_matching [safe_rules]: "sound (matching_event em l)" "sound (wake_loop es ex ew)"
proof -
  show "sound (matching_event em l)"
    unfolding matching_event_def by (intro safe_rules)
  show "sound (wake_loop es ex ew)"
  proof (induction es arbitrary: ex ew)
    case (Cons e es)
    have "sound (thn (move_to_immediate e) (wake_loop es ex ew))" by (intro safe_rules Cons.IH)
    with Cons.IH show ?case by (auto simp: safe_def)
  qed (simp add: safe_rules)
qed

lemma sound_wake_fd [safe_rules]: "sound (wakeup_all_events l)" "sound (tcfd_epoll_ctl eop tcfd m)" "sound (u_tc_fd_free tcfd)"
  unfolding wakeup_all_events_def tcfd_epoll_ctl_def u_tc_fd_free_def
  by (intro safe_rules; simp add: typed_def)+

lemma sound_arm [safe_rules]: "sound (arm tcfd)" "sound (u_process_free_list lk)" "sound (worker_prepare_sleep)" "sound (mark_sleeper dm w)"
  unfolding arm_def u_process_free_list_def worker_prepare_sleep_def mark_sleeper_def
  by (intro safe_rules; simp add: typed_def)+

lemma sound_add_fd [safe_rules]: "fl \<noteq> EF_SIGNAL \<Longrightarrow> sound (add_event_fd e ep fl tcfd)" "sound (tc_rearm tcfd)" "sound (worker_after_sleep)" "sound (store_for_later_free tcfd)"
  unfolding add_event_fd_def tc_rearm_def worker_after_sleep_def store_for_later_free_def
  by (intro safe_rules; simp add: typed_def)+

lemma sound_fd_init [safe_rules]: "sound (mark_dead tcfd t)" "sound (u_tc_fd_init_keep_blocking tcfd fd)" "sound (remove_event_fd e tcfd)" "sound (fd_pick tcfd events)"
  unfolding mark_dead_def u_tc_fd_init_keep_blocking_def remove_event_fd_def fd_pick_def
  by (intro safe_rules; simp add: typed_def)+

lemma sound_fd [safe_rules]: "sound (tc_register_fd_mem_still_blocking fd tcfd)" "sound (u_tc_fd_unregister tcfd later)"
  unfolding tc_register_fd_mem_still_blocking_def u_tc_fd_unregister_def
  by (intro safe_rules; simp add: typed_def)+

lemma sound_fd_init_nonblocking [safe_rules]: "sound (u_tc_fd_init tcfd fd)"
  unfolding u_tc_fd_init_def
  by (intro safe_rules; simp add: typed_def)+

lemma sound_register [safe_rules]: "sound (tc_register_fd mm fd)" "sound (tc_unregister_fd tcfd)" "sound (tc_unregister_fd_mem tcfd)"
  unfolding tc_register_fd_def tc_unregister_fd_def tc_unregister_fd_mem_def
  by (intro safe_rules; simp add: typed_def)+

section \<open>Where the member is read\<close>

text \<open>An event that is known to be a signal stays one while it is taken off its list.\<close>

lemma sound_with_signal: "(\<And>w. sound (k w)) \<Longrightarrow> typed s \<Longrightarrow> ev_flags (evs s e) = EF_SIGNAL \<Longrightarrow>
  case with_signal e k s of Inl f \<Rightarrow> f \<notin> wrong_member | Inr (x, s') \<Rightarrow> typed s'"
  by (auto simp: with_signal_def typed_def safe_def split: option.splits)

lemma sound_queue_or_take [safe_rules]: "sound k \<Longrightarrow> sound (queue_or_take e tc k)"
proof -
  have w: "sound (whn (\<lambda>s. ev_flags (evs s e) \<noteq> EF_SIGNAL) (mdf (stash_tcfd e)))"
    by (rule safeI) (auto simp: op_defs stash_tcfd_def typed_def upd_ev_def)
  have "sound (block [whn (\<lambda>s. ev_flags (evs s e) \<noteq> EF_SIGNAL) (mdf (stash_tcfd e)), move_event e (Pending tc)])"
    by (rule safe_block(2) [OF w]) (intro safe_rules)
  moreover assume "sound k"
  then have "sound (block [mdf (set_running tc), k, mdf (woken_by e)])" by (intro safe_rules)
  ultimately show "sound (queue_or_take e tc k)"
    unfolding queue_or_take_def by (intro safe_ifm safe_thn safe_basic)
qed

lemma sound_run_or_queue [safe_rules]: "sound (run_or_queue e)"
proof (rule safeI)
  fix s
  assume t: "typed s"
  let ?tc = "ev_tc (evs s e)"
  let ?k = "\<lambda>w. thn (block [spin_lock (L_list (Pending ?tc)), spin_lock (L_list w)])
    (bnd (queue_or_take e ?tc (move_event e w)) (\<lambda>r. thn (block [spin_unlock (L_list w), spin_unlock (L_list (Pending ?tc))]) (ret r)))"
  have k: "sound (?k w)" for w by (intro safe_rules)
  have "sound (thn (u_remove_event e Immediate) (ret (Some ?tc)))"
    "sound (thn (spin_lock (L_list (Pending ?tc))) (bnd (queue_or_take e ?tc (with_el e (u_remove_event e))) (\<lambda>r.
       thn (spin_unlock (L_list (Pending ?tc))) (ret r))))"
    by (intro safe_rules)+
  note sub = safeD [OF this(1) t] safeD [OF this(2) t] sound_with_signal [of ?k s e, OF k t]
  have "run_or_queue e s = (if ev_el (evs s e) = None then Inl (Assertion ''e->el'')
     else if ev_flags (evs s e) = EF_EXITING then thn (u_remove_event e Immediate) (ret (Some ?tc)) s
     else if ev_flags (evs s e) = EF_SIGNAL then with_signal e ?k s
     else thn (spin_lock (L_list (Pending ?tc))) (bnd (queue_or_take e ?tc (with_el e (u_remove_event e))) (\<lambda>r.
       thn (spin_unlock (L_list (Pending ?tc))) (ret r))) s)"
    by (simp add: run_or_queue_def rdm_def Let_def thn_def bnd_def assertm_def)
  then show "case run_or_queue e s of Inl f \<Rightarrow> f \<notin> wrong_member | Inr (x, s') \<Rightarrow> typed s'"
    using sub
    by (cases "ev_el (evs s e) = None"; cases "ev_flags (evs s e) = EF_EXITING"; cases "ev_flags (evs s e) = EF_SIGNAL")
       (simp_all only: if_True if_False simp_thms other_fault sum.case tc_event_flag.distinct)
qed

lemma sound_take_pending [safe_rules]: "sound (take_pending tc e)"
proof -
  let ?k = "\<lambda>w. block [spin_lock (L_list w), move_event e w, spin_unlock (L_list w)]"
  have k: "sound (?k w)" for w by (intro safe_rules)
  have u: "sound (u_remove_event e (Pending tc))" by (intro safe_rules)
  have "sound (ifm (\<lambda>s. ev_flags (evs s e) = EF_SIGNAL) (with_signal e ?k) (u_remove_event e (Pending tc)))"
  proof (rule safeI)
    fix s
    assume t: "typed s"
    from safeD [OF u t] sound_with_signal [of ?k s e, OF k t]
    show "case ifm (\<lambda>s. ev_flags (evs s e) = EF_SIGNAL) (with_signal e ?k) (u_remove_event e (Pending tc)) s of
        Inl f \<Rightarrow> f \<notin> wrong_member | Inr (x, s') \<Rightarrow> typed s'"
      unfolding ifm_def by presburger
  qed
  then show ?thesis
    unfolding take_pending_def by (rule safe_block(2)) (intro safe_rules)
qed

lemma sound_pick [safe_rules]: "sound (sched_pick)" "sound (arm_aio_efd eop)" "sound (arm_immediate eop)" "sound (tc_thread_free tc)"
  unfolding sched_pick_def arm_aio_efd_def arm_immediate_def tc_thread_free_def
  by (intro safe_rules; simp add: typed_def)+

lemma sound_scan [safe_rules]: "sound (scan_immediate nr es)"
  by (induction es) (simp_all add: safe_rules)

lemma safe_seq:
  assumes "safe P F m" and "P s" and "\<And>s'. P s' \<Longrightarrow> case k s' of Inl f \<Rightarrow> f \<notin> F | Inr (x, t) \<Rightarrow> Q t"
  shows "case thn m k s of Inl f \<Rightarrow> f \<notin> F | Inr (x, t) \<Rightarrow> Q t"
proof (cases "m s")
  case (Inl f)
  then show ?thesis using safeD [OF assms(1,2)] by (simp add: thn_def bnd_def)
next
  case (Inr r)
  obtain x s1 where r: "r = (x, s1)" by (cases r)
  then show ?thesis using Inr assms(3) [OF safe_Inr [OF assms(1,2)], of x s1] by (simp add: thn_def bnd_def)
qed

lemma thn_cong: "m s = n s \<Longrightarrow> thn m k s = thn n k s"
  by (simp add: thn_def bnd_def)

text \<open>The loop of \<^verbatim>\<open>tc_die\<close> that frees the subscriptions of a thread, for a test that implies that the event is a signal.\<close>

lemma cancel_signal_sound:
  assumes "typed s" and "ev_flags (evs s e) = EF_SIGNAL"
  shows "case u_cancel_signal e el s of Inl f \<Rightarrow> f \<notin> wrong_member | Inr (x, s') \<Rightarrow> typed s'"
  unfolding u_cancel_signal_def block_thn(1)
proof (rule safe_seq)
  show "safe (\<lambda>s. typed s \<and> ev_flags (evs s e) = EF_SIGNAL) wrong_member (u_remove_event e el)"
    by (rule safeI)
      (auto simp: u_remove_event_def uu_remove_event_def with_el_def set_el_def op_defs upd_defs typed_def signal_of_def split: option.splits sum.splits if_splits)
  show "typed s \<and> ev_flags (evs s e) = EF_SIGNAL" using assms by simp
  fix s'
  assume s': "typed s' \<and> ev_flags (evs s' e) = EF_SIGNAL"
  then obtain g where g: "signal_of (evs s' e) = Some g" by (auto simp: typed_def)
  let ?m = "\<lambda>s. case signal_of (evs s e) of None \<Rightarrow> Inl (Null_deref ''e->signal'')
     | Some g \<Rightarrow> thn (spin_lock (L_list (Waiters (Sig_wq g)))) (thn (mdf (sss_remove g e)) (thn (spin_unlock (L_list (Waiters (Sig_wq g)))) (block []))) s"
  let ?l = "L_list (Waiters (Sig_wq g))" and ?k = "thn (free_obj (O_sub e)) (block [])"
  have eq: "thn ?m ?k s' = thn (thn (spin_lock ?l) (thn (mdf (sss_remove g e)) (thn (spin_unlock ?l) (block [])))) ?k s'"
    by (rule thn_cong) (simp add: g)
  have "sound (thn (thn (spin_lock ?l) (thn (mdf (sss_remove g e)) (thn (spin_unlock ?l) (block [])))) ?k)"
    by (intro safe_rules) (simp add: sss_remove_def typed_def)
  from safeD [OF this, of s'] s' show "case thn ?m ?k s' of Inl f \<Rightarrow> f \<notin> wrong_member | Inr (x, s') \<Rightarrow> typed s'"
    unfolding eq by blast
qed

lemma sound_cancel [safe_rules]:
  assumes "\<And>s e. p s e \<Longrightarrow> ev_flags (evs s e) = EF_SIGNAL"
  shows "sound (cancel_loop p el es)"
proof (induction es)
  case (Cons e es)
  have "sound (whn (\<lambda>s. p s e) (u_cancel_signal e el))"
    by (rule safeI) (use cancel_signal_sound assms in \<open>simp add: whn_def\<close>)
  with Cons show ?case by (simp add: safe_rules)
qed (simp add: safe_rules)

section \<open>The scheduler and blocking waits\<close>

lemma bsound_switch [safe_rules]: "bsound (u_switch_to new)"
  unfolding u_switch_to_def
  by (intro safe_rules; simp add: typed_def)+

lemma bsound_switch_to [safe_rules]: "bsound (switch_to new)"
  unfolding switch_to_def
  by (intro safe_rules; simp add: typed_def)+

lemma bsound_run_immediate_loop [safe_rules]: "bsound (run_immediate_loop n nr)"
proof (induction n)
  case (Suc n)
  then show ?case unfolding run_immediate_loop.simps by (intro safe_rules; simp)
qed (simp add: safe_rules)

lemma bsound_u_run_immediate [safe_rules]: "bsound (u_run_immediate nr)"
  unfolding u_run_immediate_def
  by (intro safe_rules; simp add: typed_def)+

lemma bsound_run_immediate_iter [safe_rules]: "bsound (run_immediate_iter n b)"
proof (induction n arbitrary: b)
  case (Suc n)
  then show ?case unfolding run_immediate_iter.simps by (intro safe_rules; simp)
qed (simp add: safe_rules)

lemma bsound_scheduler [safe_rules]: "bsound (run_immediate)" "bsound (tc_scheduler)"
  unfolding run_immediate_def tc_scheduler_def
  by (intro safe_rules; simp add: typed_def)+

lemma bsound_yield [safe_rules]: "bsound (tc_sched_yield e)" "bsound (tc_waitq_wait e wq)"
  unfolding tc_sched_yield_def tc_waitq_wait_def
  by (intro safe_rules; simp add: typed_def)+

lemma bsound_wait_event_loop [safe_rules]: "sound c \<Longrightarrow> bsound (wait_event_loop n wq e c)"
proof (induction n)
  case (Suc n)
  then show ?case unfolding wait_event_loop.simps by (intro safe_rules; simp)
qed (simp add: safe_rules)

lemma bsound_wait_event [safe_rules]: "sound c \<Longrightarrow> bsound (tc_wait_event n wq e c)"
  unfolding tc_wait_event_def
  by (intro safe_rules; simp add: typed_def)+

lemma bsound_waitq_wait_event [safe_rules]: "sound c \<Longrightarrow> bsound (tc_waitq_wait_event n wq e c)" "ef \<noteq> EF_SIGNAL \<Longrightarrow> bsound (u_tc_wait_fd e ep tcfd ef)"
  unfolding tc_waitq_wait_event_def u_tc_wait_fd_def
  by (intro safe_rules; simp add: typed_def)+

lemma bsound_wait_fd [safe_rules]: "bsound (tc_wait_fd e ep tcfd)" "bsound (tc_wait_fd_prio e ep tcfd)"
  unfolding tc_wait_fd_def tc_wait_fd_prio_def
  by (intro safe_rules; simp add: typed_def)+

section \<open>Completed requests and the loop of a worker\<close>

lemma sound_complete [safe_rules]: "sound (complete_aio ev)"
  unfolding complete_aio_def
  by (intro safe_rules; simp add: typed_def)+

lemma sound_aio_loop [safe_rules]: "sound (aio_loop getev i cnt)"
proof (induction getev i cnt rule: aio_loop.induct)
  case (1 getev i cnt)
  then show ?case by (subst aio_loop.simps) (intro safe_rules; simp)
qed

lemma sound_rearm [safe_rules]: "sound (handle_aio_event cnt getev)" "sound (rearm_immediate)" "sound (fd_event tcfd events)"
  unfolding handle_aio_event_def rearm_immediate_def fd_event_def
  by (intro safe_rules; simp add: typed_def)+

text \<open>The other workers keep the invariant while this one waits in \<^verbatim>\<open>epoll_wait\<close>.\<close>

definition typed_input :: "part2_input \<Rightarrow> bool" where
  "typed_input i \<longleftrightarrow> (\<forall>(r, g) \<in> set (polls i). \<forall>s. typed s \<longrightarrow> typed (g s))"

lemma safe_epoll [safe_rules]:
  "safe P F m1 \<Longrightarrow> (r = Ep_eintr \<Longrightarrow> safe P F m2) \<Longrightarrow> (\<And>d m. r = Ep_return d m \<Longrightarrow> safe P F (k d m)) \<Longrightarrow>
    safe P F (case r of Ep_error \<Rightarrow> m1 | Ep_eintr \<Rightarrow> m2 | Ep_return d m \<Rightarrow> k d m)"
  "safe P F n1 \<Longrightarrow> safe P F n2 \<Longrightarrow> safe P F n3 \<Longrightarrow> safe P F n4 \<Longrightarrow> (\<And>t. q = Data_ptr t \<Longrightarrow> safe P F (h t)) \<Longrightarrow>
    safe P F (case q of Data_zero \<Rightarrow> n1 | IWI_SYNC \<Rightarrow> n2 | IWI_IMMEDIATE \<Rightarrow> n3 | IWI_ASYNC_IO \<Rightarrow> n4 | Data_ptr t \<Rightarrow> h t)"
  by (auto split: epoll_result.splits epoll_data.splits)

lemma sound_poll_loop: "\<forall>(r, g) \<in> set ps. \<forall>s. typed s \<longrightarrow> typed (g s) \<Longrightarrow> sound (poll_loop hw ps)"
proof (induction hw ps rule: poll_loop.induct)
  case (2 hw r g ps)
  then show ?case unfolding poll_loop.simps by (intro safe_rules; auto)
qed (simp add: safe_rules)

lemma bsound_round: "typed_input i \<Longrightarrow> bsound (scheduler_part2_round i)"
  unfolding scheduler_part2_round_def typed_input_def
  by (intro safe_rules sound_poll_loop)

lemma bsound_part2: "\<forall>i \<in> set is. typed_input i \<Longrightarrow> bsound (scheduler_part2 is)"
proof -
  have "\<forall>i \<in> set is. typed_input i \<Longrightarrow> bsound (formap scheduler_part2_round is)"
  proof (induction "is")
    case (Cons i "is")
    then show ?case by (simp only: block_thn, intro safe_thn bsound_round) simp_all
  qed (simp add: safe_skip)
  then show "\<forall>i \<in> set is. typed_input i \<Longrightarrow> bsound (scheduler_part2 is)"
    unfolding scheduler_part2_def by (intro safe_block bsound_lift) (intro safe_rules)
qed

section \<open>Locks and signals\<close>

lemma sound_mutex [safe_rules]: "sound (mutex_cond m me)" "sound (tc_mutex_trylock m)" "sound (tc_mutex_unlock m)" "sound (tc_mutex_destroy m)"
  unfolding mutex_cond_def tc_mutex_trylock_def tc_mutex_unlock_def tc_mutex_destroy_def
  by (intro safe_rules; simp add: typed_def)+

lemma bsound_mutex [safe_rules]: "bsound (tc_mutex_lock n e m)"
  unfolding tc_mutex_lock_def
  by (intro safe_rules; simp add: typed_def)+

lemma sound_rw [safe_rules]: "sound (rw_add_readers l k)" "sound (rw_w_cond l)" "sound (tc_rw_w_trylock l)" "sound (tc_rw_w_unlock l)"
  unfolding rw_add_readers_def rw_w_cond_def tc_rw_w_trylock_def tc_rw_w_unlock_def
  by (intro safe_rules; simp add: typed_def)+

lemma sound_rw_unlock [safe_rules]: "sound (tc_rw_r_unlock l)" "sound (tc_rw_w2r_lock l)"
  unfolding tc_rw_r_unlock_def tc_rw_w2r_lock_def
  by (intro safe_rules; simp add: typed_def)+

lemma bsound_rw [safe_rules]: "bsound (tc_rw_r_lock n e l)" "bsound (tc_rw_w_lock n e e2 l)"
  unfolding tc_rw_r_lock_def tc_rw_w_lock_def
  by (intro safe_rules; simp add: typed_def)+

lemma typed_init [safe_rules]:
  "typed s \<Longrightarrow> typed (tc_mutex_init m s)" "typed s \<Longrightarrow> typed (tc_rw_init l s)" "typed s \<Longrightarrow> typed (tc_signal_init g s)"
  "typed s \<Longrightarrow> typed (sss_insert g e s)" "typed s \<Longrightarrow> typed (sss_remove g e s)" "typed s \<Longrightarrow> typed (tc_mutex_change_owner m who s)"
  by (auto elim!: typed_evs simp: tc_mutex_init_def tc_rw_init_def tc_signal_init_def tc_waitq_init_def event_list_init_def sss_insert_def sss_remove_def
      tc_mutex_change_owner_def)

lemma sound_subscribe [safe_rules]: "sound (tc_signal_subscribe_exist g ss)" "sound (tc_signal_unsubscribe_nofree g ss)" "sound (tc_signal_fire g)" "sound (tc_signals_since_last_call)"
  unfolding tc_signal_subscribe_exist_def tc_signal_unsubscribe_nofree_def tc_signal_fire_def tc_signals_since_last_call_def
  by (intro safe_rules; simp add: typed_def)+

lemma sound_signal [safe_rules]: "sound (tc_signal_subscribe mm g)" "sound (tc_signal_unsubscribe g ss)" "sound (signal_cancel_pending)"
  unfolding tc_signal_subscribe_def tc_signal_unsubscribe_def signal_cancel_pending_def
  by (intro safe_rules; simp add: typed_def)+

lemma sound_destroy_loop [safe_rules]: "sound (destroy_loop g sl)"
  by (induction sl) (simp_all add: safe_rules)

lemma sound_signal_destroy [safe_rules]: "sound (tc_signal_destroy g)"
  unfolding tc_signal_destroy_def
  by (intro safe_rules; simp add: typed_def)+

section \<open>Asynchronous I/O and timers\<close>

lemma typed_aio [safe_rules]:
  "typed s \<Longrightarrow> typed (set_notify ad wqo s)" "typed s \<Longrightarrow> typed (tc_aio_set_data_free ad s)" "typed s \<Longrightarrow> typed (tc_aio_set_data_done ad s)"
  "typed s \<Longrightarrow> typed (tc_aio_set_data_pending ad s)" "typed s \<Longrightarrow> typed (io_prep ad cb s)" "typed s \<Longrightarrow> typed (tc_aio_data_init ad s)"
  "typed s \<Longrightarrow> typed (set_timer_list tf s)" "typed s \<Longrightarrow> typed (set_local v b s)" "typed s \<Longrightarrow> typed (upd_this_dom df s)"
  by (auto elim!: typed_evs simp: upd_defs tc_aio_data_init_def set_local_def upd_this_dom_def)

lemma sound_aio_submit [safe_rules]: "sound (u_tc_aio_submit_keep_notify ad)" "sound (uu_tc_aio_sync fh b ad wqo)"
  unfolding u_tc_aio_submit_keep_notify_def uu_tc_aio_sync_def
  by (intro safe_rules; simp add: typed_def)+

lemma sound_aio_sync [safe_rules]: "sound (u_tc_aio_submit ad)" "sound (tc_aio_sync_notify fh b ado wqo)"
  unfolding u_tc_aio_submit_def tc_aio_sync_notify_def
  by (intro safe_rules; simp add: typed_def)+

lemma sound_aio_cond [safe_rules]: "sound (aio_sync_cond fh b ad wq v)"
  unfolding aio_sync_cond_def
  by (intro safe_rules; simp add: typed_def)+

lemma bsound_aio_slot [safe_rules]: "bsound (aio_wait_slot n e tc i rv)"
  unfolding aio_wait_slot_def
  by (intro safe_rules; simp add: typed_def)+

lemma bsound_aio_wait_loop [safe_rules]: "bsound (aio_wait_loop n e tc slots rv)"
  by (induction slots arbitrary: rv) (simp_all add: safe_rules)

lemma bsound_aio_wait [safe_rules]: "bsound (tc_aio_wait n e)"
  unfolding tc_aio_wait_def
  by (intro safe_rules; simp add: typed_def)+

lemma bsound_get_aio_data [safe_rules]: "bsound (u_tc_aio_get_aio_data k n e)"
proof (induction k)
  case (Suc k)
  then show ?case unfolding u_tc_aio_get_aio_data.simps by (intro safe_rules; simp)
qed (simp add: safe_rules)

lemma bsound_with_aio [safe_rules]: "(\<And>ad. bsound (body ad)) \<Longrightarrow> bsound (with_aio_data k n e ado failed body)"
  unfolding with_aio_data_def
  by (intro safe_rules; simp add: typed_def)+

lemma bsound_aio [safe_rules]: "bsound (tc_aio_submit_sync_notify k n e fd b ado wqo)" "bsound (tc_aio_submit_write_notify k n e fh buf sz offs ado wqo)" "bsound (tc_aio_read k n e fh buf sz offs)" "bsound (tc_aio_sync n e ad wq v fd b)"
  unfolding tc_aio_submit_sync_notify_def tc_aio_submit_write_notify_def tc_aio_read_def tc_aio_sync_def
  by (intro safe_rules; simp add: typed_def)+

lemma bsound_aio_write [safe_rules]: "bsound (tc_aio_submit_write k n e fh buf sz offs)" "bsound (tc_aio_write k n e fh buf sz offs)"
  unfolding tc_aio_write_def tc_aio_submit_write_def
  by (intro safe_rules; simp add: typed_def)+

lemma sound_timers [safe_rules]: "sound (lock_timers)" "sound (unlock_timers)" "sound (timerfd_reprogram_valid ts)" "sound (waiting_done tw)"
  unfolding lock_timers_def unlock_timers_def timerfd_reprogram_valid_def waiting_done_def
  by (intro safe_rules; simp add: typed_def)+

lemma sound_timer_list [safe_rules]: "sound (remove_from_timer_list_wakeup tw)" "sound (insert_into_timer_list tw)" "sound (sleep_cond hl wd tw)"
  unfolding remove_from_timer_list_wakeup_def insert_into_timer_list_def sleep_cond_def
  by (intro safe_rules; simp add: typed_def)+

lemma sound_expire_loop [safe_rules]: "sound (expire_loop ts ws)"
proof (induction ws)
  case (Cons w ws)
  then show ?case unfolding expire_loop.simps by (intro safe_rules; simp)
qed (simp add: safe_rules)

lemma sound_expire [safe_rules]: "sound (expire_timers)" "sound (sleep_quit hl tw rv)" "sound (sleep_begin hl wd tw clk sec nsec)"
  unfolding expire_timers_def sleep_quit_def sleep_begin_def
  by (intro safe_rules; simp add: typed_def)+

lemma bsound_sleep_master [safe_rules]: "bsound (sleep_master k e tw)"
proof (induction k)
  case (Suc k)
  then show ?case unfolding sleep_master.simps by (intro safe_rules; simp)
qed (simp add: safe_rules)

lemma bsound_sleep [safe_rules]: "bsound (tc_sleep k n e hl wd tw clk sec nsec)"
  unfolding tc_sleep_def
  by (intro safe_rules; simp add: typed_def)+

section \<open>Threads, domains and workers\<close>

lemma sound_thread_setup [safe_rules]: "sound (u_tc_thread_setup tm ok name)" "sound (u_tc_thread_insert tc)" "sound (tc_die_unlist tc)" "sound (tc_thread_var_set vd)"
  unfolding u_tc_thread_setup_def u_tc_thread_insert_def tc_die_unlist_def tc_thread_var_set_def
  by (intro safe_rules; simp add: typed_def)+

lemma sound_thread_new [safe_rules]: "sound (u_tc_thread_new tm ok name)" "sound (wait_ref_enter e t dm i)"
  unfolding u_tc_thread_new_def wait_ref_enter_def
  by (intro safe_rules; simp add: typed_def)+

lemma sound_other_domain [safe_rules]: "sound m \<Longrightarrow> sound (with_other_domain dm m)"
  unfolding with_other_domain_def
  by (intro safe_rules; simp add: typed_def)+

lemma sound_new_ref [safe_rules]: "sound (tc_thread_new_ref_in_domain tm ok name dm)" "sound (pool_thread p mems oks names dm i)"
  unfolding tc_thread_new_ref_in_domain_def pool_thread_def
  by (intro safe_rules; simp add: typed_def)+

lemma sound_pool [safe_rules]: "sound (tc_thread_new_ref tm ok name)" "sound (tc_thread_pool_new_in_domain p mems oks names ex dm)"
  unfolding tc_thread_new_ref_def tc_thread_pool_new_in_domain_def
  by (intro safe_rules; simp add: typed_def)+

lemma sound_pool_new [safe_rules]: "sound (tc_thread_new tm ok name)" "sound (tc_thread_pool_new p mems oks names ex)"
  unfolding tc_thread_new_def tc_thread_pool_new_def
  by (intro safe_rules; simp add: typed_def)+

lemma bsound_die_leave [safe_rules]: "bsound (tc_die_leave n e)" "bsound (tc_thread_wait_ref e ref)"
  unfolding tc_die_leave_def tc_thread_wait_ref_def
  by (intro safe_rules; simp add: typed_def)+

lemma bsound_die [safe_rules]: "bsound (tc_die n e)" "bsound (tc_thread_wait_domain e tc dm)"
  unfolding tc_die_def tc_thread_wait_domain_def
  by (intro safe_rules; simp add: typed_def)+

lemma bsound_setup [safe_rules]: "bsound m \<Longrightarrow> bsound (tc_setup n e m)" "bsound (tc_thread_wait e tc)"
  unfolding tc_setup_def tc_thread_wait_def
  by (intro safe_rules; simp add: typed_def)+

lemma bsound_pool_wait_loop [safe_rules]: "bsound (pool_wait_loop j k n e hl wd tw p dm rv)"
proof (induction j arbitrary: rv)
  case (Suc j)
  then show ?case unfolding pool_wait_loop.simps by (intro safe_rules; simp)
qed (simp add: safe_rules)

lemma bsound_pool_wait [safe_rules]: "bsound (tc_thread_pool_wait j k n e hl wd tw p)"
  unfolding tc_thread_pool_wait_def
  by (intro safe_rules; simp add: typed_def)+

lemma bsound_parallel [safe_rules]: "bsound (tc_parallel_for p mems oks names j k n e hl wd tw)" "bsound m \<Longrightarrow> bsound (tc_parallel tm ok name e m)"
  unfolding tc_parallel_for_def tc_parallel_def
  by (intro safe_rules; simp add: typed_def)+

lemma bsound_no_intr [safe_rules]: "bsound m \<Longrightarrow> bsound (TC_NO_INTR k m)"
proof (induction k)
  case (Suc k)
  then show ?case unfolding TC_NO_INTR.simps by (intro safe_rules; simp)
qed (simp add: safe_rules)

lemma sound_domain [safe_rules]: "sound (new_domain dmem)" "sound (tc_set_stack_size i)" "sound (init_lock lk)" "sound (tc_aio_init)" "sound (start_pthreads dm b)" "sound (tc_renice_domain dmo i)"
  unfolding new_domain_def tc_set_stack_size_def init_lock_def tc_aio_init_def start_pthreads_def tc_renice_domain_def
  by (intro safe_rules; simp add: typed_def)+

lemma sound_tc_init [safe_rules]: "sound (tc_init b)"
  unfolding tc_init_def
  by (intro safe_rules; simp add: typed_def)+

lemma sound_setup_domain [safe_rules]: "sound (u_setup_domain b dm i)"
  unfolding u_setup_domain_def
  by (intro safe_rules; simp add: typed_def)+

lemma sound_new_domain [safe_rules]: "sound (tc_new_domain dmem b i)" "sound (tc_run_start dmem b tm ok name i)"
  unfolding tc_new_domain_def tc_run_start_def
  by (intro safe_rules; simp add: typed_def)+

lemma sound_worker_threads [safe_rules]: "sound (init_main_thread i mt nm)" "sound (init_sched_p2 i mt)"
  unfolding init_main_thread_def init_sched_p2_def
  by (intro safe_rules; simp add: typed_def)+

lemma sound_worker_initialize [safe_rules]: "sound (u_worker_initialize wb i)"
  unfolding u_worker_initialize_def
  by (intro safe_rules; simp add: typed_def)+

lemma sound_worker_init [safe_rules]: "sound (tc_worker_init wb)"
  unfolding tc_worker_init_def
  by (intro safe_rules; simp add: typed_def)+

lemma bsound_tc_main [safe_rules]: "bsound (uu_tc_main wb e)"
  unfolding uu_tc_main_def
  by (intro safe_rules; simp add: typed_def)+

lemma bsound_call_tc_main [safe_rules]: "bsound (call_tc_main wb e)"
  unfolding call_tc_main_def
  by (intro safe_rules; simp add: typed_def)+

lemma bsound_tc_run [safe_rules]: "bsound (worker_pthread wb e dm)" "bsound (tc_run dmem b tm ok wb e name i)"
  unfolding worker_pthread_def tc_run_def
  by (intro safe_rules; simp add: typed_def)+

section \<open>The public functions\<close>

text \<open>A call, without its result. \<open>api\<close> holds of the calls of the functions in \<^verbatim>\<open>threaded_cr.h\<close>, of what a new thread and a worker execute (\<open>tc_setup\<close>,
  \<open>worker_pthread\<close>, \<open>scheduler_part2\<close>) and of the switch to another pthread. Where the caller passes a condition, a function or a flag of its own, these must keep the invariant too.\<close>

definition call :: "'a bop \<Rightarrow> tcr \<times> env \<Rightarrow> fault + tcr \<times> env" where
  "call m x = (case m x of Inl f \<Rightarrow> Inl f | Inr (_, y) \<Rightarrow> Inr y)"

definition continue_as :: "wid \<Rightarrow> did \<Rightarrow> tid \<Rightarrow> tcr \<Rightarrow> tcr" where
  "continue_as w d t s = s\<lparr>this_worker := w, this_domain := d, cr_current := t\<rparr>"

inductive api :: "(tcr \<times> env \<Rightarrow> fault + tcr \<times> env) \<Rightarrow> bool" where
  A_waitq_init: "api (call (lift (mdf (tc_waitq_init wq))))"
| A_mutex_init: "api (call (lift (mdf (tc_mutex_init m))))"
| A_mutex_change_owner: "api (call (lift (mdf (tc_mutex_change_owner m who))))"
| A_rw_init: "api (call (lift (mdf (tc_rw_init l))))"
| A_signal_init: "api (call (lift (mdf (tc_signal_init g))))"
| A_event_init: "api (call (lift (mdf (tc_event_init e))))"
| A_aio_data_init: "api (call (lift (mdf (tc_aio_data_init ad))))"
| A_aio_done: "api (call (lift (mdf (tc_aio_set_data_done ad))))"
| A_aio_free: "api (call (lift (mdf (tc_aio_set_data_free ad))))"
| A_aio_pending: "api (call (lift (mdf (tc_aio_set_data_pending ad))))"
| A_wakeup_all: "api (call (lift (tc_waitq_wakeup_all wq)))"
| A_wakeup_one: "api (call (lift (tc_waitq_wakeup_one wq)))"
| A_waitq_unregister: "api (call (lift (tc_waitq_unregister wq)))"
| A_prepare: "api (call (lift (tc_waitq_prepare_to_wait wq e)))"
| A_finish: "api (call (lift (tc_waitq_finish_wait wqo e)))"
| A_mutex_unlock: "api (call (lift (tc_mutex_unlock m)))"
| A_mutex_trylock: "api (call (lift (tc_mutex_trylock m)))"
| A_mutex_destroy: "api (call (lift (tc_mutex_destroy m)))"
| A_rw_w_trylock: "api (call (lift (tc_rw_w_trylock l)))"
| A_rw_r_unlock: "api (call (lift (tc_rw_r_unlock l)))"
| A_rw_w_unlock: "api (call (lift (tc_rw_w_unlock l)))"
| A_rw_w2r: "api (call (lift (tc_rw_w2r_lock l)))"
| A_subscribe: "api (call (lift (tc_signal_subscribe mm g)))"
| A_subscribe_exist: "api (call (lift (tc_signal_subscribe_exist g ss)))"
| A_unsubscribe: "api (call (lift (tc_signal_unsubscribe g ss)))"
| A_unsubscribe_nofree: "api (call (lift (tc_signal_unsubscribe_nofree g ss)))"
| A_fire: "api (call (lift (tc_signal_fire g)))"
| A_signal_destroy: "api (call (lift (tc_signal_destroy g)))"
| A_signals_since: "api (call (lift (tc_signals_since_last_call)))"
| A_register_fd: "api (call (lift (tc_register_fd fm fd)))"
| A_register_fd_mem: "api (call (lift (tc_register_fd_mem_still_blocking fd tcfd)))"
| A_unregister_fd: "api (call (lift (tc_unregister_fd tcfd)))"
| A_unregister_fd_mem: "api (call (lift (tc_unregister_fd_mem tcfd)))"
| A_rearm: "api (call (lift (tc_rearm tcfd)))"
| A_aio_sync_notify: "api (call (lift (tc_aio_sync_notify fd b ado wqo)))"
| A_var_set: "api (call (lift (tc_thread_var_set vd)))"
| A_thread_new: "api (call (lift (tc_thread_new tm ok name)))"
| A_thread_new_ref: "api (call (lift (tc_thread_new_ref tm ok name)))"
| A_thread_new_ref_in_domain: "api (call (lift (tc_thread_new_ref_in_domain tm ok name dm)))"
| A_pool_new: "api (call (lift (tc_thread_pool_new p mems oks names ex)))"
| A_pool_new_in_domain: "api (call (lift (tc_thread_pool_new_in_domain p mems oks names ex dm)))"
| A_new_domain: "api (call (lift (tc_new_domain dmem bt i)))"
| A_renice: "api (call (lift (tc_renice_domain dmo i)))"
| A_stack_size: "api (call (lift (tc_set_stack_size i)))"
| A_worker_init: "api (call (lift (tc_worker_init wb)))"
| A_scheduler: "api (call (tc_scheduler))"
| A_yield: "api (call (tc_sched_yield e))"
| A_waitq_wait: "api (call (tc_waitq_wait e wq))"
| A_wait_fd: "api (call (tc_wait_fd e ep tcfd))"
| A_wait_fd_prio: "api (call (tc_wait_fd_prio e ep tcfd))"
| A_mutex_lock: "api (call (tc_mutex_lock n e m))"
| A_rw_r_lock: "api (call (tc_rw_r_lock n e l))"
| A_rw_w_lock: "api (call (tc_rw_w_lock n e e' l))"
| A_sleep: "api (call (tc_sleep k n e hl wd tw clk sec nsec))"
| A_aio_wait: "api (call (tc_aio_wait n e))"
| A_aio_submit_sync: "api (call (tc_aio_submit_sync_notify k n e fd b ado wqo))"
| A_aio_submit_write_notify: "api (call (tc_aio_submit_write_notify k n e fd buf sz offs ado wqo))"
| A_aio_submit_write: "api (call (tc_aio_submit_write k n e fd buf sz offs))"
| A_aio_read: "api (call (tc_aio_read k n e fd buf sz offs))"
| A_aio_write: "api (call (tc_aio_write k n e fd buf sz offs))"
| A_aio_sync: "api (call (tc_aio_sync n e ad wq v fd b))"
| A_thread_wait_ref: "api (call (tc_thread_wait_ref e ref))"
| A_thread_wait_domain: "api (call (tc_thread_wait_domain e tc dm))"
| A_thread_wait: "api (call (tc_thread_wait e tc))"
| A_pool_wait: "api (call (tc_thread_pool_wait j k n e hl wd tw p))"
| A_die: "api (call (tc_die n e))"
| A_parallel_for: "api (call (tc_parallel_for p mems oks names j k n e hl wd tw))"
| A_run: "api (call (tc_run dmem bt tm ok wb e name i))"
| A_worker_pthread: "api (call (worker_pthread wb e dm))"
| A_wait_event: "sound c \<Longrightarrow> api (call (tc_waitq_wait_event n wq e c))"
| A_u_wait_fd: "ef \<noteq> EF_SIGNAL \<Longrightarrow> api (call (u_tc_wait_fd e ep tcfd ef))"
| A_parallel: "bsound f \<Longrightarrow> api (call (tc_parallel tm ok name e f))"
| A_no_intr: "bsound w \<Longrightarrow> api (call (TC_NO_INTR k w))"
| A_setup: "bsound f \<Longrightarrow> api (call (tc_setup n e f))"
| A_part2: "\<forall>i \<in> set rounds. typed_input i \<Longrightarrow> api (call (scheduler_part2 rounds))"
| A_pthread: "api (call (lift (mdf (continue_as w d t))))"

inductive api_step :: "tcr \<times> env \<Rightarrow> tcr \<times> env \<Rightarrow> bool" where
  call: "api f \<Longrightarrow> f x = Inr y \<Longrightarrow> api_step x y"

text \<open>The process starts with zeroed memory.\<close>

definition api_start :: "tcr \<times> env \<Rightarrow> bool" where
  "api_start x \<longleftrightarrow> evs (fst x) = (\<lambda>_. zero_event) \<and> (\<forall>g \<in> set (snd x). \<forall>s. typed s \<longrightarrow> typed (g s))"

lemma call_safe: "bsound m \<Longrightarrow> typed_run x \<Longrightarrow> case call m x of Inl f \<Rightarrow> f \<notin> wrong_member | Inr y \<Rightarrow> typed_run y"
  by (drule (1) safeD) (auto simp: call_def split: sum.splits)

lemma api_safe: "api f \<Longrightarrow> typed_run x \<Longrightarrow> case f x of Inl f \<Rightarrow> f \<notin> wrong_member | Inr y \<Rightarrow> typed_run y"
proof (induction rule: api.induct)
  case (A_part2 rounds)
  then show ?case using call_safe bsound_part2 by blast
next
  case (A_pthread w d t)
  have "bsound (lift (mdf (continue_as w d t)))" by (intro safe_rules) (simp add: continue_as_def typed_def)
  then show ?case using A_pthread by (rule call_safe)
qed (rule call_safe, (intro safe_rules; simp), simp)+

interpretation api_sys: inv_system api_start api_step typed_run
proof
  show "typed_run x" if "api_start x" for x
    using that by (simp add: api_start_def typed_run_def typed_def)
  show "typed_run y" if "typed_run x" "api_step x y" for x y
    using that(2) api_safe that(1) by (cases rule: api_step.cases) fastforce
qed

text \<open>C8: Type safety of the union in \<^verbatim>\<open>struct event\<close>. In every state that calls of the library's functions reach from zeroed memory, in whatever order and by whichever pthreads,
  every event with the flag \<^verbatim>\<open>EF_SIGNAL\<close> has the member \<^verbatim>\<open>signal\<close> in its union, and no call of any function reads that member of an event that holds another one.\<close>

theorem union_typed:
  assumes "reach api_start api_step x" and "api f"
  shows "(ev_flags (evs (fst x) e) = EF_SIGNAL \<longrightarrow> (\<exists>g. ev_u (evs (fst x) e) = Signal g)) \<and> f x \<noteq> Inl (Null_deref ''e->signal'')"
proof -
  have t: "typed_run x" by (rule api_sys.reach_inv [OF assms(1)])
  then have "signal_of (evs (fst x) e) \<noteq> None" if "ev_flags (evs (fst x) e) = EF_SIGNAL"
    using that by (simp add: typed_run_def typed_def)
  moreover have "f x \<noteq> Inl (Null_deref ''e->signal'')"
    using api_safe [OF assms(2) t] by (auto simp: wrong_member_def)
  ultimately show ?thesis by (auto simp: signal_of_def split: event_union.splits)
qed

theorem union_typed_witness:
  "\<exists>y. call (lift (tc_signal_subscribe (Some 9) 2)) (process_image, []) = Inr y \<and> (\<exists>g. ev_u (evs (fst y) 9) = Signal g) \<and>
     call (lift (tc_signal_fire 2)) y \<noteq> Inl (Null_deref ''e->signal'')"
proof -
  obtain y where y: "call (lift (tc_signal_subscribe (Some 9) 2)) (process_image, []) = Inr y" "ev_flags (evs (fst y) 9) = EF_SIGNAL"
    by (simp add: call_def tc_signal_subscribe_def tc_signal_subscribe_exist_def u_tc_waitq_prepare_to_wait_def signal_event_def tc_event_init_def u_add_event_def set_el_def
        clear_woken_def sss_insert_def op_defs upd_defs tc_current_def)
  have "api_start (process_image, [])" by (simp add: api_start_def process_image_def)
  then have "reach api_start api_step (process_image, [])" by (rule reach_init)
  moreover have "api_step (process_image, []) y" using y(1) by (rule api_step.call [OF A_subscribe])
  ultimately have "reach api_start api_step y" by (rule reach_step)
  from union_typed [OF this A_fire, of 9 2] y show ?thesis by auto
qed

end
