(* ===== verification/Debugging.thy ===== *)
theory Debugging
  imports Domains
begin

text \<open>
  The debugging aids that \<^verbatim>\<open>WAIT_DEBUG\<close> enables: the place in the program where a thread waits, which the wrapper macros of \<^verbatim>\<open>threaded_cr.h\<close> and the scheduler
  keep up to date, and \<^verbatim>\<open>tc_dump_threads\<close>, which walks over the ring of domains. The ring is built by \<^verbatim>\<open>tc_run\<close> and \<^verbatim>\<open>tc_new_domain\<close>.

  The variables of \<^verbatim>\<open>WAIT_DEBUG\<close> exist only in that configuration and are kept in a record of their own. The addresses that \<^verbatim>\<open>tc_dump_threads\<close> prints are left out.
\<close>

section \<open>Where a thread waits\<close>

type_synonym loc = "string \<times> int"

definition untracked :: loc where
  "untracked = (''untracked tc_scheduler() call'', 0)"

text \<open>\<^verbatim>\<open>_caller_file\<close> and \<^verbatim>\<open>_caller_line\<close> of every pthread, \<^verbatim>\<open>sleep_file\<close> and \<^verbatim>\<open>sleep_line\<close> of every thread, and whether its \<^verbatim>\<open>last_worker\<close> is a null
  pointer: \<^verbatim>\<open>_tc_thread_setup\<close> copies the worker of the calling pthread, and \<^verbatim>\<open>tc_run\<close> creates the main thread before there is one.\<close>

record wait_debug =
  caller_loc :: "wid \<Rightarrow> loc"
  sleep_loc :: "tid \<Rightarrow> loc"
  no_worker :: "tid \<Rightarrow> bool"

definition SET_CALLER :: "loc \<Rightarrow> wid \<Rightarrow> wait_debug \<Rightarrow> wait_debug" where
  "SET_CALLER l w g = g\<lparr>caller_loc := (caller_loc g)(w := l)\<rparr>"

definition UNSET_CALLER :: "wid \<Rightarrow> wait_debug \<Rightarrow> wait_debug" where
  "UNSET_CALLER w g = g\<lparr>caller_loc := (caller_loc g)(w := untracked)\<rparr>"

text \<open>In \<^verbatim>\<open>tc_scheduler\<close>, when the thread stops running, in \<^verbatim>\<open>run_or_queue\<close>, when it is taken to run, in \<^verbatim>\<open>_tc_thread_setup\<close> and in \<^verbatim>\<open>switch_to\<close>.\<close>

definition note_wait :: "wid \<Rightarrow> tid \<Rightarrow> wait_debug \<Rightarrow> wait_debug" where
  "note_wait w t g = g\<lparr>sleep_loc := (sleep_loc g)(t := caller_loc g w)\<rparr>"

definition note_run :: "tid \<Rightarrow> wait_debug \<Rightarrow> wait_debug" where
  "note_run t g = g\<lparr>sleep_loc := (sleep_loc g)(t := (''running'', 0))\<rparr>"

definition note_new :: "tid \<Rightarrow> tcr \<Rightarrow> wait_debug \<Rightarrow> wait_debug" where
  "note_new t s g = g\<lparr>no_worker := (no_worker g)(t := \<not> has_worker s)\<rparr>"

definition note_switch :: "tid \<Rightarrow> wait_debug \<Rightarrow> wait_debug" where
  "note_switch t g = g\<lparr>no_worker := (no_worker g)(t := False)\<rparr>"

text \<open>A wrapped call that waits several times: it begins on pthread \<open>w\<close>, and after each wait goes on where the list says.\<close>

fun wrapped_waits :: "tid \<Rightarrow> wid \<Rightarrow> wid list \<Rightarrow> wait_debug \<Rightarrow> wid \<times> wait_debug" where
  "wrapped_waits t w [] g = (w, g)"
| "wrapped_waits t w (v # vs) g = wrapped_waits t v vs (note_run t (note_wait w t g))"

definition wrapped_call :: "loc \<Rightarrow> tid \<Rightarrow> wid \<Rightarrow> wid list \<Rightarrow> wait_debug \<Rightarrow> wait_debug" where
  "wrapped_call l t w vs g = (case wrapped_waits t w vs (SET_CALLER l w g) of (v, g') \<Rightarrow> UNSET_CALLER v g')"

definition idle_debug :: wait_debug where
  "idle_debug = \<lparr>caller_loc = (\<lambda>_. untracked), sleep_loc = (\<lambda>_. (''running'', 0)), no_worker = (\<lambda>_. False)\<rparr>"

lemma waits_caller: "fst (wrapped_waits t w vs g) = last (w # vs)" "caller_loc (snd (wrapped_waits t w vs g)) = caller_loc g"
  by (induction vs arbitrary: w g) (simp_all add: note_run_def note_wait_def)

text \<open>On one pthread the place is known during the wait, and forgotten after it.\<close>

lemma wrapped_call_stays:
  assumes "set vs \<subseteq> {w}"
  shows "caller_loc (wrapped_call l t w vs idle_debug) = (\<lambda>_. untracked)"
proof -
  have "last (w # vs) = w" using assms by (cases vs) (auto dest: last_in_set)
  then show ?thesis
    using waits_caller [of t w vs "SET_CALLER l w idle_debug"]
    by (auto simp: wrapped_call_def UNSET_CALLER_def SET_CALLER_def idle_debug_def split: prod.splits)
qed

text \<open>A thread that moves to another pthread leaves the place behind: later calls of \<^verbatim>\<open>tc_scheduler\<close> on the first pthread are ascribed to it, and a
  second wait of the same call is not tracked at all.\<close>

lemma wrapped_call_moves:
  assumes "v \<noteq> w"
  shows "sleep_loc (note_wait w u (wrapped_call l t w [v] idle_debug)) u = l"
    and "sleep_loc (note_wait v t (snd (wrapped_waits t w [v] (SET_CALLER l w idle_debug)))) t = untracked"
  using assms by (simp_all add: wrapped_call_def UNSET_CALLER_def SET_CALLER_def idle_debug_def note_wait_def note_run_def)

section \<open>The ring of domains\<close>

definition domain_ring :: "tcr \<Rightarrow> did list \<Rightarrow> bool" where
  "domain_ring s ds \<longleftrightarrow> ds \<noteq> [] \<and> distinct ds \<and> map (\<lambda>d. domain_chain (doms s d)) ds = tl ds @ [hd ds]"

datatype dump_entry = Dump_domain did | Dump_waiting tid string wid int loc | Dump_running tid string wid int

text \<open>\<^verbatim>\<open>strcasestr\<close> of the C library, for ASCII.\<close>

definition lower_char :: "char \<Rightarrow> char" where
  "lower_char c = (if 65 \<le> (of_char c :: nat) \<and> (of_char c :: nat) \<le> 90 then char_of ((of_char c :: nat) + 32) else c)"

definition strcasestr :: "string \<Rightarrow> string \<Rightarrow> bool" where
  "strcasestr h n = list_ex (\<lambda>i. take (length n) (drop i (map lower_char h)) = map lower_char n) [0..<Suc (length h)]"

text \<open>A search string at an address of at most 4096, the number of a signal for instance, counts as none.\<close>

definition dump_search :: "(nat \<times> string) option \<Rightarrow> string option" where
  "dump_search p = (case p of None \<Rightarrow> None | Some (a, x) \<Rightarrow> if a \<le> 4096 then None else Some x)"

definition dump_thread :: "wait_debug \<Rightarrow> tcr \<Rightarrow> tid \<Rightarrow> dump_entry" where
  "dump_thread g s t = (let w = last_worker (thr s t) in
     if snd (sleep_loc g t) \<noteq> 0 then Dump_waiting t (tc_name (thr s t)) w (w_tid (wrk s w)) (sleep_loc g t)
     else Dump_running t (tc_name (thr s t)) w (w_tid (wrk s w)))"

text \<open>Both messages show \<^verbatim>\<open>t->last_worker->tid\<close>.\<close>

definition dump_match :: "string option \<Rightarrow> tcr \<Rightarrow> tid \<Rightarrow> bool" where
  "dump_match search s t = (case search of None \<Rightarrow> True | Some x \<Rightarrow> strcasestr (tc_name (thr s t)) x)"

fun dump_list :: "string option \<Rightarrow> wait_debug \<Rightarrow> tcr \<Rightarrow> tid list \<Rightarrow> fault + dump_entry list" where
  "dump_list search g s [] = Inr []"
| "dump_list search g s (t # ts) = (if \<not> dump_match search s t then dump_list search g s ts
     else if no_worker g t then Inl (Null_deref ''t->last_worker'') else map_sum id (Cons (dump_thread g s t)) (dump_list search g s ts))"

definition dump_domain :: "string option \<Rightarrow> wait_debug \<Rightarrow> tcr \<Rightarrow> did \<Rightarrow> fault + dump_entry list" where
  "dump_domain search g s d = map_sum id (Cons (Dump_domain d)) (dump_list search g s (d_threads (doms s d)))"

text \<open>The loop over the domains, at most \<open>k\<close> of them.\<close>

fun dump_loop :: "nat \<Rightarrow> string option \<Rightarrow> wait_debug \<Rightarrow> tcr \<Rightarrow> did \<Rightarrow> fault + dump_entry list" where
  "dump_loop 0 search g s d = Inl Out_of_fuel"
| "dump_loop (Suc k) search g s d = (case dump_domain search g s d of Inl f \<Rightarrow> Inl f | Inr out \<Rightarrow>
     let next = domain_chain (doms s d) in
     if this_domain s = next then Inr out else map_sum id (append out) (dump_loop k search g s next))"

definition tc_dump_threads :: "nat \<Rightarrow> (nat \<times> string) option \<Rightarrow> wait_debug \<Rightarrow> tcr \<Rightarrow> fault + dump_entry list" where
  "tc_dump_threads k p g s = dump_loop k (dump_search p) g s (this_domain s)"

text \<open>What the dump of one domain should be, when every thread has a worker.\<close>

definition domain_report :: "string option \<Rightarrow> wait_debug \<Rightarrow> tcr \<Rightarrow> did \<Rightarrow> dump_entry list" where
  "domain_report search g s d = Dump_domain d # map (dump_thread g s) (filter (dump_match search s) (d_threads (doms s d)))"

definition placed :: "wait_debug \<Rightarrow> tcr \<Rightarrow> did list \<Rightarrow> bool" where
  "placed g s ds = (\<forall>d \<in> set ds. \<forall>t \<in> set (d_threads (doms s d)). \<not> no_worker g t)"

lemma dump_list_placed:
  assumes "\<forall>t \<in> set ts. \<not> no_worker g t"
  shows "dump_list search g s ts = Inr (map (dump_thread g s) (filter (dump_match search s) ts))"
  using assms by (induction ts) auto

lemma dump_domain_placed: "placed g s (d # ds) \<Longrightarrow> dump_domain search g s d = Inr (domain_report search g s d)"
  by (simp add: dump_domain_def domain_report_def placed_def dump_list_placed)

text \<open>A dump before the main thread has run follows the null pointer.\<close>

lemma dump_before_run:
  assumes "d_threads (doms s (this_domain s)) = [t]" and "no_worker g t" and "0 < k"
  shows "tc_dump_threads k None g s = Inl (Null_deref ''t->last_worker'')"
  using assms by (cases k) (simp_all add: tc_dump_threads_def dump_search_def dump_domain_def dump_match_def)

lemma dump_loop_ring:
  assumes "map (\<lambda>d. domain_chain (doms s d)) (d # ds) = ds @ [this_domain s]" and "this_domain s \<notin> set ds" and "length ds < k" and "placed g s (d # ds)"
  shows "dump_loop k search g s d = Inr (concat (map (domain_report search g s) (d # ds)))"
  using assms
proof (induction ds arbitrary: d k)
  case Nil
  then show ?case by (cases k) (auto simp: Let_def dump_domain_placed)
next
  case (Cons e ds)
  then obtain j where k: "k = Suc j" "length ds < j" by (cases k) auto
  have "dump_loop j search g s e = Inr (concat (map (domain_report search g s) (e # ds)))"
    using Cons.prems k by (intro Cons.IH) (auto simp: placed_def)
  then show ?case using Cons.prems k by (simp add: Let_def dump_domain_placed)
qed

lemma dump_ring:
  assumes "domain_ring s (this_domain s # ds)" and "length ds < k" and "placed g s (this_domain s # ds)"
  shows "tc_dump_threads k p g s = Inr (concat (map (domain_report (dump_search p) g s) (this_domain s # ds)))"
  unfolding tc_dump_threads_def by (rule dump_loop_ring) (use assms in \<open>auto simp: domain_ring_def\<close>)



text \<open>The ring starts with the domain of \<^verbatim>\<open>tc_run\<close>.\<close>

lemma first_ring: "domain_chain (doms s d) = d \<Longrightarrow> domain_ring s [d]"
  by (simp add: domain_ring_def)

end
