(* ===== verification/Compat.thy ===== *)
theory Compat
  imports Domains
begin

text \<open>
  \<^verbatim>\<open>compat.h\<close>: the replacement of \<^verbatim>\<open>CPU_COUNT\<close> for \<^verbatim>\<open>HAVE__RHEL5\<close>, and the functions around system calls that an old C library lacks, which are calls of the model
  elsewhere (\<open>Eventfd\<close>, \<open>Timerfd_create\<close>, \<open>Timerfd_settime\<close>, \<open>Tgkill\<close>). The rest of the file is macros for compile-time assertions.
\<close>

unbundle bit_operations_syntax

section \<open>Counting CPUs\<close>

text \<open>\<^verbatim>\<open>__builtin_popcount\<close> of GCC takes an \<^verbatim>\<open>unsigned int\<close>.\<close>

definition builtin_popcount :: "u32 \<Rightarrow> nat" where
  "builtin_popcount x = length (filter (bit x) [0..<32])"

text \<open>\<^verbatim>\<open>__bits\<close> is an array of \<^verbatim>\<open>unsigned long\<close>, 16 of them for 1024 CPUs.\<close>

definition CPU_COUNT_rhel5 :: "64 word list \<Rightarrow> int" where
  "CPU_COUNT_rhel5 bits = sint (foldl (\<lambda>n b. n + of_nat (builtin_popcount (ucast b))) (0 :: u32) bits)"

text \<open>The same mask as the list of its bits, which is how the rest of the development has it.\<close>

definition mask_bits :: "64 word list \<Rightarrow> bool list" where
  "mask_bits bits = concat (map (\<lambda>b. map (bit b) [0..<64]) bits)"

definition low_cpus :: "64 word list \<Rightarrow> nat" where
  "low_cpus bits = sum_list (map (\<lambda>b. length (filter (bit b) [0..<32])) bits)"

lemma popcount_low: "builtin_popcount (ucast (b :: 64 word)) = length (filter (bit b) [0..<32])"
  by (auto simp: builtin_popcount_def bit_simps intro!: arg_cong [of _ _ length] filter_cong)

lemma fold_low_cpus: "foldl (\<lambda>n b. n + of_nat (builtin_popcount (ucast b))) (x :: u32) bits = x + of_nat (low_cpus bits)"
  by (induction bits arbitrary: x) (simp_all add: low_cpus_def popcount_low)

lemma low_cpus_bound: "low_cpus bits \<le> 32 * length bits"
proof (induction bits)
  case (Cons b bits)
  have "length (filter (bit b) [0..<32]) \<le> 32" using length_filter_le [of "bit b" "[0..<32]"] by simp
  with Cons show ?case by (simp add: low_cpus_def)
qed (simp add: low_cpus_def)

lemma rhel5_low_cpus:
  assumes "length bits = 16"
  shows "CPU_COUNT_rhel5 bits = int (low_cpus bits)"
proof -
  have "low_cpus bits \<le> 512" using low_cpus_bound [of bits] assms by simp
  then have "signed_take_bit 31 (int (low_cpus bits)) = int (low_cpus bits)"
    by (intro signed_take_bit_int_eq_self) auto
  then show ?thesis by (simp add: CPU_COUNT_rhel5_def fold_low_cpus signed_of_nat)
qed

lemma length_mask_bits [simp]: "length (mask_bits bits) = 64 * length bits"
  by (induction bits) (simp_all add: mask_bits_def)

lemma low_half: "length (filter (\<lambda>i. i < 32 \<and> bit (b :: 64 word) i) [0..<64]) = length (filter (bit b) [0..<32])"
proof -
  have "[0..<64] = [0..<32] @ [32..<64]" using upt_add_eq_append [of 0 32 32] by simp
  moreover have "filter (\<lambda>i. i < 32 \<and> bit b i) [32..<64] = []" by (auto simp: filter_empty_conv)
  moreover have "filter (\<lambda>i. i < 32 \<and> bit b i) [0..<32] = filter (bit b) [0..<32]" by (rule filter_cong) auto
  ultimately show ?thesis by simp
qed

lemma low_cpus_eq: "length (filter (\<lambda>ci. ci mod 64 < 32 \<and> mask_bits bits ! ci) [0..<64 * length bits]) = low_cpus bits"
proof (induction bits rule: rev_induct)
  case (snoc b bits)
  let ?n = "64 * length bits"
  have m: "mask_bits (bits @ [b]) = mask_bits bits @ map (bit b) [0..<64]" by (simp add: mask_bits_def)
  have "[0..<64 * length (bits @ [b])] = [0..<?n] @ map (\<lambda>i. i + ?n) [0..<64]"
    using upt_add_eq_append [of 0 ?n 64] by (simp add: map_add_upt add.commute)
  moreover have "filter (\<lambda>ci. ci mod 64 < 32 \<and> mask_bits (bits @ [b]) ! ci) [0..<?n] = filter (\<lambda>ci. ci mod 64 < 32 \<and> mask_bits bits ! ci) [0..<?n]"
    by (rule filter_cong) (simp_all add: m nth_append)
  moreover have "filter (\<lambda>i. (i + ?n) mod 64 < 32 \<and> mask_bits (bits @ [b]) ! (i + ?n)) [0..<64] = filter (\<lambda>i. i < 32 \<and> bit b i) [0..<64]"
    by (rule filter_cong) (simp_all add: m nth_append)
  ultimately show ?case using snoc low_half [of b] by (simp add: filter_map o_def low_cpus_def)
qed (simp add: low_cpus_def)

text \<open>The replacement does not count the CPUs of the upper half of each word: the argument of \<^verbatim>\<open>__builtin_popcount\<close> is only half as wide as the element of the array. Without
  such CPUs it agrees with the count of the C library.\<close>

lemma rhel5_count:
  assumes "length bits = 16"
  shows "CPU_COUNT_rhel5 bits = int (length (filter (\<lambda>ci. ci mod 64 < 32) (cpus (mask_bits bits))))"
    and "(\<forall>ci \<in> set (cpus (mask_bits bits)). ci mod 64 < 32) \<Longrightarrow> CPU_COUNT_rhel5 bits = CPU_COUNT (mask_bits bits)"
proof -
  have "filter (\<lambda>ci. ci mod 64 < 32) (cpus (mask_bits bits)) = filter (\<lambda>ci. ci mod 64 < 32 \<and> mask_bits bits ! ci) [0..<64 * length bits]"
    unfolding cpus_def filter_filter by (rule filter_cong) (use assms in \<open>auto simp: CPU_SETSIZE_def CPU_ISSET_def\<close>)
  then show c: "CPU_COUNT_rhel5 bits = int (length (filter (\<lambda>ci. ci mod 64 < 32) (cpus (mask_bits bits))))"
    using rhel5_low_cpus [OF assms] low_cpus_eq [of bits] by simp
  show "(\<forall>ci \<in> set (cpus (mask_bits bits)). ci mod 64 < 32) \<Longrightarrow> CPU_COUNT_rhel5 bits = CPU_COUNT (mask_bits bits)"
    unfolding c CPU_COUNT_def by (simp add: filter_id_conv [THEN iffD2])
qed

text \<open>On a machine whose only available CPU is number 40 it counts none, and \<^verbatim>\<open>tc_worker_init\<close> divides by that.\<close>

lemma rhel5_counts_none:
  "CPU_COUNT_rhel5 (push_bit 40 1 # replicate 15 0) = 0" "CPU_ISSET 40 (mask_bits (push_bit 40 1 # replicate 15 0))"
proof -
  have "\<not> bit (push_bit 40 1 :: 64 word) i" if "i < 32" for i using that by (simp only: bit_push_bit_iff) simp
  then have "filter (bit (push_bit 40 1 :: 64 word)) [0..<32] = []" by (simp only: filter_empty_conv) auto
  then have "low_cpus (push_bit 40 1 # replicate 15 0) = 0"
    by (simp only: low_cpus_def list.map) (simp add: sum_list_replicate)
  then show "CPU_COUNT_rhel5 (push_bit 40 1 # replicate 15 0) = 0"
    by (simp only: CPU_COUNT_rhel5_def fold_low_cpus) simp
  show "CPU_ISSET 40 (mask_bits (push_bit 40 1 # replicate 15 0))"
    by (simp add: CPU_ISSET_def mask_bits_def nth_append bit_simps)
qed

section \<open>System calls\<close>

text \<open>
  \<^verbatim>\<open>syscall\<close> of the C library takes a number and up to six registers and returns a \<^verbatim>\<open>long\<close>, which the functions return as an \<^verbatim>\<open>int\<close>. It is a
  parameter, and so are the numbers that come from the headers of the kernel; those for \<^verbatim>\<open>HAVE__RHEL5\<close> are given.
\<close>

type_synonym raw_call = "int \<Rightarrow> int list \<Rightarrow> 64 word"

definition as_int :: "64 word \<Rightarrow> int" where
  "as_int r = sint (ucast r :: 32 word)"

definition NR_gettid :: int where "NR_gettid = 186"
definition NR_eventfd :: int where "NR_eventfd = 284"
definition NR_tgkill :: int where "NR_tgkill = 234"

definition eventfd_rhel5 :: "raw_call \<Rightarrow> int \<Rightarrow> int \<Rightarrow> int" where
  "eventfd_rhel5 syscall cnt flags = as_int (syscall NR_eventfd [cnt, flags])"

definition tgkill_rhel5 :: "raw_call \<Rightarrow> int \<Rightarrow> int \<Rightarrow> int \<Rightarrow> int" where
  "tgkill_rhel5 syscall tgid tid sig = as_int (syscall NR_tgkill [tgid, tid, sig])"

definition timerfd_create_call :: "raw_call \<Rightarrow> int \<Rightarrow> int \<Rightarrow> int \<Rightarrow> int" where
  "timerfd_create_call syscall SYS_timerfd_create clock_id flags = as_int (syscall SYS_timerfd_create [clock_id, flags])"

definition timerfd_settime_call :: "raw_call \<Rightarrow> int \<Rightarrow> int \<Rightarrow> int \<Rightarrow> int \<Rightarrow> int \<Rightarrow> int" where
  "timerfd_settime_call syscall SYS_timerfd_settime ufd flags utmr otmr = as_int (syscall SYS_timerfd_settime [ufd, flags, utmr, otmr])"

definition eventfd_call :: "raw_call \<Rightarrow> int \<Rightarrow> int \<Rightarrow> int \<Rightarrow> int" where
  "eventfd_call syscall SYS_eventfd cnt flags = as_int (syscall SYS_eventfd [cnt, flags])"

definition tgkill_call :: "raw_call \<Rightarrow> int \<Rightarrow> int \<Rightarrow> int \<Rightarrow> int \<Rightarrow> int" where
  "tgkill_call syscall SYS_tgkill tgid tid sig = as_int (syscall SYS_tgkill [tgid, tid, sig])"

text \<open>Nothing is lost in the conversion: a descriptor, 0 and the error -1 arrive as they are, so that the tests of the callers see an error exactly when there is one.\<close>

lemma as_int_exact: "as_int r = sint r" if "- (2 ^ 31) \<le> sint r" "sint r < 2 ^ 31" for r
proof -
  have "signed_take_bit 31 (uint r) = signed_take_bit 31 (sint r)"
    by (rule bit_eqI) (simp add: bit_signed_take_bit_iff bit_uint_iff bit_sint_iff min_def)
  then have "as_int r = signed_take_bit 31 (sint r)" by (simp add: as_int_def signed_ucast_eq signed_take_bit_take_bit)
  then show ?thesis using that by (simp add: signed_take_bit_int_eq_self)
qed

lemma eventfd_error:
  assumes "sint (syscall SYS_eventfd [0, 0]) = -1 \<or> (0 \<le> sint (syscall SYS_eventfd [0, 0]) \<and> sint (syscall SYS_eventfd [0, 0]) < 2 ^ 31)"
  shows "eventfd_call syscall SYS_eventfd 0 0 < 0 \<longleftrightarrow> sint (syscall SYS_eventfd [0, 0]) = -1"
proof -
  have "as_int (syscall SYS_eventfd [0, 0]) = sint (syscall SYS_eventfd [0, 0])" by (rule as_int_exact) (use assms in auto)
  then show ?thesis using assms by (auto simp: eventfd_call_def)
qed

end
