(* ===== verification/Swapcontext.thy ===== *)
theory Swapcontext
  imports Prelude
begin

text \<open>
  The context switch in assembly for x86-64 (\<^verbatim>\<open>swapcontext_fast_x86_64.S\<close>): the instructions it uses, with their effect on registers and
  memory, and the function as a list of them, in the order of the file. \<^verbatim>\<open>cr_get_sp_from_cr\<close> of \<^verbatim>\<open>coroutines.c\<close> reads what it has saved.

  Memory is modelled by its 8-byte cells; an access that is not aligned is outside the model (\<open>None\<close>). The floating-point environment of 28 bytes is
  three cells and the lower half of a fourth, whose bytes the function overwrites with the control register \<^verbatim>\<open>MXCSR\<close>. The flags, which a function call does not
  preserve, are left out.
\<close>

unbundle bit_operations_syntax

section \<open>The machine\<close>

datatype reg = Rax | Rbx | Rcx | Rdx | Rsi | Rdi | Rbp | Rsp | R8 | R9 | R12 | R13 | R14 | R15

record fpenv =
  env0 :: "64 word"
  env1 :: "64 word"
  env2 :: "64 word"
  env3 :: "32 word"

record machine =
  regs :: "reg \<Rightarrow> 64 word"
  mem :: "64 word \<Rightarrow> 64 word"
  rip :: "64 word"
  fpu :: fpenv
  mxcsr :: "32 word"

datatype instr = Store reg "64 word" reg | Load "64 word" reg reg | Lea "64 word" reg reg | Push reg
  | Fnstenv reg | Fldenv reg | Stmxcsr "64 word" reg | Ldmxcsr "64 word" reg | Xorl reg reg | Ret
  \<comment> \<open>operands in the order of the assembler: source before destination, displacement before base\<close>

definition aligned :: "64 word \<Rightarrow> bool" where
  "aligned a \<longleftrightarrow> a AND 7 = 0"

definition put_low :: "32 word \<Rightarrow> 64 word \<Rightarrow> 64 word" where
  "put_low v c = (c AND NOT (mask 32)) OR ucast v"

definition at_mem :: "64 word \<Rightarrow> machine \<Rightarrow> 'a \<Rightarrow> 'a option" where
  "at_mem a m x = (if aligned a then Some x else None)"

definition set_reg :: "reg \<Rightarrow> 64 word \<Rightarrow> machine \<Rightarrow> machine" where
  "set_reg r v m = m\<lparr>regs := (regs m)(r := v)\<rparr>"

definition set_mem :: "64 word \<Rightarrow> 64 word \<Rightarrow> machine \<Rightarrow> machine" where
  "set_mem a v m = m\<lparr>mem := (mem m)(a := v)\<rparr>"

text \<open>\<^verbatim>\<open>fnstenv\<close> also masks the floating-point exceptions, by the six lowest bits of the environment.\<close>

fun exec1 :: "instr \<Rightarrow> machine \<Rightarrow> machine option" where
  "exec1 (Store r d b) m = (let a = regs m b + d in at_mem a m (set_mem a (regs m r) m))"
| "exec1 (Load d b r) m = (let a = regs m b + d in at_mem a m (set_reg r (mem m a) m))"
| "exec1 (Lea d b r) m = Some (set_reg r (regs m b + d) m)"
| "exec1 (Push r) m = (let a = regs m Rsp - 8 in at_mem a m (set_mem a (regs m r) (set_reg Rsp a m)))"
| "exec1 (Fnstenv b) m = (let a = regs m b; f = fpu m in
     at_mem a m ((set_mem (a + 24) (put_low (env3 f) (mem m (a + 24))) (set_mem (a + 16) (env2 f) (set_mem (a + 8) (env1 f) (set_mem a (env0 f) m))))
       \<lparr>fpu := f\<lparr>env0 := env0 f OR 0x3F\<rparr>\<rparr>))"
| "exec1 (Fldenv b) m = (let a = regs m b in
     at_mem a m (m\<lparr>fpu := \<lparr>env0 = mem m a, env1 = mem m (a + 8), env2 = mem m (a + 16), env3 = ucast (mem m (a + 24))\<rparr>\<rparr>))"
| "exec1 (Stmxcsr d b) m = (let a = regs m b + d in at_mem a m (set_mem a (put_low (mxcsr m) (mem m a)) m))"
| "exec1 (Ldmxcsr d b) m = (let a = regs m b + d in at_mem a m (m\<lparr>mxcsr := ucast (mem m a)\<rparr>))"
| "exec1 (Xorl r q) m = Some (set_reg q (ucast ((ucast (regs m r) :: 32 word) XOR ucast (regs m q))) m)"
| "exec1 Ret m = (let a = regs m Rsp in at_mem a m ((set_reg Rsp (a + 8) m)\<lparr>rip := mem m a\<rparr>))"

fun exec :: "instr list \<Rightarrow> machine \<Rightarrow> machine option" where
  "exec [] m = Some m"
| "exec (i # is) m = Option.bind (exec1 i m) (exec is)"

lemma exec_append: "exec (xs @ ys) m = Option.bind (exec xs m) (exec ys)"
  by (induction xs arbitrary: m) (auto split: bind_splits)

section \<open>The function\<close>

definition oR8 :: "64 word" where "oR8 = 0x28"
definition oR9 :: "64 word" where "oR9 = 0x30"
definition oR12 :: "64 word" where "oR12 = 0x48"
definition oR13 :: "64 word" where "oR13 = 0x50"
definition oR14 :: "64 word" where "oR14 = 0x58"
definition oR15 :: "64 word" where "oR15 = 0x60"
definition oRDI :: "64 word" where "oRDI = 0x68"
definition oRSI :: "64 word" where "oRSI = 0x70"
definition oRBP :: "64 word" where "oRBP = 0x78"
definition oRBX :: "64 word" where "oRBX = 0x80"
definition oRDX :: "64 word" where "oRDX = 0x88"
definition oRCX :: "64 word" where "oRCX = 0x98"
definition oRSP :: "64 word" where "oRSP = 0xa0"
definition oRIP :: "64 word" where "oRIP = 0xa8"
definition oFPREGS :: "64 word" where "oFPREGS = 0xe0"
definition oFPREGSMEM :: "64 word" where "oFPREGSMEM = 0x1a8"
definition oMXCSR :: "64 word" where "oMXCSR = 0x1c0"

lemmas off_defs = oR8_def oR9_def oR12_def oR13_def oR14_def oR15_def oRDI_def oRSI_def oRBP_def oRBX_def oRDX_def oRCX_def oRSP_def oRIP_def
  oFPREGS_def oFPREGSMEM_def oMXCSR_def

text \<open>The first half saves the registers, the return address, the stack pointer and the floating-point environment in \<^verbatim>\<open>*oucp\<close>.\<close>

definition swap_save :: "instr list" where
  "swap_save = [
     Store Rbx oRBX Rdi,
     Store Rbp oRBP Rdi,
     Store R12 oR12 Rdi,
     Store R13 oR13 Rdi,
     Store R14 oR14 Rdi,
     Store R15 oR15 Rdi,
     Store Rdi oRDI Rdi,
     Store Rsi oRSI Rdi,
     Store Rdx oRDX Rdi,
     Store Rcx oRCX Rdi,
     Store R8 oR8 Rdi,
     Store R9 oR9 Rdi,
     Load 0 Rsp Rcx,
     Store Rcx oRIP Rdi,
     Lea 8 Rsp Rcx,
     Store Rcx oRSP Rdi,
     Lea oFPREGSMEM Rdi Rcx,
     Store Rcx oFPREGS Rdi,
     Fnstenv Rcx,
     Stmxcsr oMXCSR Rdi]"

text \<open>The second half loads them from \<^verbatim>\<open>*ucp\<close> and returns to the address saved there.\<close>

definition swap_restore :: "instr list" where
  "swap_restore = [
     Load oFPREGS Rsi Rcx,
     Fldenv Rcx,
     Ldmxcsr oMXCSR Rsi,
     Load oRSP Rsi Rsp,
     Load oRBX Rsi Rbx,
     Load oRBP Rsi Rbp,
     Load oR12 Rsi R12,
     Load oR13 Rsi R13,
     Load oR14 Rsi R14,
     Load oR15 Rsi R15,
     Load oRIP Rsi Rcx,
     Push Rcx,
     Load oRDI Rsi Rdi,
     Load oRDX Rsi Rdx,
     Load oRCX Rsi Rcx,
     Load oR8 Rsi R8,
     Load oR9 Rsi R9,
     Load oRSI Rsi Rsi,
     Xorl Rax Rax,
     Ret]"

definition swapcontext_fast :: "instr list" where
  "swapcontext_fast = swap_save @ swap_restore"

text \<open>The element 0x14 of the context as an array of pointers.\<close>

definition cr_get_sp_from_cr :: "64 word \<Rightarrow> machine \<Rightarrow> 64 word" where
  "cr_get_sp_from_cr ctx m = mem m (ctx + 0x14 * 8)"

section \<open>What it does\<close>

text \<open>The cells of a context that the function uses.\<close>

definition ctx_offsets :: "64 word list" where
  "ctx_offsets = [oR8, oR9, oR12, oR13, oR14, oR15, oRDI, oRSI, oRBP, oRBX, oRDX, oRCX, oRSP, oRIP, oFPREGS,
     oFPREGSMEM, oFPREGSMEM + 8, oFPREGSMEM + 16, oMXCSR]"

definition ctx_cells :: "64 word \<Rightarrow> 64 word set" where
  "ctx_cells a = (\<lambda>d. a + d) ` set ctx_offsets"

lemma aligned_dvd: "aligned x \<longleftrightarrow> 8 dvd x"
proof -
  have "mask 3 = (7 :: 64 word)" by (simp add: mask_eq_exp_minus_1)
  then show ?thesis using take_bit_eq_0_iff [of 3 x] by (simp add: aligned_def take_bit_eq_mask)
qed

lemma aligned_add: "aligned a \<Longrightarrow> aligned (a + d) \<longleftrightarrow> aligned d"
  unfolding aligned_dvd by (rule dvd_add_right_iff)

lemma aligned_diff: "aligned d \<Longrightarrow> aligned (a - d) \<longleftrightarrow> aligned a"
  using aligned_add [of d "a - d"] by simp

lemma aligned_numeral [simp]: "aligned (numeral k) \<longleftrightarrow> numeral k AND (7 :: 64 word) = 0" "aligned 0"
  by (simp_all add: aligned_def)

lemma put_low_ucast [simp]: "ucast (put_low v c) = v"
  by (rule bit_word_eqI) (simp add: put_low_def bit_simps)

lemma ctx_cells_iff: "x \<in> ctx_cells a \<longleftrightarrow> list_ex (\<lambda>d. x = a + d) ctx_offsets"
  by (auto simp: ctx_cells_def list_ex_iff)

text \<open>A context in memory \<open>mm\<close> at address \<open>a\<close> that holds the state \<open>m\<close> at its call.\<close>

definition holds_ctx :: "64 word \<Rightarrow> machine \<Rightarrow> (64 word \<Rightarrow> 64 word) \<Rightarrow> bool" where
  "holds_ctx a m mm \<longleftrightarrow>
     mm (a + oRBX) = regs m Rbx \<and> mm (a + oRBP) = regs m Rbp \<and> mm (a + oR12) = regs m R12 \<and> mm (a + oR13) = regs m R13 \<and>
     mm (a + oR14) = regs m R14 \<and> mm (a + oR15) = regs m R15 \<and> mm (a + oRIP) = mem m (regs m Rsp) \<and> mm (a + oRSP) = regs m Rsp + 8 \<and>
     mm (a + oFPREGS) = a + oFPREGSMEM \<and> mm (a + oFPREGSMEM) = env0 (fpu m) \<and> mm (a + (oFPREGSMEM + 8)) = env1 (fpu m) \<and>
     mm (a + (oFPREGSMEM + 16)) = env2 (fpu m) \<and> ucast (mm (a + oMXCSR)) = mxcsr m"

definition callable :: "machine \<Rightarrow> bool" where
  "callable m \<longleftrightarrow> aligned (regs m Rdi) \<and> aligned (regs m Rsi) \<and> aligned (regs m Rsp) \<and> regs m Rsp \<notin> ctx_cells (regs m Rdi)"

lemma save_exec:
  assumes "callable m"
  obtains m' where "exec swap_save m = Some m'"
    and "holds_ctx (regs m Rdi) m (mem m')"
    and "\<And>r. r \<noteq> Rcx \<Longrightarrow> regs m' r = regs m r"
    and "\<And>x. x \<notin> ctx_cells (regs m Rdi) \<Longrightarrow> mem m' x = mem m x"
proof -
  define a where "a = regs m Rdi"
  have al: "aligned a" "aligned (regs m Rsp)" and out: "regs m Rsp \<notin> ctx_cells a"
    using assms by (auto simp: callable_def a_def)
  define m' where "m' = the (exec swap_save m)"
  have e: "exec swap_save m = Some m'"
    using al unfolding m'_def
    by (simp add: swap_save_def off_defs a_def [symmetric] Let_def at_mem_def set_reg_def set_mem_def aligned_add)
  note run = m'_def swap_save_def off_defs a_def [symmetric] Let_def at_mem_def set_reg_def set_mem_def aligned_add al add.assoc
  have "holds_ctx a m (mem m')"
    using out by (simp add: run holds_ctx_def ctx_cells_iff ctx_offsets_def)
  moreover have "regs m' r = regs m r" if "r \<noteq> Rcx" for r
    using that by (simp add: run)
  moreover have "mem m' x = mem m x" if "x \<notin> ctx_cells a" for x
    using that by (simp add: run ctx_cells_iff ctx_offsets_def)
  ultimately show thesis
    using that e by (simp add: a_def)
qed

text \<open>A context that can be switched to: the return address goes on its stack, which is elsewhere.\<close>

definition ctx_slot :: "64 word \<Rightarrow> (64 word \<Rightarrow> 64 word) \<Rightarrow> 64 word" where
  "ctx_slot b mm = mm (b + oRSP) - 8"

definition loadable :: "64 word \<Rightarrow> (64 word \<Rightarrow> 64 word) \<Rightarrow> bool" where
  "loadable b mm \<longleftrightarrow> aligned b \<and> aligned (mm (b + oFPREGS)) \<and> aligned (mm (b + oRSP)) \<and> ctx_slot b mm \<notin> ctx_cells b"

lemma restore_exec:
  assumes "loadable (regs m Rsi) (mem m)"
  obtains m' where "exec swap_restore m = Some m'"
    and "mem m' = (mem m)(ctx_slot (regs m Rsi) (mem m) := mem m (regs m Rsi + oRIP))"
    and "rip m' = mem m (regs m Rsi + oRIP)" and "regs m' Rsp = mem m (regs m Rsi + oRSP)" and "regs m' Rax = 0"
    and "\<And>r d. (r, d) \<in> {(Rbx, oRBX), (Rbp, oRBP), (R12, oR12), (R13, oR13), (R14, oR14), (R15, oR15)} \<Longrightarrow> regs m' r = mem m (regs m Rsi + d)"
    and "mxcsr m' = ucast (mem m (regs m Rsi + oMXCSR))"
    and "fpu m' = (let f = mem m (regs m Rsi + oFPREGS) in \<lparr>env0 = mem m f, env1 = mem m (f + 8), env2 = mem m (f + 16), env3 = ucast (mem m (f + 24))\<rparr>)"
proof -
  define b where "b = regs m Rsi"
  have al: "aligned b" "aligned (mem m (b + oFPREGS))" "aligned (mem m (b + oRSP))" and out: "mem m (b + oRSP) - 8 \<notin> ctx_cells b"
    using assms by (auto simp: loadable_def ctx_slot_def b_def)
  note al' = al [unfolded off_defs]
  have neq: "b + d \<noteq> mem m (b + oRSP) - 8" if "d \<in> set ctx_offsets" for d
    using that out by (metis ctx_cells_def imageI)
  note neqs = neq [unfolded ctx_offsets_def list.set ball_simps off_defs]
  define m' where "m' = the (exec swap_restore m)"
  have ne: "b + 0x68 \<noteq> mem m (b + 0xa0) - 8" "b + 0x88 \<noteq> mem m (b + 0xa0) - 8" "b + 0x98 \<noteq> mem m (b + 0xa0) - 8"
    "b + 0x28 \<noteq> mem m (b + 0xa0) - 8" "b + 0x30 \<noteq> mem m (b + 0xa0) - 8" "b + 0x70 \<noteq> mem m (b + 0xa0) - 8"
    by (rule neqs, simp)+
  note run = swap_restore_def off_defs b_def [symmetric] Let_def at_mem_def set_reg_def set_mem_def aligned_add aligned_diff al' ctx_slot_def
  have e: "exec swap_restore m = Some m'"
    unfolding m'_def by (simp add: run)
  show thesis
    by (rule that [OF e]; auto simp: m'_def run)
qed

text \<open>What a call that was left with a switch sees when it is switched to again: it returns 0 to its caller, with the registers that a call preserves, the
  floating-point environment and the control register as they were. The last word of the environment shares its place with the control register.\<close>

definition resumes :: "machine \<Rightarrow> machine \<Rightarrow> bool" where
  "resumes m m' \<longleftrightarrow> rip m' = mem m (regs m Rsp) \<and> regs m' Rsp = regs m Rsp + 8 \<and> regs m' Rax = 0 \<and>
     (\<forall>r \<in> {Rbx, Rbp, R12, R13, R14, R15}. regs m' r = regs m r) \<and> mxcsr m' = mxcsr m \<and> fpu m' = (fpu m)\<lparr>env3 := mxcsr m\<rparr>"

lemma holds_ctx_cong:
  assumes "holds_ctx a m mm" "\<forall>x \<in> ctx_cells a. mm' x = mm x"
  shows "holds_ctx a m mm'"
proof -
  have "mm' (a + d) = mm (a + d)" if "d \<in> set ctx_offsets" for d
    using that assms(2) by (auto simp: ctx_cells_def)
  then show ?thesis
    using assms(1) unfolding holds_ctx_def ctx_offsets_def by simp
qed

lemma holds_ctx_loadable:
  assumes "holds_ctx a m mm" "aligned a" "aligned (regs m Rsp)" "regs m Rsp \<notin> ctx_cells a"
  shows "loadable a mm"
  using assms by (simp add: holds_ctx_def loadable_def ctx_slot_def aligned_add off_defs)

lemma restore_resumes:
  assumes "holds_ctx a m0 (mem m)" "regs m Rsi = a" "aligned a" "aligned (regs m0 Rsp)" "regs m0 Rsp \<notin> ctx_cells a"
  obtains m' where "exec swap_restore m = Some m'" "resumes m0 m'" "mem m' = (mem m)(regs m0 Rsp := mem m0 (regs m0 Rsp))"
proof -
  have "loadable (regs m Rsi) (mem m)"
    using holds_ctx_loadable [OF assms(1,3-5)] assms(2) by simp
  from restore_exec [OF this] obtain m' where m': "exec swap_restore m = Some m'"
    "mem m' = (mem m)(ctx_slot a (mem m) := mem m (a + oRIP))"
    "rip m' = mem m (a + oRIP)" "regs m' Rsp = mem m (a + oRSP)" "regs m' Rax = 0"
    "\<And>r d. (r, d) \<in> {(Rbx, oRBX), (Rbp, oRBP), (R12, oR12), (R13, oR13), (R14, oR14), (R15, oR15)} \<Longrightarrow> regs m' r = mem m (a + d)"
    "mxcsr m' = ucast (mem m (a + oMXCSR))"
    "fpu m' = (let f = mem m (a + oFPREGS) in \<lparr>env0 = mem m f, env1 = mem m (f + 8), env2 = mem m (f + 16), env3 = ucast (mem m (f + 24))\<rparr>)"
    unfolding assms(2) by blast
  have "oFPREGSMEM + 24 = oMXCSR" by (simp add: off_defs)
  then have "fpu m' = (fpu m0)\<lparr>env3 := mxcsr m0\<rparr>"
    using assms(1) m'(8) by (intro fpenv.equality) (simp_all add: holds_ctx_def add.assoc)
  then have "resumes m0 m'"
    using assms(1) m'(3-5,7) m'(6) [of Rbx oRBX] m'(6) [of Rbp oRBP] m'(6) [of R12 oR12] m'(6) [of R13 oR13] m'(6) [of R14 oR14] m'(6) [of R15 oR15]
    by (simp add: resumes_def holds_ctx_def)
  with m' assms(1) show thesis
    by (intro that) (simp_all add: holds_ctx_def ctx_slot_def)
qed

text \<open>C38: Switching away from a coroutine and back to it. A call of \<^verbatim>\<open>swapcontext_fast(a, b)\<close> with a loadable context \<open>b\<close> goes on at the address that
  \<open>b\<close> holds and leaves memory outside \<open>a\<close> alone, except for the return address it pushes on the stack of \<open>b\<close>; the stack pointer of the suspended coroutine can be read with
  \<^verbatim>\<open>cr_get_sp_from_cr\<close>. Whatever runs afterwards, so long as it does not write to the context \<open>a\<close>: the first later call \<^verbatim>\<open>swapcontext_fast(c, a)\<close> returns from the
  first one, to its return address, with result 0 and all state that a call preserves.\<close>

theorem swapcontext_round_trip:
  assumes "callable m" "loadable (regs m Rsi) (mem m)" "ctx_cells (regs m Rdi) \<inter> ctx_cells (regs m Rsi) = {}"
    and "ctx_slot (regs m Rsi) (mem m) \<notin> ctx_cells (regs m Rdi)"
  shows "\<exists>m1. exec swapcontext_fast m = Some m1 \<and> rip m1 = mem m (regs m Rsi + oRIP) \<and> regs m1 Rsp = mem m (regs m Rsi + oRSP) \<and>
      (\<forall>x. x \<notin> ctx_cells (regs m Rdi) \<longrightarrow> x \<noteq> ctx_slot (regs m Rsi) (mem m) \<longrightarrow> mem m1 x = mem m x) \<and>
      cr_get_sp_from_cr (regs m Rdi) m1 = regs m Rsp + 8 \<and>
      (\<forall>m2. (\<forall>x \<in> ctx_cells (regs m Rdi). mem m2 x = mem m1 x) \<longrightarrow> callable m2 \<longrightarrow> regs m2 Rsi = regs m Rdi \<longrightarrow>
         ctx_cells (regs m2 Rdi) \<inter> ctx_cells (regs m Rdi) = {} \<longrightarrow>
         (\<exists>m3. exec swapcontext_fast m2 = Some m3 \<and> resumes m m3))"
proof -
  define a b where "a = regs m Rdi" and "b = regs m Rsi"
  from save_exec [OF assms(1)] obtain s where s: "exec swap_save m = Some s" "holds_ctx a m (mem s)"
    "\<And>r. r \<noteq> Rcx \<Longrightarrow> regs s r = regs m r" "\<And>x. x \<notin> ctx_cells a \<Longrightarrow> mem s x = mem m x" by (auto simp: a_def)
  have cell: "mem s (b + d) = mem m (b + d)" if "d \<in> set ctx_offsets" for d
    using that assms(3) s(4) [of "b + d"] by (auto simp: a_def b_def ctx_cells_def)
  have b: "regs s Rsi = b" "mem s (b + oRSP) = mem m (b + oRSP)" "mem s (b + oRIP) = mem m (b + oRIP)" "mem s (b + oFPREGS) = mem m (b + oFPREGS)"
    using s(3) by (simp_all add: b_def [symmetric]) (rule cell, simp add: ctx_offsets_def)+
  then have slot: "ctx_slot b (mem s) = ctx_slot b (mem m)" by (simp add: ctx_slot_def)
  then have "loadable (regs s Rsi) (mem s)"
    using assms(2) b by (simp add: loadable_def b_def)
  from restore_exec [OF this] b slot obtain m1 where m1: "exec swap_restore s = Some m1" "rip m1 = mem m (b + oRIP)" "regs m1 Rsp = mem m (b + oRSP)"
    "mem m1 = (mem s)(ctx_slot b (mem m) := mem m (b + oRIP))" by metis
  have run: "exec swapcontext_fast m = Some m1"
    using s(1) m1(1) by (simp add: swapcontext_fast_def exec_append)
  have keep: "\<forall>x \<in> ctx_cells a. mem m1 x = mem s x"
    using assms(4) m1(4) by (auto simp: a_def b_def)
  have ctx1: "holds_ctx a m (mem m1)" by (rule holds_ctx_cong [OF s(2) keep])
  have again: "\<exists>m3. exec swapcontext_fast m2 = Some m3 \<and> resumes m m3"
    if m2: "\<forall>x \<in> ctx_cells a. mem m2 x = mem m1 x" "callable m2" "regs m2 Rsi = a" "ctx_cells (regs m2 Rdi) \<inter> ctx_cells a = {}" for m2
  proof -
    from save_exec [OF m2(2)] obtain s2 where s2: "exec swap_save m2 = Some s2" "\<And>r. r \<noteq> Rcx \<Longrightarrow> regs s2 r = regs m2 r"
      "\<And>x. x \<notin> ctx_cells (regs m2 Rdi) \<Longrightarrow> mem s2 x = mem m2 x" by blast
    have "regs s2 Rsi = a" using s2(2) m2(3) by simp
    moreover have "holds_ctx a m (mem s2)"
      using m2(1,4) s2(3) by (intro holds_ctx_cong [OF ctx1] ballI) (metis disjoint_iff)
    ultimately obtain m3 where "exec swap_restore s2 = Some m3" "resumes m m3"
      using restore_resumes [of a m s2] assms(1) by (auto simp: callable_def a_def)
    then show ?thesis using s2(1) by (simp add: swapcontext_fast_def exec_append)
  qed
  have "cr_get_sp_from_cr a m1 = regs m Rsp + 8"
    using ctx1 by (simp add: cr_get_sp_from_cr_def holds_ctx_def oRSP_def)
  then show ?thesis
    using run m1 s(4) again by (auto simp: a_def b_def)
qed

definition two_contexts :: machine where
  "two_contexts = \<lparr>regs = (\<lambda>_. 0)(Rdi := 0x1000, Rsi := 0x2000, Rsp := 0x8000, Rbx := 7), mem = (\<lambda>_. 0)(0x8000 := 0x500, 0x20a0 := 0x9000, 0x20a8 := 0x400, 0x20e0 := 0x21a8),
     rip = 0, fpu = \<lparr>env0 = 0x37f, env1 = 0, env2 = 0, env3 = 0\<rparr>, mxcsr = 0x1f80\<rparr>"

theorem swapcontext_round_trip_witness:
  "\<exists>m1 m3. exec swapcontext_fast two_contexts = Some m1 \<and> rip m1 = 0x400 \<and> cr_get_sp_from_cr 0x1000 m1 = 0x8008 \<and>
     exec swapcontext_fast (m1\<lparr>regs := (regs m1)(Rdi := 0x2000, Rsi := 0x1000)\<rparr>) = Some m3 \<and> rip m3 = 0x500 \<and> regs m3 Rsp = 0x8008 \<and> regs m3 Rbx = 7"
proof -
  have r: "regs two_contexts Rdi = 0x1000" "regs two_contexts Rsi = 0x2000" "regs two_contexts Rsp = 0x8000" "regs two_contexts Rbx = 7"
    "mem two_contexts 0x20a0 = 0x9000" "mem two_contexts 0x20a8 = 0x400" "mem two_contexts 0x20e0 = 0x21a8" "mem two_contexts 0x8000 = 0x500"
    by (simp_all add: two_contexts_def)
  have cells: "ctx_cells 0x1000 \<inter> ctx_cells 0x2000 = {}" "ctx_cells 0x2000 \<inter> ctx_cells 0x1000 = {}" by (simp_all add: ctx_cells_def ctx_offsets_def off_defs)
  have ok: "callable two_contexts" "loadable 0x2000 (mem two_contexts)" "ctx_slot 0x2000 (mem two_contexts) \<notin> ctx_cells 0x1000"
    by (simp_all add: callable_def loadable_def ctx_slot_def r ctx_cells_iff ctx_offsets_def off_defs)
  from swapcontext_round_trip [of two_contexts] ok cells obtain m1 where m1: "exec swapcontext_fast two_contexts = Some m1" "rip m1 = 0x400" "regs m1 Rsp = 0x9000"
    "cr_get_sp_from_cr 0x1000 m1 = 0x8008"
    and again: "\<And>m2. \<lbrakk>\<forall>x \<in> ctx_cells 0x1000. mem m2 x = mem m1 x; callable m2; regs m2 Rsi = 0x1000; ctx_cells (regs m2 Rdi) \<inter> ctx_cells 0x1000 = {}\<rbrakk>
      \<Longrightarrow> \<exists>m3. exec swapcontext_fast m2 = Some m3 \<and> resumes two_contexts m3"
    by (auto simp: r off_defs)
  define m2 where "m2 = m1\<lparr>regs := (regs m1)(Rdi := 0x2000, Rsi := 0x1000)\<rparr>"
  have "callable m2" by (simp add: m2_def callable_def m1 ctx_cells_iff ctx_offsets_def off_defs)
  with again [of m2] cells obtain m3 where "exec swapcontext_fast m2 = Some m3" "resumes two_contexts m3" by (auto simp: m2_def)
  with m1 show ?thesis by (auto simp: m2_def resumes_def r)
qed

end
