(* ===== verification/Swapcontext_I386.thy ===== *)
theory Swapcontext_I386
  imports Prelude
begin

text \<open>
  The context switch in assembly for i386 (\<^verbatim>\<open>swapcontext_fast_i386.S\<close>), modelled like the one for x86-64 (theory \<open>Swapcontext\<close>): the arguments are on the stack, memory has
  4-byte cells, the floating-point environment is seven of them, and the segment register \<^verbatim>\<open>fs\<close> is switched as well. \<^verbatim>\<open>cr_get_sp_from_cr\<close> reads an element of the context
  that this function does not write.
\<close>

unbundle bit_operations_syntax

section \<open>The machine\<close>

datatype reg32 = Eax | Ebx | Ecx | Edx | Esi | Edi | Ebp | Esp

record machine32 =
  regs32 :: "reg32 \<Rightarrow> 32 word"
  mem32 :: "32 word \<Rightarrow> 32 word"
  eip :: "32 word"
  fs :: "16 word"
  fpu32 :: "nat \<Rightarrow> 32 word"   \<comment> \<open>the seven words of the environment\<close>

datatype instr32 = Storel reg32 "32 word" reg32 | Storei "32 word" "32 word" reg32 | Loadl "32 word" reg32 reg32 | Leal "32 word" reg32 reg32 | Pushl reg32
  | Fnstenvl reg32 | Fldenvl reg32 | Xor32 reg32 reg32 | From_fs reg32 | To_fs reg32 | Ret32

definition aligned4 :: "32 word \<Rightarrow> bool" where
  "aligned4 a \<longleftrightarrow> a AND 3 = 0"

definition at_mem32 :: "32 word \<Rightarrow> 'a \<Rightarrow> 'a option" where
  "at_mem32 a x = (if aligned4 a then Some x else None)"

definition set_reg32 :: "reg32 \<Rightarrow> 32 word \<Rightarrow> machine32 \<Rightarrow> machine32" where
  "set_reg32 r v m = m\<lparr>regs32 := (regs32 m)(r := v)\<rparr>"

definition set_mem32 :: "32 word \<Rightarrow> 32 word \<Rightarrow> machine32 \<Rightarrow> machine32" where
  "set_mem32 a v m = m\<lparr>mem32 := (mem32 m)(a := v)\<rparr>"

text \<open>The cells of an environment in memory.\<close>

definition env_at :: "32 word \<Rightarrow> (32 word \<Rightarrow> 32 word) \<Rightarrow> nat \<Rightarrow> 32 word" where
  "env_at a mm i = (if i < 7 then mm (a + 4 * of_nat i) else 0)"

definition put_env :: "32 word \<Rightarrow> (nat \<Rightarrow> 32 word) \<Rightarrow> (32 word \<Rightarrow> 32 word) \<Rightarrow> 32 word \<Rightarrow> 32 word" where
  "put_env a f mm = mm(a := f 0, a + 4 := f 1, a + 8 := f 2, a + 12 := f 3, a + 16 := f 4, a + 20 := f 5, a + 24 := f 6)"

fun exec1_32 :: "instr32 \<Rightarrow> machine32 \<Rightarrow> machine32 option" where
  "exec1_32 (Storel r d b) m = (let a = regs32 m b + d in at_mem32 a (set_mem32 a (regs32 m r) m))"
| "exec1_32 (Storei v d b) m = (let a = regs32 m b + d in at_mem32 a (set_mem32 a v m))"
| "exec1_32 (Loadl d b r) m = (let a = regs32 m b + d in at_mem32 a (set_reg32 r (mem32 m a) m))"
| "exec1_32 (Leal d b r) m = Some (set_reg32 r (regs32 m b + d) m)"
| "exec1_32 (Pushl r) m = (let a = regs32 m Esp - 4 in at_mem32 a (set_mem32 a (regs32 m r) (set_reg32 Esp a m)))"
| "exec1_32 (Fnstenvl b) m = (let a = regs32 m b; f = fpu32 m in at_mem32 a (m\<lparr>mem32 := put_env a f (mem32 m), fpu32 := f(0 := f 0 OR 0x3F)\<rparr>))"
| "exec1_32 (Fldenvl b) m = (let a = regs32 m b in at_mem32 a (m\<lparr>fpu32 := env_at a (mem32 m)\<rparr>))"
| "exec1_32 (Xor32 r q) m = Some (set_reg32 q (regs32 m r XOR regs32 m q) m)"
| "exec1_32 (From_fs r) m = Some (set_reg32 r ((regs32 m r AND NOT (mask 16)) OR ucast (fs m)) m)"
| "exec1_32 (To_fs r) m = Some (m\<lparr>fs := ucast (regs32 m r)\<rparr>)"
| "exec1_32 Ret32 m = (let a = regs32 m Esp in at_mem32 a ((set_reg32 Esp (a + 4) m)\<lparr>eip := mem32 m a\<rparr>))"

fun exec32 :: "instr32 list \<Rightarrow> machine32 \<Rightarrow> machine32 option" where
  "exec32 [] m = Some m"
| "exec32 (i # is) m = Option.bind (exec1_32 i m) (exec32 is)"

lemma exec32_append: "exec32 (xs @ ys) m = Option.bind (exec32 xs m) (exec32 ys)"
  by (induction xs arbitrary: m) (auto split: bind_splits)

section \<open>The function\<close>

definition oFS :: "32 word" where "oFS = 0x18"
definition oEDI :: "32 word" where "oEDI = 0x24"
definition oESI :: "32 word" where "oESI = 0x28"
definition oEBP :: "32 word" where "oEBP = 0x2c"
definition oESP :: "32 word" where "oESP = 0x30"
definition oEBX :: "32 word" where "oEBX = 0x34"
definition oEDX :: "32 word" where "oEDX = 0x38"
definition oECX :: "32 word" where "oECX = 0x3c"
definition oEAX :: "32 word" where "oEAX = 0x40"
definition oEIP :: "32 word" where "oEIP = 0x4c"
definition oFPREGS32 :: "32 word" where "oFPREGS32 = 0x60"
definition oFPREGSMEM32 :: "32 word" where "oFPREGSMEM32 = 0xec"

lemmas off32_defs = oFS_def oEDI_def oESI_def oEBP_def oESP_def oEBX_def oEDX_def oECX_def oEAX_def oEIP_def oFPREGS32_def oFPREGSMEM32_def

definition swap_save32 :: "instr32 list" where
  "swap_save32 = [
     Loadl 4 Esp Eax,
     Storei 0 oEAX Eax,
     Storel Ecx oECX Eax,
     Storel Edx oEDX Eax,
     Storel Edi oEDI Eax,
     Storel Esi oESI Eax,
     Storel Ebp oEBP Eax,
     Loadl 0 Esp Ecx,
     Storel Ecx oEIP Eax,
     Leal 4 Esp Ecx,
     Storel Ecx oESP Eax,
     Storel Ebx oEBX Eax,
     Xor32 Edx Edx,
     From_fs Edx,
     Storel Edx oFS Eax,
     Leal oFPREGSMEM32 Eax Ecx,
     Storel Ecx oFPREGS32 Eax,
     Fnstenvl Ecx,
     Loadl 8 Esp Ecx,
     Loadl 8 Esp Eax]"

definition swap_restore32 :: "instr32 list" where
  "swap_restore32 = [
     Loadl oFPREGS32 Eax Ecx,
     Fldenvl Ecx,
     Loadl oFS Eax Edx,
     To_fs Edx,
     Loadl oEIP Eax Ecx,
     Loadl oESP Eax Esp,
     Pushl Ecx,
     Loadl oEDI Eax Edi,
     Loadl oESI Eax Esi,
     Loadl oEBP Eax Ebp,
     Loadl oEBX Eax Ebx,
     Loadl oEDX Eax Edx,
     Loadl oECX Eax Ecx,
     Loadl oEAX Eax Eax,
     Ret32]"

definition swapcontext_fast_i386 :: "instr32 list" where
  "swapcontext_fast_i386 = swap_save32 @ swap_restore32"

text \<open>For a word size of 32 bits \<^verbatim>\<open>cr_get_sp_from_cr\<close> reads the element 0x12 of the context as an array of pointers.\<close>

definition cr_get_sp_from_cr32 :: "32 word \<Rightarrow> machine32 \<Rightarrow> 32 word" where
  "cr_get_sp_from_cr32 ctx m = mem32 m (ctx + 0x12 * 4)"

section \<open>What it does\<close>

definition ctx_offsets32 :: "32 word list" where
  "ctx_offsets32 = [oFS, oEDI, oESI, oEBP, oESP, oEBX, oEDX, oECX, oEAX, oEIP, oFPREGS32,
     oFPREGSMEM32, oFPREGSMEM32 + 4, oFPREGSMEM32 + 8, oFPREGSMEM32 + 12, oFPREGSMEM32 + 16, oFPREGSMEM32 + 20, oFPREGSMEM32 + 24]"

definition ctx_cells32 :: "32 word \<Rightarrow> 32 word set" where
  "ctx_cells32 a = (\<lambda>d. a + d) ` set ctx_offsets32"

lemma aligned4_dvd: "aligned4 x \<longleftrightarrow> 4 dvd x"
proof -
  have "mask 2 = (3 :: 32 word)" by (simp add: mask_eq_exp_minus_1)
  then show ?thesis using take_bit_eq_0_iff [of 2 x] by (simp add: aligned4_def take_bit_eq_mask)
qed

lemma aligned4_add: "aligned4 a \<Longrightarrow> aligned4 (a + d) \<longleftrightarrow> aligned4 d"
  unfolding aligned4_dvd by (rule dvd_add_right_iff)

lemma aligned4_diff: "aligned4 d \<Longrightarrow> aligned4 (a - d) \<longleftrightarrow> aligned4 a"
  using aligned4_add [of d "a - d"] by simp

lemma aligned4_numeral [simp]: "aligned4 (numeral k) \<longleftrightarrow> numeral k AND (3 :: 32 word) = 0" "aligned4 0"
  by (simp_all add: aligned4_def)

lemma ctx_cells32_iff: "x \<in> ctx_cells32 a \<longleftrightarrow> list_ex (\<lambda>d. x = a + d) ctx_offsets32"
  by (auto simp: ctx_cells32_def list_ex_iff)

text \<open>The arguments of a call, and a context in memory that holds the state at its call.\<close>

definition oucp :: "machine32 \<Rightarrow> 32 word" where
  "oucp m = mem32 m (regs32 m Esp + 4)"

definition ucp :: "machine32 \<Rightarrow> 32 word" where
  "ucp m = mem32 m (regs32 m Esp + 8)"

definition holds_ctx32 :: "32 word \<Rightarrow> machine32 \<Rightarrow> (32 word \<Rightarrow> 32 word) \<Rightarrow> bool" where
  "holds_ctx32 a m mm \<longleftrightarrow>
     mm (a + oEDI) = regs32 m Edi \<and> mm (a + oESI) = regs32 m Esi \<and> mm (a + oEBP) = regs32 m Ebp \<and> mm (a + oEBX) = regs32 m Ebx \<and>
     mm (a + oEAX) = 0 \<and> mm (a + oEIP) = mem32 m (regs32 m Esp) \<and> mm (a + oESP) = regs32 m Esp + 4 \<and> mm (a + oFS) = ucast (fs m) \<and>
     mm (a + oFPREGS32) = a + oFPREGSMEM32 \<and> mm (a + oFPREGSMEM32) = fpu32 m 0 \<and> mm (a + (oFPREGSMEM32 + 4)) = fpu32 m 1 \<and>
     mm (a + (oFPREGSMEM32 + 8)) = fpu32 m 2 \<and> mm (a + (oFPREGSMEM32 + 12)) = fpu32 m 3 \<and> mm (a + (oFPREGSMEM32 + 16)) = fpu32 m 4 \<and>
     mm (a + (oFPREGSMEM32 + 20)) = fpu32 m 5 \<and> mm (a + (oFPREGSMEM32 + 24)) = fpu32 m 6"

definition callable32 :: "machine32 \<Rightarrow> bool" where
  "callable32 m \<longleftrightarrow> aligned4 (oucp m) \<and> aligned4 (ucp m) \<and> aligned4 (regs32 m Esp) \<and>
     regs32 m Esp \<notin> ctx_cells32 (oucp m) \<and> regs32 m Esp + 8 \<notin> ctx_cells32 (oucp m)"

lemma save_exec32:
  assumes "callable32 m"
  obtains m' where "exec32 swap_save32 m = Some m'" and "holds_ctx32 (oucp m) m (mem32 m')" and "regs32 m' Eax = ucp m"
    and "\<And>x. x \<notin> ctx_cells32 (oucp m) \<Longrightarrow> mem32 m' x = mem32 m x"
proof -
  define a where "a = oucp m"
  have a: "mem32 m (regs32 m Esp + 4) = a" by (simp add: a_def oucp_def)
  have al: "aligned4 a" "aligned4 (regs32 m Esp)" and out: "regs32 m Esp \<notin> ctx_cells32 a" "regs32 m Esp + 8 \<notin> ctx_cells32 a"
    using assms by (auto simp: callable32_def a_def)
  define m' where "m' = the (exec32 swap_save32 m)"
  note run = swap_save32_def off32_defs a Let_def at_mem32_def set_reg32_def set_mem32_def put_env_def aligned4_add al add.assoc
  have e: "exec32 swap_save32 m = Some m'"
    unfolding m'_def by (simp add: run)
  have "holds_ctx32 a m (mem32 m')"
    using out(1) by (simp add: m'_def run holds_ctx32_def ctx_cells32_iff ctx_offsets32_def)
  moreover have "mem32 m' x = mem32 m x" if "x \<notin> ctx_cells32 a" for x
    using that by (simp add: m'_def run ctx_cells32_iff ctx_offsets32_def)
  moreover have "regs32 m' Eax = ucp m"
    using out(2) by (simp add: m'_def run ucp_def ctx_cells32_iff ctx_offsets32_def)
  ultimately show thesis
    using that e by (simp add: a_def)
qed

text \<open>A context that can be switched to.\<close>

definition ctx_slot32 :: "32 word \<Rightarrow> (32 word \<Rightarrow> 32 word) \<Rightarrow> 32 word" where
  "ctx_slot32 b mm = mm (b + oESP) - 4"

definition loadable32 :: "32 word \<Rightarrow> (32 word \<Rightarrow> 32 word) \<Rightarrow> bool" where
  "loadable32 b mm \<longleftrightarrow> aligned4 b \<and> aligned4 (mm (b + oFPREGS32)) \<and> aligned4 (mm (b + oESP)) \<and> ctx_slot32 b mm \<notin> ctx_cells32 b"

lemma restore_exec32:
  assumes "loadable32 (regs32 m Eax) (mem32 m)"
  obtains m' where "exec32 swap_restore32 m = Some m'"
    and "mem32 m' = (mem32 m)(ctx_slot32 (regs32 m Eax) (mem32 m) := mem32 m (regs32 m Eax + oEIP))"
    and "eip m' = mem32 m (regs32 m Eax + oEIP)" and "regs32 m' Esp = mem32 m (regs32 m Eax + oESP)"
    and "\<And>r d. (r, d) \<in> {(Edi, oEDI), (Esi, oESI), (Ebp, oEBP), (Ebx, oEBX), (Eax, oEAX)} \<Longrightarrow> regs32 m' r = mem32 m (regs32 m Eax + d)"
    and "fs m' = ucast (mem32 m (regs32 m Eax + oFS))" and "fpu32 m' = env_at (mem32 m (regs32 m Eax + oFPREGS32)) (mem32 m)"
proof -
  define b where "b = regs32 m Eax"
  have al: "aligned4 b" "aligned4 (mem32 m (b + oFPREGS32))" "aligned4 (mem32 m (b + oESP))" and out: "mem32 m (b + oESP) - 4 \<notin> ctx_cells32 b"
    using assms by (auto simp: loadable32_def ctx_slot32_def b_def)
  have neq: "b + d \<noteq> mem32 m (b + oESP) - 4" if "d \<in> set ctx_offsets32" for d
    using that out by (metis ctx_cells32_def imageI)
  note al' = al [unfolded off32_defs] and neqs = neq [unfolded ctx_offsets32_def list.set ball_simps off32_defs]
  have ne: "b + 0x24 \<noteq> mem32 m (b + 0x30) - 4" "b + 0x28 \<noteq> mem32 m (b + 0x30) - 4" "b + 0x2c \<noteq> mem32 m (b + 0x30) - 4"
    "b + 0x34 \<noteq> mem32 m (b + 0x30) - 4" "b + 0x38 \<noteq> mem32 m (b + 0x30) - 4" "b + 0x3c \<noteq> mem32 m (b + 0x30) - 4" "b + 0x40 \<noteq> mem32 m (b + 0x30) - 4"
    by (rule neqs, simp)+
  define m' where "m' = the (exec32 swap_restore32 m)"
  note run = swap_restore32_def off32_defs b_def [symmetric] Let_def at_mem32_def set_reg32_def set_mem32_def aligned4_add aligned4_diff al' ctx_slot32_def
  have e: "exec32 swap_restore32 m = Some m'"
    unfolding m'_def by (simp add: run)
  show thesis
    by (rule that [OF e]; use ne in \<open>auto simp: m'_def run\<close>)
qed

definition resumes32 :: "machine32 \<Rightarrow> machine32 \<Rightarrow> bool" where
  "resumes32 m m' \<longleftrightarrow> eip m' = mem32 m (regs32 m Esp) \<and> regs32 m' Esp = regs32 m Esp + 4 \<and> regs32 m' Eax = 0 \<and>
     (\<forall>r \<in> {Ebx, Esi, Edi, Ebp}. regs32 m' r = regs32 m r) \<and> fs m' = fs m \<and> (\<forall>i < 7. fpu32 m' i = fpu32 m i)"

lemma holds_ctx32_cong:
  assumes "holds_ctx32 a m mm" "\<forall>x \<in> ctx_cells32 a. mm' x = mm x"
  shows "holds_ctx32 a m mm'"
proof -
  have "mm' (a + d) = mm (a + d)" if "d \<in> set ctx_offsets32" for d
    using that assms(2) by (auto simp: ctx_cells32_def)
  then show ?thesis
    using assms(1) unfolding holds_ctx32_def ctx_offsets32_def by simp
qed

lemma ctx_env:
  assumes "holds_ctx32 a m mm" and "i < 7"
  shows "env_at (a + oFPREGSMEM32) mm i = fpu32 m i"
proof -
  have "i \<in> {0, 1, 2, 3, 4, 5, 6}" using assms(2) by auto
  then show ?thesis
    using assms(1) by (auto simp: holds_ctx32_def env_at_def add.assoc numeral_eq_Suc)
qed

lemma restore_resumes32:
  assumes "holds_ctx32 a m0 (mem32 m)" "regs32 m Eax = a" "aligned4 a" "aligned4 (regs32 m0 Esp)" "regs32 m0 Esp \<notin> ctx_cells32 a"
  obtains m' where "exec32 swap_restore32 m = Some m'" "resumes32 m0 m'"
proof -
  have "loadable32 (regs32 m Eax) (mem32 m)"
    using assms by (simp add: holds_ctx32_def loadable32_def ctx_slot32_def aligned4_add off32_defs)
  then obtain m' where m': "exec32 swap_restore32 m = Some m'"
    "eip m' = mem32 m (a + oEIP)" "regs32 m' Esp = mem32 m (a + oESP)"
    "\<And>r d. (r, d) \<in> {(Edi, oEDI), (Esi, oESI), (Ebp, oEBP), (Ebx, oEBX), (Eax, oEAX)} \<Longrightarrow> regs32 m' r = mem32 m (a + d)"
    "fs m' = ucast (mem32 m (a + oFS))" "fpu32 m' = env_at (mem32 m (a + oFPREGS32)) (mem32 m)"
    by (rule restore_exec32) (use that assms(2) in simp)
  have "fpu32 m' i = fpu32 m0 i" if "i < 7" for i
    using assms(1) m'(6) ctx_env [OF assms(1) that] by (simp add: holds_ctx32_def)
  moreover have "ucast (ucast (fs m0) :: 32 word) = fs m0" by (rule bit_word_eqI) (simp add: bit_simps)
  ultimately have "resumes32 m0 m'"
    using assms(1) m'(2,3,5) m'(4) [of Edi oEDI] m'(4) [of Esi oESI] m'(4) [of Ebp oEBP] m'(4) [of Ebx oEBX] m'(4) [of Eax oEAX]
    by (simp add: resumes32_def holds_ctx32_def)
  with m'(1) show thesis by (rule that)
qed

text \<open>Switching away from a coroutine and back to it. What \<^verbatim>\<open>cr_get_sp_from_cr\<close> reads of the suspended coroutine is what was in that place before the switch: it is the field
  \<^verbatim>\<open>REG_ERR\<close> of the context, and the stack pointer is in another one.\<close>

lemma swapcontext_i386_round_trip:
  assumes "callable32 m" "loadable32 (ucp m) (mem32 m)" "ctx_cells32 (oucp m) \<inter> ctx_cells32 (ucp m) = {}"
    and "ctx_slot32 (ucp m) (mem32 m) \<notin> ctx_cells32 (oucp m)" and "ctx_slot32 (ucp m) (mem32 m) \<noteq> oucp m + 0x48"
  shows "\<exists>m1. exec32 swapcontext_fast_i386 m = Some m1 \<and> eip m1 = mem32 m (ucp m + oEIP) \<and> cr_get_sp_from_cr32 (oucp m) m1 = mem32 m (oucp m + 0x48) \<and>
      mem32 m1 (oucp m + oESP) = regs32 m Esp + 4 \<and>
      (\<forall>m2. (\<forall>x \<in> ctx_cells32 (oucp m). mem32 m2 x = mem32 m1 x) \<longrightarrow> callable32 m2 \<longrightarrow> ucp m2 = oucp m \<longrightarrow>
         ctx_cells32 (oucp m2) \<inter> ctx_cells32 (oucp m) = {} \<longrightarrow>
         (\<exists>m3. exec32 swapcontext_fast_i386 m2 = Some m3 \<and> resumes32 m m3))"
proof -
  define a b where "a = oucp m" and "b = ucp m"
  from save_exec32 [OF assms(1)] obtain s where s: "exec32 swap_save32 m = Some s" "holds_ctx32 a m (mem32 s)" "regs32 s Eax = b"
    "\<And>x. x \<notin> ctx_cells32 a \<Longrightarrow> mem32 s x = mem32 m x" by (auto simp: a_def b_def)
  have cell: "mem32 s (b + d) = mem32 m (b + d)" if "d \<in> set ctx_offsets32" for d
    using that assms(3) s(4) [of "b + d"] by (auto simp: a_def b_def ctx_cells32_def)
  have b: "mem32 s (b + oESP) = mem32 m (b + oESP)" "mem32 s (b + oEIP) = mem32 m (b + oEIP)" "mem32 s (b + oFPREGS32) = mem32 m (b + oFPREGS32)"
    by (rule cell, simp add: ctx_offsets32_def)+
  then have slot: "ctx_slot32 b (mem32 s) = ctx_slot32 b (mem32 m)" by (simp add: ctx_slot32_def)
  then have "loadable32 (regs32 s Eax) (mem32 s)" using assms(2) b s(3) by (simp add: loadable32_def b_def)
  from restore_exec32 [OF this] b slot s(3) obtain m1 where m1: "exec32 swap_restore32 s = Some m1" "eip m1 = mem32 m (b + oEIP)"
    "mem32 m1 = (mem32 s)(ctx_slot32 b (mem32 m) := mem32 m (b + oEIP))" by metis
  have run: "exec32 swapcontext_fast_i386 m = Some m1"
    using s(1) m1(1) by (simp add: swapcontext_fast_i386_def exec32_append)
  have ctx1: "holds_ctx32 a m (mem32 m1)"
    using assms(4) m1(3) by (intro holds_ctx32_cong [OF s(2)]) (auto simp: a_def b_def)
  have again: "\<exists>m3. exec32 swapcontext_fast_i386 m2 = Some m3 \<and> resumes32 m m3"
    if m2: "\<forall>x \<in> ctx_cells32 a. mem32 m2 x = mem32 m1 x" "callable32 m2" "ucp m2 = a" "ctx_cells32 (oucp m2) \<inter> ctx_cells32 a = {}" for m2
  proof -
    from save_exec32 [OF m2(2)] obtain s2 where s2: "exec32 swap_save32 m2 = Some s2" "regs32 s2 Eax = ucp m2"
      "\<And>x. x \<notin> ctx_cells32 (oucp m2) \<Longrightarrow> mem32 s2 x = mem32 m2 x" by blast
    have "holds_ctx32 a m (mem32 s2)"
      using m2(1,4) s2(3) by (intro holds_ctx32_cong [OF ctx1] ballI) (metis disjoint_iff)
    then obtain m3 where "exec32 swap_restore32 s2 = Some m3" "resumes32 m m3"
      using restore_resumes32 [of a m s2] assms(1) s2(2) m2(3) by (auto simp: callable32_def a_def)
    then show ?thesis using s2(1) by (simp add: swapcontext_fast_i386_def exec32_append)
  qed
  have "a + 0x48 \<notin> ctx_cells32 a" by (simp add: ctx_cells32_iff ctx_offsets32_def off32_defs)
  then have "cr_get_sp_from_cr32 a m1 = mem32 m (a + 0x48)"
    using s(4) m1(3) assms(5) by (simp add: cr_get_sp_from_cr32_def a_def b_def)
  then show ?thesis
    using run m1(2) again ctx1 by (auto simp: a_def b_def holds_ctx32_def)
qed

end
