(* ===== verification/Swapcontext_PPC64.thy ===== *)
theory Swapcontext_PPC64
  imports Swapcontext
begin

text \<open>
  The context switch in assembly for ppc64le (\<^verbatim>\<open>swapcontext_fast_ppc64le.s\<close>), instruction by instruction. General registers, floating-point registers and vector
  registers are numbered as in the assembler; memory is modelled by its 8-byte cells as in theory \<open>Swapcontext\<close>, a vector is two of them. The pointer that the file loads through its table
  of contents, to the structure of the dynamic linker with the hardware capabilities, is a field of the machine, and so is the table of contents itself.
\<close>

unbundle bit_operations_syntax

section \<open>The machine\<close>

record ppc =
  p_gpr :: "nat \<Rightarrow> 64 word"
  p_fpr :: "nat \<Rightarrow> 64 word"
  p_vr :: "nat \<Rightarrow> 64 word \<times> 64 word"   \<comment> \<open>the half at the lower address first\<close>
  p_mem :: "64 word \<Rightarrow> 64 word"
  p_lr :: "64 word"
  p_ctr :: "64 word"
  p_xer :: "64 word"
  p_cr :: "32 word"
  p_fpscr :: "64 word"
  p_vscr :: "32 word"
  p_vrsave :: "32 word"
  p_pc :: "64 word"
  p_toc :: "64 word"
  p_rtld :: "64 word"

datatype pinstr = Set_toc | Std nat "64 word" nat | Stdu nat "64 word" nat | Ld nat "64 word" nat | Addi nat nat "64 word" | Mr nat nat | Li nat "64 word"
  | Mflr nat | Mtlr nat | Mfctr nat | Mtctr nat | Mfxer nat | Mtxer nat | Mfcr nat | Mtcr nat
  | Stfd nat "64 word" nat | Lfd nat "64 word" nat | Mffs nat | Mtfsf nat
  | Ld_hwcap_ptr nat | Andis nat nat "64 word" | Rldicr59 nat nat | Cmpdi nat | Cmpwi nat
  | Stvx nat nat | Lvx nat nat | Lvx_at nat nat nat | Mfvscr nat | Mtvscr nat | Mfvrsave nat | Mtvrsave nat | Stw nat "64 word" nat | Lwz nat "64 word" nat | Bctr
  \<comment> \<open>operands in the order of the assembler; \<^verbatim>\<open>Rldicr59\<close> is \<^verbatim>\<open>rldicr\<close> with 0 and 59, which clears the four lowest bits\<close>

definition set_gpr :: "nat \<Rightarrow> 64 word \<Rightarrow> ppc \<Rightarrow> ppc" where
  "set_gpr r v m = m\<lparr>p_gpr := (p_gpr m)(r := v)\<rparr>"

definition set_cell :: "64 word \<Rightarrow> 64 word \<Rightarrow> ppc \<Rightarrow> ppc" where
  "set_cell a v m = m\<lparr>p_mem := (p_mem m)(a := v)\<rparr>"

definition at_cell :: "64 word \<Rightarrow> ppc \<Rightarrow> ppc option" where
  "at_cell a m = (if aligned a then Some m else None)"

text \<open>The field 0 of the condition register: less, greater, equal, and a copy of the summary overflow.\<close>

definition set_cr0 :: "int \<Rightarrow> ppc \<Rightarrow> ppc" where
  "set_cr0 x m = m\<lparr>p_cr := (p_cr m AND mask 28) OR push_bit 28 ((if x < 0 then 8 else if x > 0 then 4 else 2) OR (if bit (p_xer m) 31 then 1 else 0))\<rparr>"

definition cr0_eq :: "ppc \<Rightarrow> bool" where
  "cr0_eq m \<longleftrightarrow> bit (p_cr m) 29"

definition vec_addr :: "64 word \<Rightarrow> 64 word" where
  "vec_addr a = a AND NOT 15"

fun pexec1 :: "pinstr \<Rightarrow> ppc \<Rightarrow> ppc option" where
  "pexec1 Set_toc m = Some (set_gpr 2 (p_toc m) m)"
| "pexec1 (Std r d b) m = (let a = p_gpr m b + d in at_cell a (set_cell a (p_gpr m r) m))"
| "pexec1 (Stdu r d b) m = (let a = p_gpr m b + d in at_cell a (set_gpr b a (set_cell a (p_gpr m r) m)))"
| "pexec1 (Ld r d b) m = (let a = p_gpr m b + d in at_cell a (set_gpr r (p_mem m a) m))"
| "pexec1 (Addi r b d) m = Some (set_gpr r (p_gpr m b + d) m)"
| "pexec1 (Mr r b) m = Some (set_gpr r (p_gpr m b) m)"
| "pexec1 (Li r d) m = Some (set_gpr r d m)"
| "pexec1 (Mflr r) m = Some (set_gpr r (p_lr m) m)"
| "pexec1 (Mtlr r) m = Some (m\<lparr>p_lr := p_gpr m r\<rparr>)"
| "pexec1 (Mfctr r) m = Some (set_gpr r (p_ctr m) m)"
| "pexec1 (Mtctr r) m = Some (m\<lparr>p_ctr := p_gpr m r\<rparr>)"
| "pexec1 (Mfxer r) m = Some (set_gpr r (p_xer m) m)"
| "pexec1 (Mtxer r) m = Some (m\<lparr>p_xer := p_gpr m r\<rparr>)"
| "pexec1 (Mfcr r) m = Some (set_gpr r (ucast (p_cr m)) m)"
| "pexec1 (Mtcr r) m = Some (m\<lparr>p_cr := ucast (p_gpr m r)\<rparr>)"
| "pexec1 (Stfd r d b) m = (let a = p_gpr m b + d in at_cell a (set_cell a (p_fpr m r) m))"
| "pexec1 (Lfd r d b) m = (let a = p_gpr m b + d in at_cell a (m\<lparr>p_fpr := (p_fpr m)(r := p_mem m a)\<rparr>))"
| "pexec1 (Mffs r) m = Some (m\<lparr>p_fpr := (p_fpr m)(r := p_fpscr m)\<rparr>)"
| "pexec1 (Mtfsf r) m = Some (m\<lparr>p_fpscr := p_fpr m r\<rparr>)"
| "pexec1 (Ld_hwcap_ptr r) m = Some (set_gpr r (p_rtld m) m)"
| "pexec1 (Andis r b i) m = (let v = p_gpr m b AND push_bit 16 i in Some (set_cr0 (sint v) (set_gpr r v m)))"
| "pexec1 (Rldicr59 r b) m = Some (set_gpr r (vec_addr (p_gpr m b)) m)"
| "pexec1 (Cmpdi r) m = Some (set_cr0 (sint (p_gpr m r)) m)"
| "pexec1 (Cmpwi r) m = Some (set_cr0 (sint (ucast (p_gpr m r) :: 32 word)) m)"
| "pexec1 (Stvx v b) m = (let a = vec_addr (p_gpr m b) in Some (set_cell (a + 8) (snd (p_vr m v)) (set_cell a (fst (p_vr m v)) m)))"
| "pexec1 (Lvx v b) m = (let a = vec_addr (p_gpr m b) in Some (m\<lparr>p_vr := (p_vr m)(v := (p_mem m a, p_mem m (a + 8)))\<rparr>))"
| "pexec1 (Lvx_at v c b) m = (let a = vec_addr (p_gpr m c + p_gpr m b) in Some (m\<lparr>p_vr := (p_vr m)(v := (p_mem m a, p_mem m (a + 8)))\<rparr>))"
| "pexec1 (Mfvscr v) m = Some (m\<lparr>p_vr := (p_vr m)(v := (ucast (p_vscr m), 0))\<rparr>)"
| "pexec1 (Mtvscr v) m = Some (m\<lparr>p_vscr := ucast (fst (p_vr m v))\<rparr>)"
| "pexec1 (Mfvrsave r) m = Some (set_gpr r (ucast (p_vrsave m)) m)"
| "pexec1 (Mtvrsave r) m = Some (m\<lparr>p_vrsave := ucast (p_gpr m r)\<rparr>)"
| "pexec1 (Stw r d b) m = (let a = p_gpr m b + d in at_cell a (set_cell a (put_low (ucast (p_gpr m r)) (p_mem m a)) m))"
| "pexec1 (Lwz r d b) m = (let a = p_gpr m b + d in at_cell a (set_gpr r (ucast (ucast (p_mem m a) :: 32 word)) m))"
| "pexec1 Bctr m = Some (m\<lparr>p_pc := p_ctr m\<rparr>)"

fun pexec :: "pinstr list \<Rightarrow> ppc \<Rightarrow> ppc option" where
  "pexec [] m = Some m"
| "pexec (i # is) m = Option.bind (pexec1 i m) (pexec is)"

lemma pexec_append: "pexec (xs @ ys) m = Option.bind (pexec xs m) (pexec ys)"
  by (induction xs arbitrary: m) (auto split: bind_splits)

section \<open>The function\<close>

text \<open>Runs of instructions that differ only in the number of the register are written as maps over these numbers.\<close>

definition ppc_save_regs :: "pinstr list" where
  "ppc_save_regs = [Set_toc, Std 0 232 3, Std 1 240 3, Mflr 0, Std 31 (- 8) 1, Std 2 248 3, Std 0 16 1, Std 0 520 3, Std 0 488 3, Stdu 1 (- 128) 1]
     @ map (\<lambda>i. Std i (word_of_nat (232 + 8 * i)) 3) [4..<32]
     @ [Mfctr 0, Std 0 512 3, Mfxer 0, Std 0 528 3, Mfcr 0, Std 0 536 3,
        Li 0 0, Std 0 256 3, Std 0 496 3, Std 0 504 3, Std 0 544 3, Std 0 552 3, Std 0 560 3, Std 0 568 3, Std 0 576 3,
        Addi 0 3 232, Std 0 224 3]"

definition ppc_save_fp :: "pinstr list" where
  "ppc_save_fp = map (\<lambda>i. Stfd i (word_of_nat (616 + 8 * i)) 3) [0..<30] @ [Mffs 0, Stfd 30 856 3, Stfd 31 864 3, Stfd 0 872 3]"

definition ppc_test_vec :: "pinstr list" where
  "ppc_test_vec = [Ld_hwcap_ptr 8, Ld 8 88 8, Addi 10 3 896, Addi 9 3 912, Andis 6 8 4096, Rldicr59 10 10]"

definition ppc_save_vec :: "pinstr list" where
  "ppc_save_vec = [Rldicr59 9 9, Mr 8 10] @ concat (map (\<lambda>i. [Stvx (2 * i) 10, Stvx (2 * i + 1) 9, Addi 10 10 32, Addi 9 9 32]) [0..<16])
     @ [Mfvscr 0, Mfvrsave 0, Stvx 0 10, Stw 0 0 9]"

definition ppc_save :: "ppc \<Rightarrow> ppc option" where
  "ppc_save m = Option.bind (pexec (ppc_save_regs @ ppc_save_fp @ ppc_test_vec) m)
     (\<lambda>m. Option.bind (if cr0_eq m then Some m else pexec ppc_save_vec m) (pexec [Std 8 880 3]))"

definition ppc_load_vec :: "pinstr list" where
  "ppc_load_vec = [Lvx_at 19 9 10, Addi 9 10 16, Lvx 0 10, Lvx 1 9, Addi 10 10 32, Addi 9 9 32, Mtvscr 19]
     @ concat (map (\<lambda>i. [Lvx (2 * i) 10, Lvx (2 * i + 1) 9, Addi 10 10 32, Addi 9 9 32]) [1..<16])
     @ [Lvx 10 10, Lvx 11 9, Addi 10 10 32, Addi 9 9 32]"

definition ppc_load_fp :: "pinstr list" where
  "ppc_load_fp = [Lfd 0 872 31, Lfd 31 864 31, Lfd 30 856 31, Mtfsf 0] @ map (\<lambda>i. Lfd i (word_of_nat (616 + 8 * i)) 31) (rev [0..<30])"

definition ppc_load_regs :: "pinstr list" where
  "ppc_load_regs = [Ld 0 520 31, Ld 1 240 31, Mtlr 0, Ld 2 248 31, Ld 0 528 31, Ld 3 256 31, Mtxer 0, Ld 4 264 31, Ld 0 536 31]
     @ map (\<lambda>i. Ld i (word_of_nat (232 + 8 * i)) 31) [5..<10] @ [Mtcr 0]
     @ map (\<lambda>i. Ld i (word_of_nat (232 + 8 * i)) 31) ([10..<13] @ [14..<31])
     @ [Ld 0 488 31, Mtctr 0, Ld 0 232 31, Ld 31 480 31, Bctr]"

text \<open>The three branches to \<^verbatim>\<open>Lhas_no_vec2\<close>.\<close>

definition ppc_restore :: "ppc \<Rightarrow> ppc option" where
  "ppc_restore m = Option.bind (pexec [Mr 31 4, Ld_hwcap_ptr 8, Ld 10 880 31, Ld 8 88 8, Andis 6 8 4096] m)
     (\<lambda>m. Option.bind (if cr0_eq m then Some m else Option.bind (pexec [Cmpdi 10] m)
       (\<lambda>m. if cr0_eq m then Some m else Option.bind (pexec [Lwz 0 528 10, Li 9 512, Mtvrsave 0, Cmpwi 0] m)
         (\<lambda>m. if cr0_eq m then Some m else pexec ppc_load_vec m)))
     (pexec (ppc_load_fp @ ppc_load_regs)))"

definition swapcontext_fast_ppc64le :: "ppc \<Rightarrow> ppc option" where
  "swapcontext_fast_ppc64le m = Option.bind (ppc_save m) ppc_restore"

section \<open>Cells of a context\<close>

lemma ucast_back [simp]: "ucast (ucast (x :: 32 word) :: 64 word) = x"
  by (rule bit_word_eqI) (simp add: bit_simps)

lemma sint_zero [simp]: "sint (x :: 64 word) = 0 \<longleftrightarrow> x = 0" "sint (y :: 32 word) = 0 \<longleftrightarrow> y = 0"
  by (metis signed_0 signed_word_eqI)+

lemma cr0_eq_set [simp]: "cr0_eq (set_cr0 x m) \<longleftrightarrow> x = 0"
  by (auto simp: cr0_eq_def set_cr0_def bit_simps)

lemma set_cr0_fields [simp]: "p_gpr (set_cr0 x m) = p_gpr m" "p_fpr (set_cr0 x m) = p_fpr m" "p_vr (set_cr0 x m) = p_vr m" "p_mem (set_cr0 x m) = p_mem m"
  "cr0_eq (m\<lparr>p_gpr := g\<rparr>) = cr0_eq m" "p_vscr (set_cr0 x m) = p_vscr m" "p_vrsave (set_cr0 x m) = p_vrsave m" "p_rtld (set_cr0 x m) = p_rtld m"
  by (simp_all add: set_cr0_def cr0_eq_def)

definition cell :: "64 word \<Rightarrow> nat \<Rightarrow> 64 word" where
  "cell a n = a + word_of_nat n"

definition ctx_size :: nat where "ctx_size = 1440"

lemma cell_inj: "n < ctx_size \<Longrightarrow> k < ctx_size \<Longrightarrow> cell a n = cell a k \<longleftrightarrow> n = k"
proof -
  assume "n < ctx_size" "k < ctx_size"
  then have "unat (word_of_nat n :: 64 word) = n" "unat (word_of_nat k :: 64 word) = k" by (simp_all add: ctx_size_def unat_of_nat)
  then have "word_of_nat n = (word_of_nat k :: 64 word) \<longleftrightarrow> n = k" by metis
  then show ?thesis by (simp add: cell_def)
qed

definition puts :: "64 word \<Rightarrow> (nat \<times> 64 word) list \<Rightarrow> (64 word \<Rightarrow> 64 word) \<Rightarrow> 64 word \<Rightarrow> 64 word" where
  "puts a L M = fold (\<lambda>(n, v) M. M(cell a n := v)) L M"

lemma puts_simps: "puts a [] M = M" "puts a ((n, v) # L) M = puts a L (M(cell a n := v))" "puts a (L1 @ L2) M = puts a L2 (puts a L1 M)"
  by (simp_all add: puts_def)

lemma puts_at:
  assumes "\<forall>(n, v) \<in> set L. n < ctx_size" and "k < ctx_size"
  shows "puts a L M (cell a k) = (case map_of (rev L) k of Some v \<Rightarrow> v | None \<Rightarrow> M (cell a k))"
  using assms(1) by (induction L rule: rev_induct) (auto simp: puts_simps cell_inj assms(2) split: option.splits)

lemma puts_out:
  assumes "\<forall>(n, v) \<in> set L. n < ctx_size" and "x \<notin> cell a ` {..<ctx_size}"
  shows "puts a L M x = M x"
  using assms by (induction L rule: rev_induct) (auto simp: puts_simps)

lemma puts_other:
  assumes "\<forall>(n, v) \<in> set L. n < ctx_size \<and> n \<noteq> k" and "k < ctx_size"
  shows "puts a L M (cell a k) = M (cell a k)"
  using assms by (induction L rule: rev_induct) (auto simp: puts_simps cell_inj)

lemma puts_map:
  assumes "distinct is" and "inj_on f (set is)" and "\<forall>i \<in> set is. f i < ctx_size" and "i \<in> set is"
  shows "puts a (map (\<lambda>i. (f i, v i)) is) M (cell a (f i)) = v i"
  using assms by (induction "is" rule: rev_induct) (auto simp: puts_simps cell_inj inj_on_def)

lemma cell_numeral: "a + numeral k = cell a (numeral k)"
  by (simp add: cell_def)

lemma aligned_cell: "aligned a \<Longrightarrow> aligned (cell a n) \<longleftrightarrow> aligned (word_of_nat n)"
  by (simp add: cell_def aligned_add)

lemma aligned_off: "aligned a \<Longrightarrow> 8 dvd n \<Longrightarrow> aligned (a + word_of_nat n)"
  by (auto simp: aligned_add aligned_dvd)

section \<open>Runs of loads and stores\<close>

lemma pexec_stds:
  assumes "aligned (p_gpr m b)" and "\<forall>i \<in> set is. 8 dvd f i"
  shows "pexec (map (\<lambda>i. Std i (word_of_nat (f i)) b) is) m = Some (m\<lparr>p_mem := puts (p_gpr m b) (map (\<lambda>i. (f i, p_gpr m i)) is) (p_mem m)\<rparr>)"
  using assms
proof (induction "is" arbitrary: m)
  case (Cons i "is")
  have "aligned (p_gpr m b + word_of_nat (f i))" by (rule aligned_off) (use Cons.prems in simp_all)
  then show ?case using Cons.prems by (simp add: Let_def at_cell_def set_cell_def Cons.IH puts_simps cell_def fun_upd_def)
qed (simp add: puts_simps)

lemma pexec_stfds:
  assumes "aligned (p_gpr m b)" and "\<forall>i \<in> set is. 8 dvd f i"
  shows "pexec (map (\<lambda>i. Stfd i (word_of_nat (f i)) b) is) m = Some (m\<lparr>p_mem := puts (p_gpr m b) (map (\<lambda>i. (f i, p_fpr m i)) is) (p_mem m)\<rparr>)"
  using assms
proof (induction "is" arbitrary: m)
  case (Cons i "is")
  have "aligned (p_gpr m b + word_of_nat (f i))" by (rule aligned_off) (use Cons.prems in simp_all)
  then show ?case using Cons.prems by (simp add: Let_def at_cell_def set_cell_def Cons.IH puts_simps cell_def fun_upd_def)
qed (simp add: puts_simps)

lemma pexec_lds:
  assumes "aligned (p_gpr m b)" and "\<forall>i \<in> set is. 8 dvd f i \<and> i \<noteq> b"
  shows "pexec (map (\<lambda>i. Ld i (word_of_nat (f i)) b) is) m =
    Some (m\<lparr>p_gpr := (\<lambda>i. if i \<in> set is then p_mem m (cell (p_gpr m b) (f i)) else p_gpr m i)\<rparr>)"
  using assms
proof (induction "is" arbitrary: m)
  case (Cons i "is")
  have "aligned (p_gpr m b + word_of_nat (f i))" by (rule aligned_off) (use Cons.prems in simp_all)
  then show ?case using Cons.prems 
    by (simp add: Let_def at_cell_def set_gpr_def Cons.IH cell_def) (rule arg_cong [of _ _ "\<lambda>g. m\<lparr>p_gpr := g\<rparr>"], rule ext, simp add: cell_def)
qed simp

lemma pexec_lfds:
  assumes "aligned (p_gpr m b)" and "\<forall>i \<in> set is. 8 dvd f i"
  shows "pexec (map (\<lambda>i. Lfd i (word_of_nat (f i)) b) is) m =
    Some (m\<lparr>p_fpr := (\<lambda>i. if i \<in> set is then p_mem m (cell (p_gpr m b) (f i)) else p_fpr m i)\<rparr>)"
  using assms
proof (induction "is" arbitrary: m)
  case (Cons i "is")
  have "aligned (p_gpr m b + word_of_nat (f i))" by (rule aligned_off) (use Cons.prems in simp_all)
  then show ?case using Cons.prems 
    by (simp add: Let_def at_cell_def Cons.IH cell_def) (rule arg_cong [of _ _ "\<lambda>g. m\<lparr>p_fpr := g\<rparr>"], rule ext, simp add: cell_def)
qed simp

section \<open>Saving\<close>

text \<open>The context lies at a multiple of 16, as \<^verbatim>\<open>malloc\<close> and the two pointers before it in \<^verbatim>\<open>struct coroutine\<close> give it; the stack and the word with the capabilities are elsewhere.\<close>

definition stack_cells :: "64 word \<Rightarrow> 64 word set" where
  "stack_cells sp = {sp - 8, sp + 16, sp - 128}"

definition area :: "64 word \<Rightarrow> 64 word set" where
  "area a = cell a ` {..<ctx_size}"

definition ppc_callable :: "ppc \<Rightarrow> bool" where
  "ppc_callable m \<longleftrightarrow> 16 dvd p_gpr m 3 \<and> aligned (p_gpr m 1) \<and> stack_cells (p_gpr m 1) \<inter> area (p_gpr m 3) = {} \<and>
     aligned (p_rtld m) \<and> p_rtld m + 88 \<notin> area (p_gpr m 3) \<union> stack_cells (p_gpr m 1)"

lemmas pstep = Let_def at_cell_def set_gpr_def set_cell_def

lemma save_regs_exec:
  assumes a: "p_gpr m 3 = a" "aligned a" and sp: "p_gpr m 1 = sp" "aligned sp" "stack_cells sp \<inter> area a = {}"
  obtains m' where "pexec ppc_save_regs m = Some m'"
    and "\<And>i. 4 \<le> i \<Longrightarrow> i < 32 \<Longrightarrow> p_mem m' (cell a (232 + 8 * i)) = p_gpr m i"
    and "p_mem m' (cell a 240) = sp" "p_mem m' (cell a 248) = p_toc m" "p_mem m' (cell a 256) = 0" "p_mem m' (cell a 520) = p_lr m"
      "p_mem m' (cell a 488) = p_lr m" "p_mem m' (cell a 528) = p_xer m" "p_mem m' (cell a 536) = ucast (p_cr m)"
    and "\<And>x. x \<notin> area a \<union> stack_cells sp \<Longrightarrow> p_mem m' x = p_mem m x"
    and "\<And>r. r \<notin> {0, 1, 2} \<Longrightarrow> p_gpr m' r = p_gpr m r" and "\<And>k. k < 224 \<Longrightarrow> p_mem m' (cell a k) = p_mem m (cell a k)"
    and "p_fpr m' = p_fpr m" "p_vr m' = p_vr m" "p_fpscr m' = p_fpscr m" "p_vscr m' = p_vscr m" "p_vrsave m' = p_vrsave m" "p_rtld m' = p_rtld m"
proof -
  have out: "sp - 8 \<noteq> cell a n" "sp - 128 \<noteq> cell a n" "sp + 16 \<noteq> cell a n" if "n < ctx_size" for n
    using that sp(3) by (auto simp: stack_cells_def area_def)
  have al: "aligned (cell a n)" if "8 dvd n" for n using a(2) that aligned_off by (simp add: cell_def)
  define g where "g = (p_gpr m)(2 := p_toc m, 0 := p_lr m, 1 := sp - 128)"
  define M where "M = (p_mem m)(cell a 232 := p_gpr m 0, cell a 240 := sp, sp - 8 := p_gpr m 31, cell a 248 := p_toc m, sp + 16 := p_lr m,
     cell a 520 := p_lr m, cell a 488 := p_lr m, sp - 128 := sp)"
  have 1: "pexec [Set_toc, Std 0 232 3, Std 1 240 3, Mflr 0, Std 31 (- 8) 1, Std 2 248 3, Std 0 16 1, Std 0 520 3, Std 0 488 3, Stdu 1 (- 128) 1] m =
      Some (m\<lparr>p_gpr := g, p_mem := M\<rparr>)"
    using a sp by (simp add: pstep cell_numeral [of a] al M_def g_def aligned_diff aligned_add [of sp])
  define M2 where "M2 = puts a (map (\<lambda>i. (232 + 8 * i, g i)) [4..<32]) M"
  have 2: "pexec (map (\<lambda>i. Std i (word_of_nat (232 + 8 * i)) 3) [4..<32]) (m\<lparr>p_gpr := g, p_mem := M\<rparr>) = Some (m\<lparr>p_gpr := g, p_mem := M2\<rparr>)"
    by (subst pexec_stds) (use a in \<open>simp_all add: M2_def g_def\<close>)
  define M3 where "M3 = M2(cell a 512 := p_ctr m, cell a 528 := p_xer m, cell a 536 := ucast (p_cr m), cell a 256 := 0, cell a 496 := 0, cell a 504 := 0,
     cell a 544 := 0, cell a 552 := 0, cell a 560 := 0, cell a 568 := 0, cell a 576 := 0, cell a 224 := cell a 232)"
  have 3: "pexec [Mfctr 0, Std 0 512 3, Mfxer 0, Std 0 528 3, Mfcr 0, Std 0 536 3, Li 0 0, Std 0 256 3, Std 0 496 3, Std 0 504 3, Std 0 544 3, Std 0 552 3, Std 0 560 3,
      Std 0 568 3, Std 0 576 3, Addi 0 3 232, Std 0 224 3] (m\<lparr>p_gpr := g, p_mem := M2\<rparr>) = Some (m\<lparr>p_gpr := g(0 := cell a 232), p_mem := M3\<rparr>)"
    using a by (simp add: pstep cell_numeral [of a] al M3_def g_def)
  have e: "pexec ppc_save_regs m = Some (m\<lparr>p_gpr := g(0 := cell a 232), p_mem := M3\<rparr>)"
    unfolding ppc_save_regs_def pexec_append 1 bind.bind_lunit 2 by (rule 3)
  have inj: "inj_on (\<lambda>i. 232 + 8 * i) S" for S :: "nat set" by (simp add: inj_on_def)
  have M2i: "M2 (cell a (232 + 8 * i)) = p_gpr m i" if "4 \<le> i" "i < 32" for i
    unfolding M2_def by (subst puts_map) (use that in \<open>auto simp: inj ctx_size_def g_def simp del: upt_rec_numeral\<close>)
  have M2k: "M2 (cell a k) = M (cell a k)" if "k < 264 \<or> (480 < k \<and> k < ctx_size)" for k
    unfolding M2_def by (rule puts_other) (use that in \<open>auto simp: ctx_size_def\<close>)
  show thesis
  proof (rule that [OF e])
    show "p_mem (m\<lparr>p_gpr := g(0 := cell a 232), p_mem := M3\<rparr>) (cell a (232 + 8 * i)) = p_gpr m i" if "4 \<le> i" "i < 32" for i
      using M2i [OF that] that by (auto simp: M3_def cell_inj ctx_size_def)
    show "p_mem (m\<lparr>p_gpr := g(0 := cell a 232), p_mem := M3\<rparr>) (cell a k) = p_mem m (cell a k)" if "k < 224" for k
      using M2k [of k] that out [of k] by (auto simp: M3_def M_def cell_inj ctx_size_def)
    show "p_mem (m\<lparr>p_gpr := g(0 := cell a 232), p_mem := M3\<rparr>) x = p_mem m x" if "x \<notin> area a \<union> stack_cells sp" for x
    proof -
      have x: "x \<noteq> cell a k" if "k < ctx_size" for k using that \<open>x \<notin> area a \<union> stack_cells sp\<close> by (auto simp: area_def)
      have "M2 x = M x" unfolding M2_def by (rule puts_out) (use x in \<open>auto simp: ctx_size_def\<close>)
      then show ?thesis using that by (simp add: M3_def M_def x ctx_size_def stack_cells_def)
    qed
  qed (use M2k out [symmetric] in \<open>simp_all add: M3_def M_def cell_inj ctx_size_def g_def\<close>)
qed

lemma save_fp_exec:
  assumes a: "p_gpr m 3 = a" "aligned a"
  obtains m' where "pexec ppc_save_fp m = Some m'" and "\<And>i. i < 32 \<Longrightarrow> p_mem m' (cell a (616 + 8 * i)) = p_fpr m i" and "p_mem m' (cell a 872) = p_fpscr m"
    and "\<And>k. k < 616 \<Longrightarrow> p_mem m' (cell a k) = p_mem m (cell a k)" and "\<And>x. x \<notin> area a \<Longrightarrow> p_mem m' x = p_mem m x"
    and "p_gpr m' = p_gpr m" "p_vr m' = p_vr m" "p_vscr m' = p_vscr m" "p_vrsave m' = p_vrsave m" "p_rtld m' = p_rtld m"
proof -
  have al: "aligned (cell a n)" if "8 dvd n" for n using a(2) that aligned_off by (simp add: cell_def)
  define M where "M = puts a (map (\<lambda>i. (616 + 8 * i, p_fpr m i)) [0..<30]) (p_mem m)"
  have 1: "pexec (map (\<lambda>i. Stfd i (word_of_nat (616 + 8 * i)) 3) [0..<30]) m = Some (m\<lparr>p_mem := M\<rparr>)"
    by (subst pexec_stfds) (use a in \<open>simp_all add: M_def\<close>)
  define M2 where "M2 = M(cell a 856 := p_fpr m 30, cell a 864 := p_fpr m 31, cell a 872 := p_fpscr m)"
  have 2: "pexec [Mffs 0, Stfd 30 856 3, Stfd 31 864 3, Stfd 0 872 3] (m\<lparr>p_mem := M\<rparr>) = Some (m\<lparr>p_fpr := (p_fpr m)(0 := p_fpscr m), p_mem := M2\<rparr>)"
    using a by (simp add: pstep cell_numeral [of a] al M2_def)
  have e: "pexec ppc_save_fp m = Some (m\<lparr>p_fpr := (p_fpr m)(0 := p_fpscr m), p_mem := M2\<rparr>)"
    unfolding ppc_save_fp_def pexec_append 1 bind.bind_lunit by (rule 2)
  have inj: "inj_on (\<lambda>i. 616 + 8 * i) S" for S :: "nat set" by (simp add: inj_on_def)
  have Mi: "M (cell a (616 + 8 * i)) = p_fpr m i" if "i < 30" for i
    unfolding M_def by (subst puts_map) (use that in \<open>auto simp: inj ctx_size_def simp del: upt_rec_numeral\<close>)
  have Mk: "M (cell a k) = p_mem m (cell a k)" if "k < 616" for k
    unfolding M_def by (rule puts_other) (use that in \<open>auto simp: ctx_size_def\<close>)
  show thesis
  proof (rule that [OF e])
    show "p_mem (m\<lparr>p_fpr := (p_fpr m)(0 := p_fpscr m), p_mem := M2\<rparr>) (cell a (616 + 8 * i)) = p_fpr m i" if "i < 32" for i
    proof -
      consider "i < 30" | "i = 30" | "i = 31" using \<open>i < 32\<close> by linarith
      then show ?thesis by cases (auto simp: M2_def cell_inj ctx_size_def Mi)
    qed
    show "p_mem (m\<lparr>p_fpr := (p_fpr m)(0 := p_fpscr m), p_mem := M2\<rparr>) (cell a k) = p_mem m (cell a k)" if "k < 616" for k
      using Mk [OF that] that by (auto simp: M2_def cell_inj ctx_size_def)
    show "p_mem (m\<lparr>p_fpr := (p_fpr m)(0 := p_fpscr m), p_mem := M2\<rparr>) x = p_mem m x" if "x \<notin> area a" for x
    proof -
      have x: "x \<noteq> cell a k" if "k < ctx_size" for k using that \<open>x \<notin> area a\<close> by (auto simp: area_def)
      have "M x = p_mem m x" unfolding M_def by (rule puts_out) (use x in \<open>auto simp: ctx_size_def\<close>)
      then show ?thesis by (simp add: M2_def x ctx_size_def)
    qed
  qed (simp_all add: M2_def cell_inj ctx_size_def)
qed

text \<open>The vector registers, two in a round.\<close>

lemma vec_addr_id: "16 dvd x \<Longrightarrow> vec_addr x = x"
proof -
  assume "16 dvd x"
  moreover have "(2 :: 64 word) ^ 4 = 16" by simp
  ultimately have "take_bit 4 x = 0" by (simp add: take_bit_eq_0_iff)
  then have b: "\<not> bit x n" if "n < 4" for n using bit_take_bit_iff [of 4 x n] that by simp
  have m: "(15 :: 64 word) = mask 4" by (simp add: mask_eq_exp_minus_1)
  show ?thesis unfolding vec_addr_def m
    by (rule bit_word_eqI, unfold bit_and_iff bit_not_iff bit_mask_iff) (use b in auto)
qed

lemma vec_cell:
  assumes "16 dvd a" and "16 dvd k"
  shows "vec_addr (cell a k) = cell a k"
proof (rule vec_addr_id)
  obtain j where "k = 16 * j" using assms(2) by blast
  then show "16 dvd cell a k" using assms(1) by (simp add: cell_def)
qed

lemma aligned_16: "16 dvd a \<Longrightarrow> aligned a"
proof -
  assume "16 dvd a"
  then obtain k where "a = 8 * (2 * k)" by (auto elim: dvdE)
  then show ?thesis unfolding aligned_dvd by (metis dvd_triv_left)
qed

lemma cell_add: "cell a k + numeral n = cell a (k + numeral n)" "numeral n + cell a k = cell a (k + numeral n)"
  by (simp_all add: cell_def)

definition vec_image :: "(nat \<Rightarrow> 64 word \<times> 64 word) \<Rightarrow> nat \<Rightarrow> (nat \<times> 64 word) list" where
  "vec_image v n = concat (map (\<lambda>i. [(896 + 16 * i, fst (v i)), (904 + 16 * i, snd (v i))]) [0..<n])"

lemma save_vec_rounds:
  assumes a: "16 dvd a" and g: "p_gpr m 10 = cell a 896" "p_gpr m 9 = cell a 912" and n: "n \<le> 16"
  shows "pexec (concat (map (\<lambda>i. [Stvx (2 * i) 10, Stvx (2 * i + 1) 9, Addi 10 10 32, Addi 9 9 32]) [0..<n])) m =
    Some (m\<lparr>p_gpr := (p_gpr m)(10 := cell a (896 + 32 * n), 9 := cell a (912 + 32 * n)), p_mem := puts a (vec_image (p_vr m) (2 * n)) (p_mem m)\<rparr>)"
  using n
proof (induction n)
  case 0
  then show ?case using g by (simp add: vec_image_def puts_simps fun_upd_idem)
next
  case (Suc n)
  have d: "16 dvd 896 + 32 * n" "16 dvd 912 + 32 * n" by presburger+
  note v = vec_cell [OF a d(1)] vec_cell [OF a d(2)]
  have "vec_image (p_vr m) (2 * Suc n) = vec_image (p_vr m) (2 * n) @ [(896 + 32 * n, fst (p_vr m (2 * n))), (904 + 32 * n, snd (p_vr m (2 * n))),
      (912 + 32 * n, fst (p_vr m (2 * n + 1))), (920 + 32 * n, snd (p_vr m (2 * n + 1)))]"
    by (simp add: vec_image_def)
  then show ?case using Suc by (simp add: pexec_append pstep v cell_add puts_simps fun_upd_def) (rule ppc.equality; auto)
qed

lemma vec_image_read:
  assumes "n \<le> 32"
  shows "i < n \<Longrightarrow> puts a (vec_image v n) M (cell a (896 + 16 * i)) = fst (v i) \<and> puts a (vec_image v n) M (cell a (904 + 16 * i)) = snd (v i)"
    and "k < 896 \<or> (1408 \<le> k \<and> k < ctx_size) \<Longrightarrow> puts a (vec_image v n) M (cell a k) = M (cell a k)"
    and "x \<notin> area a \<Longrightarrow> puts a (vec_image v n) M x = M x"
proof -
  have s: "\<forall>(j, w) \<in> set (vec_image v n). 896 \<le> j \<and> j < 1408" using assms by (auto simp: vec_image_def)
  show "i < n \<Longrightarrow> puts a (vec_image v n) M (cell a (896 + 16 * i)) = fst (v i) \<and> puts a (vec_image v n) M (cell a (904 + 16 * i)) = snd (v i)"
    using assms
  proof (induction n)
    case (Suc n)
    have "vec_image v (Suc n) = vec_image v n @ [(896 + 16 * n, fst (v n)), (904 + 16 * n, snd (v n))]" by (simp add: vec_image_def)
    moreover have "896 + 16 * i \<noteq> 904 + 16 * n" "904 + 16 * i \<noteq> 896 + 16 * n" by presburger+
    ultimately show ?case using Suc by (auto simp: puts_simps cell_inj ctx_size_def less_Suc_eq)
  qed simp
  show "k < 896 \<or> (1408 \<le> k \<and> k < ctx_size) \<Longrightarrow> puts a (vec_image v n) M (cell a k) = M (cell a k)"
    by (rule puts_other) (use s in \<open>fastforce simp: ctx_size_def\<close>)+
  show "x \<notin> area a \<Longrightarrow> puts a (vec_image v n) M x = M x"
    by (rule puts_out) (use s in \<open>fastforce simp: ctx_size_def area_def\<close>)+
qed

lemma save_vec_exec:
  assumes a: "16 dvd a" and g: "p_gpr m 10 = cell a 896" "p_gpr m 9 = cell a 912"
  obtains m' where "pexec ppc_save_vec m = Some m'" and "\<And>i. i < 32 \<Longrightarrow> (p_mem m' (cell a (896 + 16 * i)), p_mem m' (cell a (904 + 16 * i))) = p_vr m i"
    and "ucast (p_mem m' (cell a 1408)) = p_vscr m" and "ucast (p_mem m' (cell a 1424)) = p_vrsave m"
    and "\<And>k. k < 896 \<Longrightarrow> p_mem m' (cell a k) = p_mem m (cell a k)" and "\<And>x. x \<notin> area a \<Longrightarrow> p_mem m' x = p_mem m x"
    and "p_gpr m' 8 = cell a 896" and "\<And>r. r \<notin> {0, 8, 9, 10} \<Longrightarrow> p_gpr m' r = p_gpr m r" and "p_rtld m' = p_rtld m"
proof -
  let ?m1 = "m\<lparr>p_gpr := (p_gpr m)(9 := cell a 912, 8 := cell a 896)\<rparr>"
  note al = aligned_16 [OF a]
  have v: "vec_addr (cell a 912) = cell a 912" "vec_addr (cell a 1408) = cell a 1408" using vec_cell [OF a, of 912] vec_cell [OF a, of 1408] by simp_all
  have 1: "pexec [Rldicr59 9 9, Mr 8 10] m = Some ?m1" using g by (simp add: pstep v)
  let ?M = "puts a (vec_image (p_vr m) 32) (p_mem m)"
  let ?g = "(p_gpr m)(9 := cell a 1424, 8 := cell a 896, 10 := cell a 1408)"
  have 2: "pexec (concat (map (\<lambda>i. [Stvx (2 * i) 10, Stvx (2 * i + 1) 9, Addi 10 10 32, Addi 9 9 32]) [0..<16])) ?m1 = Some (m\<lparr>p_gpr := ?g, p_mem := ?M\<rparr>)"
    by (subst save_vec_rounds [OF a]) (use g in \<open>auto simp: fun_upd_twist\<close>)
  let ?M' = "?M(cell a 1408 := ucast (p_vscr m), cell a 1416 := 0, cell a 1424 := put_low (p_vrsave m) (?M (cell a 1424)))"
  have ac: "aligned (cell a 1424)" using aligned_off [OF al, of 1424] by (simp add: cell_def)
  have 3: "pexec [Mfvscr 0, Mfvrsave 0, Stvx 0 10, Stw 0 0 9] (m\<lparr>p_gpr := ?g, p_mem := ?M\<rparr>) =
      Some (m\<lparr>p_gpr := ?g(0 := ucast (p_vrsave m)), p_vr := (p_vr m)(0 := (ucast (p_vscr m), 0)), p_mem := ?M'\<rparr>)"
    by (simp add: pstep v cell_add ac cell_inj ctx_size_def)
  have e: "pexec ppc_save_vec m = Some (m\<lparr>p_gpr := ?g(0 := ucast (p_vrsave m)), p_vr := (p_vr m)(0 := (ucast (p_vscr m), 0)), p_mem := ?M'\<rparr>)"
    unfolding ppc_save_vec_def pexec_append 1 bind.bind_lunit 2 by (rule 3)
  note R = vec_image_read [of 32 _ a "p_vr m" "p_mem m", simplified]
  show thesis
  proof (rule that [OF e])
    show "ucast (p_mem (m\<lparr>p_gpr := ?g(0 := ucast (p_vrsave m)), p_vr := (p_vr m)(0 := (ucast (p_vscr m), 0)), p_mem := ?M'\<rparr>) (cell a 1408)) = p_vscr m"
      by (simp add: cell_inj ctx_size_def)
  qed (use R in \<open>auto simp: cell_inj ctx_size_def area_def\<close>)
qed

text \<open>A context at address \<open>a\<close> of memory \<open>M\<close> that holds the state \<open>m\<close> at its call, with the vector registers if the machine has them.\<close>

definition has_vec :: "ppc \<Rightarrow> bool" where
  "has_vec m \<longleftrightarrow> p_mem m (p_rtld m + 88) AND push_bit 16 4096 \<noteq> 0"

definition ppc_holds :: "bool \<Rightarrow> 64 word \<Rightarrow> ppc \<Rightarrow> (64 word \<Rightarrow> 64 word) \<Rightarrow> bool" where
  "ppc_holds vec a m M \<longleftrightarrow> (\<forall>i. 4 \<le> i \<and> i < 32 \<longrightarrow> M (cell a (232 + 8 * i)) = p_gpr m i) \<and> M (cell a 240) = p_gpr m 1 \<and> M (cell a 248) = p_toc m \<and>
     M (cell a 256) = 0 \<and> M (cell a 520) = p_lr m \<and> M (cell a 488) = p_lr m \<and> M (cell a 528) = p_xer m \<and> M (cell a 536) = ucast (p_cr m) \<and>
     (\<forall>i < 32. M (cell a (616 + 8 * i)) = p_fpr m i) \<and> M (cell a 872) = p_fpscr m \<and>
     (vec \<longrightarrow> M (cell a 880) = cell a 896 \<and> (\<forall>i < 32. (M (cell a (896 + 16 * i)), M (cell a (904 + 16 * i))) = p_vr m i) \<and>
       ucast (M (cell a 1408)) = p_vscr m \<and> ucast (M (cell a 1424)) = p_vrsave m)"

lemma ppc_save_exec:
  assumes c: "ppc_callable m"
  obtains m' where "ppc_save m = Some m'" and "ppc_holds (has_vec m) (p_gpr m 3) m (p_mem m')" and "p_gpr m' 4 = p_gpr m 4" and "p_rtld m' = p_rtld m"
    and "\<And>x. x \<notin> area (p_gpr m 3) \<union> stack_cells (p_gpr m 1) \<Longrightarrow> p_mem m' x = p_mem m x" and "\<And>k. k < 224 \<Longrightarrow> p_mem m' (cell (p_gpr m 3) k) = p_mem m (cell (p_gpr m 3) k)"
proof -
  define a where "a = p_gpr m 3"
  have a: "16 dvd a" "aligned a" using c aligned_16 by (auto simp: ppc_callable_def a_def)
  have sp: "aligned (p_gpr m 1)" "stack_cells (p_gpr m 1) \<inter> area a = {}" and h: "aligned (p_rtld m)" "p_rtld m + 88 \<notin> area a \<union> stack_cells (p_gpr m 1)"
    using c by (auto simp: ppc_callable_def a_def)
  from save_regs_exec [OF a_def [symmetric] a(2) refl sp] obtain m1 where m1: "pexec ppc_save_regs m = Some m1"
    "\<And>i. 4 \<le> i \<Longrightarrow> i < 32 \<Longrightarrow> p_mem m1 (cell a (232 + 8 * i)) = p_gpr m i"
    "p_mem m1 (cell a 240) = p_gpr m 1" "p_mem m1 (cell a 248) = p_toc m" "p_mem m1 (cell a 256) = 0" "p_mem m1 (cell a 520) = p_lr m"
    "p_mem m1 (cell a 488) = p_lr m" "p_mem m1 (cell a 528) = p_xer m" "p_mem m1 (cell a 536) = ucast (p_cr m)"
    "\<And>x. x \<notin> area a \<union> stack_cells (p_gpr m 1) \<Longrightarrow> p_mem m1 x = p_mem m x" "\<And>r. r \<notin> {0, 1, 2} \<Longrightarrow> p_gpr m1 r = p_gpr m r"
    "\<And>k. k < 224 \<Longrightarrow> p_mem m1 (cell a k) = p_mem m (cell a k)" "p_fpr m1 = p_fpr m" "p_vr m1 = p_vr m" "p_fpscr m1 = p_fpscr m" "p_vscr m1 = p_vscr m" "p_vrsave m1 = p_vrsave m" "p_rtld m1 = p_rtld m" by blast
  have g1: "p_gpr m1 3 = a" using m1(11) [of 3] by (simp add: a_def)
  from save_fp_exec [OF g1 a(2)] obtain m2 where m2: "pexec ppc_save_fp m1 = Some m2" "\<And>i. i < 32 \<Longrightarrow> p_mem m2 (cell a (616 + 8 * i)) = p_fpr m1 i"
    "p_mem m2 (cell a 872) = p_fpscr m1" "\<And>k. k < 616 \<Longrightarrow> p_mem m2 (cell a k) = p_mem m1 (cell a k)" "\<And>x. x \<notin> area a \<Longrightarrow> p_mem m2 x = p_mem m1 x"
    "p_gpr m2 = p_gpr m1" "p_vr m2 = p_vr m1" "p_vscr m2 = p_vscr m1" "p_vrsave m2 = p_vrsave m1" "p_rtld m2 = p_rtld m1" by blast
  have hw: "p_mem m2 (p_rtld m + 88) = p_mem m (p_rtld m + 88)" using m2(5) m1(10) h(2) by simp
  define w where "w = p_mem m (p_rtld m + 88) AND push_bit 16 4096"
  define n where "n = m2\<lparr>p_gpr := (p_gpr m2)(8 := p_mem m (p_rtld m + 88), 10 := cell a 896, 9 := cell a 912, 6 := w)\<rparr>"
  define m3 where "m3 = (set_cr0 (sint w) n)\<lparr>p_gpr := (p_gpr n)(10 := cell a 896)\<rparr>"
  have 3: "pexec ppc_test_vec m2 = Some m3"
    using h(1) vec_cell [OF a(1), of 896]
    by (simp add: ppc_test_vec_def pstep m2(6,10) m1(18) g1 hw m3_def n_def w_def aligned_add [of "p_rtld m"] cell_numeral [of a])
  have f3: "p_mem m3 = p_mem m2" "p_vr m3 = p_vr m" "p_vscr m3 = p_vscr m" "p_vrsave m3 = p_vrsave m" "p_rtld m3 = p_rtld m" "p_gpr m3 10 = cell a 896"
    "p_gpr m3 9 = cell a 912" "p_gpr m3 3 = a" "p_gpr m3 4 = p_gpr m 4" "cr0_eq m3 \<longleftrightarrow> \<not> has_vec m"
    using m1(11) [of 4] m1(14,16-18) m2(6-10) g1 by (simp_all add: m3_def n_def w_def has_vec_def)
  obtain m4 where m4: "(if cr0_eq m3 then Some m3 else pexec ppc_save_vec m3) = Some m4" "\<And>k. k < 896 \<Longrightarrow> p_mem m4 (cell a k) = p_mem m3 (cell a k)"
    "\<And>x. x \<notin> area a \<Longrightarrow> p_mem m4 x = p_mem m3 x" "p_gpr m4 3 = a" "p_gpr m4 4 = p_gpr m 4" "p_rtld m4 = p_rtld m"
    "has_vec m \<Longrightarrow> p_gpr m4 8 = cell a 896 \<and> (\<forall>i < 32. (p_mem m4 (cell a (896 + 16 * i)), p_mem m4 (cell a (904 + 16 * i))) = p_vr m i) \<and>
       ucast (p_mem m4 (cell a 1408)) = p_vscr m \<and> ucast (p_mem m4 (cell a 1424)) = p_vrsave m"
  proof (cases "has_vec m")
    case True
    from save_vec_exec [OF a(1) f3(6,7)] obtain v where v: "pexec ppc_save_vec m3 = Some v"
      "\<And>i. i < 32 \<Longrightarrow> (p_mem v (cell a (896 + 16 * i)), p_mem v (cell a (904 + 16 * i))) = p_vr m3 i" "ucast (p_mem v (cell a 1408)) = p_vscr m3"
      "ucast (p_mem v (cell a 1424)) = p_vrsave m3" "\<And>k. k < 896 \<Longrightarrow> p_mem v (cell a k) = p_mem m3 (cell a k)" "\<And>x. x \<notin> area a \<Longrightarrow> p_mem v x = p_mem m3 x"
      "p_gpr v 8 = cell a 896" "\<And>r. r \<notin> {0, 8, 9, 10} \<Longrightarrow> p_gpr v r = p_gpr m3 r" "p_rtld v = p_rtld m3" by blast
    show ?thesis by (rule that [of v]) (use v f3 True in simp_all)
  next
    case False
    show ?thesis by (rule that [of m3]) (use f3 False in simp_all)
  qed
  define m5 where "m5 = set_cell (cell a 880) (p_gpr m4 8) m4"
  have "aligned (cell a 880)" using aligned_off [OF a(2), of 880] by (simp add: cell_def)
  then have "pexec [Std 8 880 3] m4 = Some m5" using m4(4) by (simp add: pstep m5_def cell_numeral [of a])
  then have e: "ppc_save m = Some m5"
    by (simp add: ppc_save_def pexec_append m1(1) m2(1) 3 m4(1) del: pexec.simps)
  have M5: "p_mem m5 = (p_mem m4)(cell a 880 := p_gpr m4 8)" by (simp add: m5_def set_cell_def)
  have low: "p_mem m5 (cell a k) = p_mem m1 (cell a k)" if "k < 616" for k
    using that m4(2) m2(4) f3(1) by (simp add: M5 cell_inj ctx_size_def)
  have mid: "p_mem m5 (cell a k) = p_mem m2 (cell a k)" if "k < 880" for k using that m4(2) f3(1) by (simp add: M5 cell_inj ctx_size_def)
  have high: "p_mem m5 (cell a k) = p_mem m4 (cell a k)" if "896 \<le> k" "k < ctx_size" for k using that by (auto simp: M5 cell_inj ctx_size_def)
  have "ppc_holds (has_vec m) a m (p_mem m5)" unfolding ppc_holds_def
  proof (intro conjI allI impI)
    fix i :: nat
    show "4 \<le> i \<and> i < 32 \<Longrightarrow> p_mem m5 (cell a (232 + 8 * i)) = p_gpr m i" using low [of "232 + 8 * i"] m1(2) [of i] by simp
    show "i < 32 \<Longrightarrow> p_mem m5 (cell a (616 + 8 * i)) = p_fpr m i" using mid [of "616 + 8 * i"] m2(2) [of i] m1(13) by simp
    show "has_vec m \<Longrightarrow> i < 32 \<Longrightarrow> (p_mem m5 (cell a (896 + 16 * i)), p_mem m5 (cell a (904 + 16 * i))) = p_vr m i"
      using high [of "896 + 16 * i"] high [of "904 + 16 * i"] m4(7) by (simp add: ctx_size_def)
    show "p_mem m5 (cell a 872) = p_fpscr m" using mid [of 872] m2(3) m1(15) by simp
  qed (use low m1(3-9) high m4(7) in \<open>simp_all add: ctx_size_def\<close>, simp add: M5)
  moreover have "p_mem m5 x = p_mem m x" if "x \<notin> area a \<union> stack_cells (p_gpr m 1)" for x
  proof -
    have "cell a 880 \<in> area a" by (simp add: area_def ctx_size_def)
    then show ?thesis using that m4(3) m2(5) m1(10) f3(1) by (auto simp: M5)
  qed
  moreover have "p_mem m5 (cell a k) = p_mem m (cell a k)" if "k < 224" for k using low [of k] m1(12) [of k] that by simp
  ultimately show thesis using e m4(5,6) by (intro that [of m5]) (simp_all add: a_def m5_def set_cell_def)
qed

lemma ppc_save_returns: "ppc_callable m \<Longrightarrow> \<exists>s. ppc_save m = Some s"
  by (rule ppc_save_exec [of m]) (assumption, rule exI)

lemma ppc_saved:
  assumes c: "ppc_callable m" and s: "ppc_save m = Some s"
  shows "ppc_holds (has_vec m) (p_gpr m 3) m (p_mem s)" and "p_gpr s 4 = p_gpr m 4" and "p_rtld s = p_rtld m"
    and "x \<notin> area (p_gpr m 3) \<union> stack_cells (p_gpr m 1) \<Longrightarrow> p_mem s x = p_mem m x"
    and "k < 224 \<Longrightarrow> p_mem s (cell (p_gpr m 3) k) = p_mem m (cell (p_gpr m 3) k)"
proof -
  have "ppc_holds (has_vec m) (p_gpr m 3) m (p_mem s) \<and> p_gpr s 4 = p_gpr m 4 \<and> p_rtld s = p_rtld m \<and>
      (x \<notin> area (p_gpr m 3) \<union> stack_cells (p_gpr m 1) \<longrightarrow> p_mem s x = p_mem m x) \<and> (k < 224 \<longrightarrow> p_mem s (cell (p_gpr m 3) k) = p_mem m (cell (p_gpr m 3) k))"
  proof (rule ppc_save_exec [OF c])
    fix m' assume "ppc_save m = Some m'" and h: "ppc_holds (has_vec m) (p_gpr m 3) m (p_mem m')" "p_gpr m' 4 = p_gpr m 4" "p_rtld m' = p_rtld m"
      "\<And>x. x \<notin> area (p_gpr m 3) \<union> stack_cells (p_gpr m 1) \<Longrightarrow> p_mem m' x = p_mem m x"
      "\<And>k. k < 224 \<Longrightarrow> p_mem m' (cell (p_gpr m 3) k) = p_mem m (cell (p_gpr m 3) k)"
    then have "m' = s" using s by (simp only: option.inject)
    then show ?thesis using h(1-3) h(4) [of x] h(5) [of k] by blast
  qed
  then show "ppc_holds (has_vec m) (p_gpr m 3) m (p_mem s)" and "p_gpr s 4 = p_gpr m 4" and "p_rtld s = p_rtld m"
    and "x \<notin> area (p_gpr m 3) \<union> stack_cells (p_gpr m 1) \<Longrightarrow> p_mem s x = p_mem m x"
    and "k < 224 \<Longrightarrow> p_mem s (cell (p_gpr m 3) k) = p_mem m (cell (p_gpr m 3) k)" by blast+
qed

section \<open>Loading\<close>

lemma load_vec_rounds:
  assumes a: "16 dvd a" and g: "p_gpr m 10 = cell a (896 + 32 * k)" "p_gpr m 9 = cell a (912 + 32 * k)" and n: "k \<le> n"
  shows "pexec (concat (map (\<lambda>i. [Lvx (2 * i) 10, Lvx (2 * i + 1) 9, Addi 10 10 32, Addi 9 9 32]) [k..<n])) m =
    Some (m\<lparr>p_gpr := (p_gpr m)(10 := cell a (896 + 32 * n), 9 := cell a (912 + 32 * n)),
      p_vr := (\<lambda>i. if 2 * k \<le> i \<and> i < 2 * n then (p_mem m (cell a (896 + 16 * i)), p_mem m (cell a (904 + 16 * i))) else p_vr m i)\<rparr>)"
  using n
proof (induction n rule: dec_induct)
  case base
  have "(\<lambda>i. if 2 * k \<le> i \<and> i < 2 * k then (p_mem m (cell a (896 + 16 * i)), p_mem m (cell a (904 + 16 * i))) else p_vr m i) = p_vr m" by (rule ext) auto
  then show ?case using g by (simp add: fun_upd_idem)
next
  case (step n)
  have d: "16 dvd 896 + 32 * n" "16 dvd 912 + 32 * n" by presburger+
  note v = vec_cell [OF a d(1)] vec_cell [OF a d(2)]
  let ?c = "\<lambda>i. (p_mem m (cell a (896 + 16 * i)), p_mem m (cell a (904 + 16 * i)))"
  have f: "(\<lambda>i. if 2 * k \<le> i \<and> i < 2 * Suc n then ?c i else p_vr m i) =
      (\<lambda>i. if 2 * k \<le> i \<and> i < 2 * n then ?c i else p_vr m i)(2 * n := ?c (2 * n), 2 * n + 1 := ?c (2 * n + 1))"
    using step.hyps(1) by (auto simp: fun_eq_iff less_Suc_eq)
  show ?case unfolding f using step
    by (simp add: pexec_append pstep v cell_add fun_upd_def) (rule ppc.equality; auto simp: cell_add)
qed

lemma load_vec_exec:
  assumes a: "16 dvd a" and g: "p_gpr m 10 = cell a 896" "p_gpr m 9 = 512"
  obtains m' where "pexec ppc_load_vec m = Some m'" and "\<And>i. i < 32 \<Longrightarrow> i \<notin> {10, 11} \<Longrightarrow> p_vr m' i = (p_mem m (cell a (896 + 16 * i)), p_mem m (cell a (904 + 16 * i)))"
    and "p_vscr m' = ucast (p_mem m (cell a 1408))" and "\<And>r. r \<notin> {9, 10} \<Longrightarrow> p_gpr m' r = p_gpr m r" and "p_mem m' = p_mem m" and "p_vrsave m' = p_vrsave m"
proof -
  let ?c = "\<lambda>i. (p_mem m (cell a (896 + 16 * i)), p_mem m (cell a (904 + 16 * i)))"
  have v: "vec_addr (cell a 896) = cell a 896" "vec_addr (cell a 912) = cell a 912" "vec_addr (cell a 1408) = cell a 1408" "vec_addr (cell a 1424) = cell a 1424"
    using vec_cell [OF a, of 896] vec_cell [OF a, of 912] vec_cell [OF a, of 1408] vec_cell [OF a, of 1424] by simp_all
  define m1 where "m1 = m\<lparr>p_gpr := (p_gpr m)(9 := cell a 944, 10 := cell a 928), p_vr := (p_vr m)(19 := (p_mem m (cell a 1408), p_mem m (cell a 1416)), 0 := ?c 0, 1 := ?c 1),
     p_vscr := ucast (p_mem m (cell a 1408))\<rparr>"
  have 1: "pexec [Lvx_at 19 9 10, Addi 9 10 16, Lvx 0 10, Lvx 1 9, Addi 10 10 32, Addi 9 9 32, Mtvscr 19] m = Some m1"
    using g by (simp add: pstep v cell_add m1_def fun_upd_twist)
  define m2 where "m2 = m1\<lparr>p_gpr := (p_gpr m1)(10 := cell a 1408, 9 := cell a 1424), p_vr := (\<lambda>i. if 2 \<le> i \<and> i < 32 then ?c i else p_vr m1 i)\<rparr>"
  have 2: "pexec (concat (map (\<lambda>i. [Lvx (2 * i) 10, Lvx (2 * i + 1) 9, Addi 10 10 32, Addi 9 9 32]) [1..<16])) m1 = Some m2"
  proof -
    have f: "p_mem m1 = p_mem m" "p_gpr m1 10 = cell a (896 + 32 * 1)" "p_gpr m1 9 = cell a (912 + 32 * 1)" by (simp_all add: m1_def)
    have k: "cell a (896 + 32 * 16) = cell a 1408" "cell a (912 + 32 * 16) = cell a 1424" "2 * 1 = (2 :: nat)" "2 * 16 = (32 :: nat)" by simp_all
    show ?thesis using load_vec_rounds [OF a f(2,3), of 16, unfolded f(1) k] unfolding m2_def by simp
  qed
  define m3 where "m3 = m2\<lparr>p_gpr := (p_gpr m2)(10 := cell a 1440, 9 := cell a 1456), p_vr := (p_vr m2)(10 := ?c 32, 11 := ?c 33)\<rparr>"
  have 3: "pexec [Lvx 10 10, Lvx 11 9, Addi 10 10 32, Addi 9 9 32] m2 = Some m3"
    by (simp add: pstep v cell_add m3_def m2_def m1_def)
  have e: "pexec ppc_load_vec m = Some m3" unfolding ppc_load_vec_def pexec_append 1 bind.bind_lunit 2 by (rule 3)
  show thesis
  proof (rule that [OF e])
    fix i :: nat assume "i < 32" "i \<notin> {10, 11}"
    then show "p_vr m3 i = ?c i" by (auto simp: m3_def m2_def m1_def not_le less_2_cases_iff)
  qed (simp_all add: m3_def m2_def m1_def)
qed

lemma load_fp_exec:
  assumes a: "p_gpr m 31 = a" "aligned a"
  shows "\<exists>m'. pexec ppc_load_fp m = Some m' \<and> (\<forall>i < 32. p_fpr m' i = p_mem m (cell a (616 + 8 * i))) \<and> p_fpscr m' = p_mem m (cell a 872) \<and>
    p_gpr m' = p_gpr m \<and> p_mem m' = p_mem m \<and> p_vr m' = p_vr m \<and> p_vscr m' = p_vscr m \<and> p_vrsave m' = p_vrsave m"
proof -
  have al: "aligned (cell a n)" if "8 dvd n" for n using a(2) that aligned_off by (simp add: cell_def)
  let ?M = "\<lambda>k. p_mem m (cell a k)"
  let ?m = "m\<lparr>p_fpr := (p_fpr m)(0 := ?M 872, 31 := ?M 864, 30 := ?M 856), p_fpscr := ?M 872\<rparr>"
  have 1: "pexec [Lfd 0 872 31, Lfd 31 864 31, Lfd 30 856 31, Mtfsf 0] m = Some ?m"
    using a by (simp add: pstep cell_numeral [of a] al)
  have 2: "pexec (map (\<lambda>i. Lfd i (word_of_nat (616 + 8 * i)) 31) (rev [0..<30])) ?m =
      Some (?m\<lparr>p_fpr := (\<lambda>i. if i \<in> set (rev [0..<30]) then p_mem ?m (cell (p_gpr ?m 31) (616 + 8 * i)) else p_fpr ?m i)\<rparr>)"
    by (rule pexec_lfds) (use a in simp_all)
  have "(if i \<in> set (rev [0..<30]) then p_mem ?m (cell (p_gpr ?m 31) (616 + 8 * i)) else p_fpr ?m i) = ?M (616 + 8 * i)" if "i < 32" for i
  proof -
    consider "i < 30" | "i = 30" | "i = 31" using \<open>i < 32\<close> by linarith
    then show ?thesis using a by cases (simp_all del: upt_rec_numeral)
  qed
  then show ?thesis unfolding ppc_load_fp_def pexec_append 1 bind.bind_lunit 2 by simp
qed

lemma load_regs_exec:
  assumes a: "p_gpr m 31 = a" "aligned a"
  shows "\<exists>m'. pexec ppc_load_regs m = Some m' \<and> (\<forall>i. 14 \<le> i \<and> i < 32 \<longrightarrow> p_gpr m' i = p_mem m (cell a (232 + 8 * i))) \<and>
    p_gpr m' 1 = p_mem m (cell a 240) \<and> p_gpr m' 2 = p_mem m (cell a 248) \<and> p_gpr m' 3 = p_mem m (cell a 256) \<and> p_gpr m' 13 = p_gpr m 13 \<and>
    p_lr m' = p_mem m (cell a 520) \<and> p_pc m' = p_mem m (cell a 488) \<and> p_xer m' = p_mem m (cell a 528) \<and> p_cr m' = ucast (p_mem m (cell a 536)) \<and>
    p_fpr m' = p_fpr m \<and> p_fpscr m' = p_fpscr m \<and> p_mem m' = p_mem m \<and> p_vr m' = p_vr m \<and> p_vscr m' = p_vscr m \<and> p_vrsave m' = p_vrsave m"
proof -
  have al: "aligned (cell a n)" if "8 dvd n" for n using a(2) that aligned_off by (simp add: cell_def)
  let ?M = "\<lambda>k. p_mem m (cell a k)"
  define m1 where "m1 = m\<lparr>p_gpr := (p_gpr m)(1 := ?M 240, 2 := ?M 248, 3 := ?M 256, 4 := ?M 264, 0 := ?M 536), p_lr := ?M 520, p_xer := ?M 528\<rparr>"
  have 1: "pexec [Ld 0 520 31, Ld 1 240 31, Mtlr 0, Ld 2 248 31, Ld 0 528 31, Ld 3 256 31, Mtxer 0, Ld 4 264 31, Ld 0 536 31] m = Some m1"
    using a by (simp add: pstep cell_numeral [of a] al m1_def fun_upd_twist)
  have f1: "p_mem m1 = p_mem m" "p_gpr m1 31 = a" using a by (simp_all add: m1_def)
  define m2 where "m2 = m1\<lparr>p_gpr := (\<lambda>i. if i \<in> {5..<10} then ?M (232 + 8 * i) else p_gpr m1 i)\<rparr>"
  have 2: "pexec (map (\<lambda>i. Ld i (word_of_nat (232 + 8 * i)) 31) [5..<10]) m1 = Some m2"
    unfolding m2_def by (subst pexec_lds, unfold f1 set_upt) (use a in simp_all)
  define m3 where "m3 = m2\<lparr>p_cr := ucast (?M 536)\<rparr>"
  have 3: "pexec [Mtcr 0] m2 = Some m3" by (simp add: m3_def m2_def m1_def)
  have f3: "p_mem m3 = p_mem m" "p_gpr m3 31 = a" using f1 by (simp_all add: m3_def m2_def)
  define m4 where "m4 = m3\<lparr>p_gpr := (\<lambda>i. if i \<in> {10..<13} \<union> {14..<31} then ?M (232 + 8 * i) else p_gpr m3 i)\<rparr>"
  have 4: "pexec (map (\<lambda>i. Ld i (word_of_nat (232 + 8 * i)) 31) ([10..<13] @ [14..<31])) m3 = Some m4"
    unfolding m4_def by (subst pexec_lds, unfold f3 set_upt set_append) (use a in auto)
  define m5 where "m5 = m4\<lparr>p_gpr := (p_gpr m4)(0 := ?M 232, 31 := ?M 480), p_ctr := ?M 488, p_pc := ?M 488\<rparr>"
  have g4: "p_gpr m4 31 = a" "p_mem m4 = p_mem m" using f3 by (simp_all add: m4_def)
  have 5: "pexec [Ld 0 488 31, Mtctr 0, Ld 0 232 31, Ld 31 480 31, Bctr] m4 = Some m5"
    using g4 by (simp add: pstep cell_numeral [of a] al m5_def)
  have "pexec ppc_load_regs m = Some m5"
    unfolding ppc_load_regs_def pexec_append [of "map _ _" "[Mtcr 0] @ _"] pexec_append [of "[Mtcr 0]"] pexec_append [of "map _ ([10..<13] @ [14..<31])"]
      pexec_append [of "[Ld 0 520 31, Ld 1 240 31, Mtlr 0, Ld 2 248 31, Ld 0 528 31, Ld 3 256 31, Mtxer 0, Ld 4 264 31, Ld 0 536 31]"] 1 bind.bind_lunit 2 3 4 by (rule 5)
  then show ?thesis by (auto simp: m5_def m4_def m3_def m2_def m1_def)
qed

section \<open>Away and back\<close>

text \<open>
  What a call that was left with a switch sees when it is switched to again: it returns 0 to its caller, with the stack, the registers a call preserves (14 to 31 of both kinds) and the
  control registers as they were. The register 13, which belongs to the pthread, is that of the pthread that continues it. Vector registers come back if the register \<^verbatim>\<open>VRSAVE\<close> of the
  call was not 0; two of them, which a call need not preserve, have changed even then.
\<close>

definition ppc_resumes :: "bool \<Rightarrow> ppc \<Rightarrow> ppc \<Rightarrow> ppc \<Rightarrow> bool" where
  "ppc_resumes vec m0 m m' \<longleftrightarrow> p_pc m' = p_lr m0 \<and> p_lr m' = p_lr m0 \<and> p_gpr m' 1 = p_gpr m0 1 \<and> p_gpr m' 2 = p_toc m0 \<and> p_gpr m' 3 = 0 \<and>
     (\<forall>i. 14 \<le> i \<and> i < 32 \<longrightarrow> p_gpr m' i = p_gpr m0 i) \<and> p_gpr m' 13 = p_gpr m 13 \<and> (\<forall>i < 32. p_fpr m' i = p_fpr m0 i) \<and> p_fpscr m' = p_fpscr m0 \<and>
     p_cr m' = p_cr m0 \<and> p_xer m' = p_xer m0 \<and> p_mem m' = p_mem m \<and>
     (vec \<longrightarrow> p_vrsave m' = p_vrsave m0 \<and>
       (if p_vrsave m0 = 0 then p_vr m' = p_vr m else p_vscr m' = p_vscr m0 \<and> (\<forall>i < 32. i \<notin> {10, 11} \<longrightarrow> p_vr m' i = p_vr m0 i)))"

lemma load_rest:
  assumes h: "ppc_holds vec a m0 (p_mem m)" and g: "p_gpr m 31 = a" "aligned a"
  obtains m' where "pexec (ppc_load_fp @ ppc_load_regs) m = Some m'" and "p_vr m' = p_vr m" "p_vscr m' = p_vscr m" "p_vrsave m' = p_vrsave m"
    and "p_pc m' = p_lr m0 \<and> p_lr m' = p_lr m0 \<and> p_gpr m' 1 = p_gpr m0 1 \<and> p_gpr m' 2 = p_toc m0 \<and> p_gpr m' 3 = 0 \<and>
      (\<forall>i. 14 \<le> i \<and> i < 32 \<longrightarrow> p_gpr m' i = p_gpr m0 i) \<and> p_gpr m' 13 = p_gpr m 13 \<and> (\<forall>i < 32. p_fpr m' i = p_fpr m0 i) \<and> p_fpscr m' = p_fpscr m0 \<and>
      p_cr m' = p_cr m0 \<and> p_xer m' = p_xer m0 \<and> p_mem m' = p_mem m"
proof -
  from load_fp_exec [OF g] obtain m1 where m1: "pexec ppc_load_fp m = Some m1" "\<forall>i < 32. p_fpr m1 i = p_mem m (cell a (616 + 8 * i))"
    "p_fpscr m1 = p_mem m (cell a 872)" "p_gpr m1 = p_gpr m" "p_mem m1 = p_mem m" "p_vr m1 = p_vr m" "p_vscr m1 = p_vscr m" "p_vrsave m1 = p_vrsave m" by blast
  have g1: "p_gpr m1 31 = a" using m1(4) g(1) by simp
  from load_regs_exec [OF g1 g(2)] obtain m2 where m2: "pexec ppc_load_regs m1 = Some m2"
    "\<forall>i. 14 \<le> i \<and> i < 32 \<longrightarrow> p_gpr m2 i = p_mem m1 (cell a (232 + 8 * i))" "p_gpr m2 1 = p_mem m1 (cell a 240)" "p_gpr m2 2 = p_mem m1 (cell a 248)"
    "p_gpr m2 3 = p_mem m1 (cell a 256)" "p_gpr m2 13 = p_gpr m1 13" "p_lr m2 = p_mem m1 (cell a 520)" "p_pc m2 = p_mem m1 (cell a 488)"
    "p_xer m2 = p_mem m1 (cell a 528)" "p_cr m2 = ucast (p_mem m1 (cell a 536))" "p_fpr m2 = p_fpr m1" "p_fpscr m2 = p_fpscr m1" "p_mem m2 = p_mem m1"
    "p_vr m2 = p_vr m1" "p_vscr m2 = p_vscr m1" "p_vrsave m2 = p_vrsave m1" by blast
  show thesis by (rule that [of m2]) (use h m1 m2 in \<open>simp_all add: pexec_append ppc_holds_def\<close>)
qed

lemma ppc_restore_exec:
  assumes h: "ppc_holds (has_vec m) a m0 (p_mem m)" and g: "p_gpr m 4 = a" and a: "16 dvd a" "a + 896 \<noteq> 0" and r: "aligned (p_rtld m)"
  shows "\<exists>m'. ppc_restore m = Some m' \<and> ppc_resumes (has_vec m) m0 m m'"
proof -
  note al = aligned_16 [OF a(1)]
  have ac: "aligned (cell a 880)" "aligned (cell a 1424)" using aligned_off [OF al, of 880] aligned_off [OF al, of 1424] by (simp_all add: cell_def)
  define w where "w = p_mem m (p_rtld m + 88) AND push_bit 16 4096"
  define m1 where "m1 = set_cr0 (sint w) (m\<lparr>p_gpr := (p_gpr m)(31 := a, 10 := p_mem m (cell a 880), 8 := p_mem m (p_rtld m + 88), 6 := w)\<rparr>)"
  have 1: "pexec [Mr 31 4, Ld_hwcap_ptr 8, Ld 10 880 31, Ld 8 88 8, Andis 6 8 4096] m = Some m1"
    using g r ac by (simp add: pstep cell_numeral [of a] m1_def w_def aligned_add [of "p_rtld m"] fun_upd_twist)
  have f1: "p_mem m1 = p_mem m" "p_gpr m1 31 = a" "p_gpr m1 10 = p_mem m (cell a 880)" "p_gpr m1 13 = p_gpr m 13" "p_vr m1 = p_vr m" "cr0_eq m1 \<longleftrightarrow> \<not> has_vec m"
    by (simp_all add: m1_def w_def has_vec_def)
  let ?F = "\<lambda>m1. if cr0_eq m1 then Some m1 else Option.bind (pexec [Cmpdi 10] m1)
      (\<lambda>m. if cr0_eq m then Some m else Option.bind (pexec [Lwz 0 528 10, Li 9 512, Mtvrsave 0, Cmpwi 0] m) (\<lambda>m. if cr0_eq m then Some m else pexec ppc_load_vec m))"
  obtain m2 where m2: "?F m1 = Some m2" "p_mem m2 = p_mem m" "p_gpr m2 31 = a" "p_gpr m2 13 = p_gpr m 13"
    "has_vec m \<Longrightarrow> p_vrsave m2 = p_vrsave m0 \<and>
      (if p_vrsave m0 = 0 then p_vr m2 = p_vr m else p_vscr m2 = p_vscr m0 \<and> (\<forall>i < 32. i \<notin> {10, 11} \<longrightarrow> p_vr m2 i = p_vr m0 i))"
  proof (cases "has_vec m")
    case True
    with h have H: "p_mem m (cell a 880) = cell a 896" "\<And>i. i < 32 \<Longrightarrow> (p_mem m (cell a (896 + 16 * i)), p_mem m (cell a (904 + 16 * i))) = p_vr m0 i"
      "ucast (p_mem m (cell a 1408)) = p_vscr m0" "ucast (p_mem m (cell a 1424)) = p_vrsave m0" by (auto simp: ppc_holds_def)
    have nz: "cell a 896 \<noteq> 0" using a(2) by (simp add: cell_def)
    define m3 where "m3 = set_cr0 (sint (p_vrsave m0)) ((set_cr0 (sint (cell a 896)) m1)\<lparr>p_gpr := (p_gpr m1)(0 := ucast (p_vrsave m0), 9 := 512), p_vrsave := p_vrsave m0\<rparr>)"
    have 3: "pexec [Lwz 0 528 10, Li 9 512, Mtvrsave 0, Cmpwi 0] (set_cr0 (sint (cell a 896)) m1) = Some m3"
      using ac f1 H(1,4) by (simp add: pstep cell_add m3_def)
    have f3: "p_mem m3 = p_mem m" "p_gpr m3 31 = a" "p_gpr m3 10 = cell a 896" "p_gpr m3 9 = 512" "p_gpr m3 13 = p_gpr m 13" "p_vr m3 = p_vr m" "p_vrsave m3 = p_vrsave m0"
      "cr0_eq m3 \<longleftrightarrow> p_vrsave m0 = 0"
      using f1 H(1) by (simp_all add: m3_def)
    have F: "?F m1 = (if p_vrsave m0 = 0 then Some m3 else pexec ppc_load_vec m3)"
    proof -
      have z: "pexec [Cmpdi 10] m1 = Some (set_cr0 (sint (cell a 896)) m1)" using f1(3) H(1) by simp
      have "\<not> cr0_eq m1" "\<not> cr0_eq (set_cr0 (sint (cell a 896)) m1)" using True f1(6) nz by simp_all
      then show ?thesis using f3(8) by (simp only: z 3 bind.bind_lunit if_False)
    qed
    show ?thesis
    proof (cases "p_vrsave m0 = 0")
      case True
      then show ?thesis by (intro that [of m3]) (use F f3 in simp_all)
    next
      case False
      from load_vec_exec [OF a(1) f3(3,4)] obtain v where v: "pexec ppc_load_vec m3 = Some v"
        "\<And>i. i < 32 \<Longrightarrow> i \<notin> {10, 11} \<Longrightarrow> p_vr v i = (p_mem m3 (cell a (896 + 16 * i)), p_mem m3 (cell a (904 + 16 * i)))"
        "p_vscr v = ucast (p_mem m3 (cell a 1408))" "\<And>r. r \<notin> {9, 10} \<Longrightarrow> p_gpr v r = p_gpr m3 r" "p_mem v = p_mem m3" "p_vrsave v = p_vrsave m3" by blast
      show ?thesis by (rule that [of v]) (use F False f3 v H in simp_all)
    qed
  next
    case False
    show ?thesis by (rule that [of m1]) (use f1 False in simp_all)
  qed
  from h m2(2) have "ppc_holds (has_vec m) a m0 (p_mem m2)" by simp
  from load_rest [OF this m2(3) al] obtain m' where m': "pexec (ppc_load_fp @ ppc_load_regs) m2 = Some m'"
    "p_vr m' = p_vr m2" "p_vscr m' = p_vscr m2" "p_vrsave m' = p_vrsave m2"
    "p_pc m' = p_lr m0 \<and> p_lr m' = p_lr m0 \<and> p_gpr m' 1 = p_gpr m0 1 \<and> p_gpr m' 2 = p_toc m0 \<and> p_gpr m' 3 = 0 \<and>
      (\<forall>i. 14 \<le> i \<and> i < 32 \<longrightarrow> p_gpr m' i = p_gpr m0 i) \<and> p_gpr m' 13 = p_gpr m2 13 \<and> (\<forall>i < 32. p_fpr m' i = p_fpr m0 i) \<and> p_fpscr m' = p_fpscr m0 \<and>
      p_cr m' = p_cr m0 \<and> p_xer m' = p_xer m0 \<and> p_mem m' = p_mem m2" by blast
  have "ppc_restore m = Some m'" unfolding ppc_restore_def 1 bind.bind_lunit m2(1) by (rule m'(1))
  moreover have "ppc_resumes (has_vec m) m0 m m'"
    unfolding ppc_resumes_def using m'(2-5) m2(2,4,5) by (simp split: if_splits)
  ultimately show ?thesis by blast
qed

text \<open>
  Switching away from a coroutine and back to it on ppc64le: after \<^verbatim>\<open>swapcontext_fast(a, b)\<close> has saved the caller in \<open>a\<close>, whatever runs, so long as it does not write to the context
  \<open>a\<close>, the first later call \<^verbatim>\<open>swapcontext_fast(c, a)\<close> returns from the first one.
\<close>

lemma ppc_cells_cong:
  assumes "ppc_holds vec a m M" and "\<And>k. k < ctx_size \<Longrightarrow> M' (cell a k) = M (cell a k)"
  shows "ppc_holds vec a m M'"
  using assms(1) unfolding ppc_holds_def ctx_size_def by (simp add: assms(2) ctx_size_def)

lemma ppc_round_trip:
  assumes m: "ppc_callable m" "p_gpr m 3 + 896 \<noteq> 0" and s: "ppc_save m = Some s"
    and m2: "\<forall>x \<in> area (p_gpr m 3). p_mem m2 x = p_mem s x" "ppc_callable m2" "p_gpr m2 4 = p_gpr m 3"
      "(area (p_gpr m2 3) \<union> stack_cells (p_gpr m2 1)) \<inter> area (p_gpr m 3) = {}" and hw: "has_vec m2 = has_vec m"
  shows "\<exists>n m3. ppc_save m2 = Some n \<and> swapcontext_fast_ppc64le m2 = Some m3 \<and> ppc_resumes (has_vec m) m n m3"
proof -
  define a where "a = p_gpr m 3"
  have ctx: "ppc_holds (has_vec m) a m (p_mem s)" unfolding a_def by (rule ppc_saved [OF m(1) s])
  from ppc_save_returns [OF m2(2)] obtain n where n1: "ppc_save m2 = Some n" by (rule exE)
  note n = n1 ppc_saved(2-4) [OF m2(2) n1]
  have "p_mem n (cell a k) = p_mem s (cell a k)" if "k < ctx_size" for k
  proof -
    have "cell a k \<in> area a" using that by (simp add: area_def)
    then have "cell a k \<notin> area (p_gpr m2 3) \<union> stack_cells (p_gpr m2 1)" "p_mem m2 (cell a k) = p_mem s (cell a k)" using m2(1,4) unfolding a_def by blast+
    then show ?thesis using n(4) by simp
  qed
  then have h: "ppc_holds (has_vec m) a m (p_mem n)" by (rule ppc_cells_cong [OF ctx])
  have hn: "has_vec n = has_vec m" using n(3,4) m2(2) hw by (auto simp: has_vec_def ppc_callable_def)
  have "\<exists>m'. ppc_restore n = Some m' \<and> ppc_resumes (has_vec n) m n m'"
    by (rule ppc_restore_exec) (use h hn n(2,3) m m2(2,3) in \<open>simp_all add: a_def ppc_callable_def\<close>)
  then show ?thesis using n(1) hn by (auto simp: swapcontext_fast_ppc64le_def)
qed

text \<open>\<^verbatim>\<open>cr_get_sp_from_cr\<close> reads the element 0x14 of the context, as on x86-64. Here that is not where the stack pointer is, and nothing is saved there.\<close>

lemma ppc_sp_elsewhere:
  assumes "ppc_callable m" and "ppc_save m = Some s"
  shows "p_mem s (p_gpr m 3 + 0x14 * 8) = p_mem m (p_gpr m 3 + 0x14 * 8)" and "p_mem s (p_gpr m 3 + 240) = p_gpr m 1"
proof -
  note s = ppc_saved(1,5) [OF assms]
  show "p_mem s (p_gpr m 3 + 0x14 * 8) = p_mem m (p_gpr m 3 + 0x14 * 8)" using s(2) [of 160] by (simp add: cell_def)
  show "p_mem s (p_gpr m 3 + 240) = p_gpr m 1" using s(1) by (simp add: ppc_holds_def cell_def)
qed

end
